(* ===== verification/Prelude.thy ===== *)
theory Prelude
  imports Main "HOL-Library.Word" "HOL-Library.Multiset"
begin

text \<open>
  Shared vocabulary of the development: the machine integers of the kernel's Rust
  code as words, the checked and saturating operations of the Rust standard library,
  the iterator and vector operations the sources use (\<^verbatim>\<open>position\<close>, \<^verbatim>\<open>insert\<close>,
  \<^verbatim>\<open>remove\<close>), and native-endian byte conversions (x86-64 and aarch64 are
  little-endian). Arithmetic operators on words wrap around, as the sources do in the
  release profile, where overflow checks are off.
\<close>

unbundle bit_operations_syntax

type_synonym u8 = "8 word"
type_synonym u16 = "16 word"
type_synonym u32 = "32 word"
type_synonym u64 = "64 word"
type_synonym usize = "64 word"
type_synonym i16 = "16 word"
type_synonym i32 = "32 word"
type_synonym i64 = "64 word"

named_theorems invariant_defs
named_theorems step_simps

section \<open>Checked and saturating arithmetic\<close>

definition checked_add :: "'a::len word \<Rightarrow> 'a word \<Rightarrow> 'a word option" where
  "checked_add a b = (if unat a + unat b < 2 ^ LENGTH('a) then Some (a + b) else None)"

definition checked_sub :: "'a::len word \<Rightarrow> 'a word \<Rightarrow> 'a word option" where
  "checked_sub a b = (if b \<le> a then Some (a - b) else None)"

definition checked_mul :: "'a::len word \<Rightarrow> 'a word \<Rightarrow> 'a word option" where
  "checked_mul a b = (if unat a * unat b < 2 ^ LENGTH('a) then Some (a * b) else None)"

definition saturating_add :: "'a::len word \<Rightarrow> 'a word \<Rightarrow> 'a word" where
  "saturating_add a b = (if unat a + unat b < 2 ^ LENGTH('a) then a + b else - 1)"

definition saturating_sub :: "'a::len word \<Rightarrow> 'a word \<Rightarrow> 'a word" where
  "saturating_sub a b = (if b \<le> a then a - b else 0)"

definition saturating_mul :: "'a::len word \<Rightarrow> 'a word \<Rightarrow> 'a word" where
  "saturating_mul a b = (if unat a * unat b < 2 ^ LENGTH('a) then a * b else - 1)"

lemma unat_less_exp: "unat w < 2 ^ LENGTH('a)"
  for w :: "'a::len word"
  by (rule unsigned_less)

lemma unat_add_exact:
  "unat a + unat b < 2 ^ LENGTH('a) \<Longrightarrow> unat (a + b) = unat a + unat b"
  for a b :: "'a::len word"
  by (simp add: unat_word_ariths)

lemma unat_mult_exact:
  "unat a * unat b < 2 ^ LENGTH('a) \<Longrightarrow> unat (a * b) = unat a * unat b"
  for a b :: "'a::len word"
  by (simp add: unat_word_ariths)

lemma checked_add_Some_iff:
  "checked_add a b = Some c \<longleftrightarrow> unat c = unat a + unat b"
  for a b c :: "'a::len word"
proof
  assume "checked_add a b = Some c"
  then show "unat c = unat a + unat b"
    by (auto simp: checked_add_def unat_add_exact split: if_splits)
next
  assume eq: "unat c = unat a + unat b"
  then have "unat a + unat b < 2 ^ LENGTH('a)"
    by (metis unat_less_exp)
  with eq show "checked_add a b = Some c"
    by (simp add: checked_add_def word_unat_eq_iff unat_add_exact)
qed

lemma checked_mul_Some_iff:
  "checked_mul a b = Some c \<longleftrightarrow> unat c = unat a * unat b"
  for a b c :: "'a::len word"
proof
  assume "checked_mul a b = Some c"
  then show "unat c = unat a * unat b"
    by (auto simp: checked_mul_def unat_mult_exact split: if_splits)
next
  assume eq: "unat c = unat a * unat b"
  then have "unat a * unat b < 2 ^ LENGTH('a)"
    by (metis unat_less_exp)
  with eq show "checked_mul a b = Some c"
    by (simp add: checked_mul_def word_unat_eq_iff unat_mult_exact)
qed

lemma unat_saturating_add:
  "unat (saturating_add a b) = min (unat a + unat b) (2 ^ LENGTH('a) - 1)"
  for a b :: "'a::len word"
  using unsigned_less [of "saturating_add a b"]
  by (auto simp: saturating_add_def unat_add_exact min_def unsigned_minus_1_eq_mask mask_eq_exp_minus_1)

lemma unat_saturating_sub: "unat (saturating_sub a b) = unat a - unat b"
  for a b :: "'a::len word"
  by (auto simp: saturating_sub_def unat_sub word_le_nat_alt)

section \<open>Vectors and iterators\<close>

text \<open>\<open>position\<close> is Rust's \<^verbatim>\<open>iter().position\<close>, \<open>insert_at\<close> and \<open>remove_at\<close> are
  \<^verbatim>\<open>insert\<close> and \<^verbatim>\<open>remove\<close> of \<^verbatim>\<open>Vec\<close> and \<^verbatim>\<open>VecDeque\<close> at an index in range.\<close>

fun position :: "('a \<Rightarrow> bool) \<Rightarrow> 'a list \<Rightarrow> nat option" where
  "position P [] = None"
| "position P (x # xs) = (if P x then Some 0 else map_option Suc (position P xs))"

definition insert_at :: "nat \<Rightarrow> 'a \<Rightarrow> 'a list \<Rightarrow> 'a list" where
  "insert_at n x xs = take n xs @ x # drop n xs"

definition remove_at :: "nat \<Rightarrow> 'a list \<Rightarrow> 'a list" where
  "remove_at n xs = take n xs @ drop (Suc n) xs"

lemma position_Some_iff:
  "position P xs = Some n \<longleftrightarrow> n < length xs \<and> P (xs ! n) \<and> (\<forall>i<n. \<not> P (xs ! i))"
  by (induction xs arbitrary: n) (auto simp: nth_Cons less_Suc_eq_0_disj split: nat.splits)

lemma position_None_iff: "position P xs = None \<longleftrightarrow> (\<forall>x\<in>set xs. \<not> P x)"
  by (induction xs) auto

lemma position_takeWhile:
  "position P xs = Some n \<Longrightarrow> take n xs = takeWhile (\<lambda>x. \<not> P x) xs"
  by (induction xs arbitrary: n) (auto split: if_splits)

lemma position_dropWhile:
  "position P xs = Some n \<Longrightarrow> drop n xs = dropWhile (\<lambda>x. \<not> P x) xs"
  by (induction xs arbitrary: n) (auto split: if_splits)

lemma length_insert_at [simp]: "length (insert_at n x xs) = Suc (length xs)"
  by (simp add: insert_at_def)

lemma set_insert_at [simp]: "set (insert_at n x xs) = insert x (set xs)"
proof -
  have "set (insert_at n x xs) = insert x (set (take n xs @ drop n xs))"
    unfolding insert_at_def set_append by auto
  then show ?thesis by (simp only: append_take_drop_id)
qed

lemma mset_insert_at [simp]: "mset (insert_at n x xs) = add_mset x (mset xs)"
proof -
  have "mset (insert_at n x xs) = add_mset x (mset (take n xs @ drop n xs))"
    unfolding insert_at_def mset_append by simp
  then show ?thesis by (simp only: append_take_drop_id)
qed

lemma length_remove_at: "n < length xs \<Longrightarrow> length (remove_at n xs) = length xs - 1"
  by (simp add: remove_at_def)

lemma mset_remove_at: "n < length xs \<Longrightarrow> mset xs = add_mset (xs ! n) (mset (remove_at n xs))"
proof -
  assume "n < length xs"
  then have "mset (take n xs @ xs ! n # drop (Suc n) xs) = mset xs"
    by (simp add: id_take_nth_drop [symmetric])
  then show ?thesis by (simp add: remove_at_def)
qed

section \<open>Native-endian bytes\<close>

definition to_ne_bytes :: "nat \<Rightarrow> 'a::len word \<Rightarrow> u8 list" where
  "to_ne_bytes n w = map (\<lambda>i. ucast (drop_bit (8 * i) w)) [0..<n]"

fun from_ne_bytes :: "u8 list \<Rightarrow> 'a::len word" where
  "from_ne_bytes [] = 0"
| "from_ne_bytes (b # bs) = ucast b OR push_bit 8 (from_ne_bytes bs)"

lemma length_to_ne_bytes [simp]: "length (to_ne_bytes n w) = n"
  by (simp add: to_ne_bytes_def)

lemma to_ne_bytes_Suc: "to_ne_bytes (Suc n) w = ucast w # to_ne_bytes n (drop_bit 8 w)"
  by (simp add: to_ne_bytes_def upt_conv_Cons map_Suc_upt [symmetric] ac_simps del: upt_Suc)

lemma from_to_ne_bytes:
  "LENGTH('a) \<le> 8 * n + k \<Longrightarrow> take_bit (8 * n) w = w \<Longrightarrow> from_ne_bytes (to_ne_bytes n w) = w"
  for w :: "'a::len word"
proof (induction n arbitrary: w k)
  case 0
  then show ?case by (simp add: to_ne_bytes_def)
next
  case (Suc n)
  have "take_bit (8 * n) (drop_bit 8 w) = drop_bit 8 w"
  proof -
    have "take_bit (8 * n) (drop_bit 8 w) = drop_bit 8 (take_bit (8 * Suc n) w)"
      by (simp add: drop_bit_take_bit)
    then show ?thesis using Suc.prems(2) by simp
  qed
  moreover have "LENGTH('a) \<le> 8 * n + (k + 8)" using Suc.prems(1) by simp
  ultimately have IH: "from_ne_bytes (to_ne_bytes n (drop_bit 8 w)) = drop_bit 8 w"
    by (rule Suc.IH [rotated])
  show ?case
  proof (rule bit_word_eqI)
    fix i assume "i < LENGTH('a)"
    then show "bit (from_ne_bytes (to_ne_bytes (Suc n) w) :: 'a word) i = bit w i"
      by (cases "i < 8") (auto simp: to_ne_bytes_Suc IH bit_simps)
  qed
qed

end
