(* ===== verification/Errno.thy ===== *)
theory Errno
  imports Prelude
begin

text \<open>
  The error vocabulary every system call shares: \<^verbatim>\<open>crates/types/src/errno.rs\<close>. A
  \<^verbatim>\<open>Result<T, Errno>\<close> of the sources is \<open>errno + 'a\<close>, with \<open>Inl\<close> for \<^verbatim>\<open>Err\<close>; the
  discriminant of the enum is a negative \<^verbatim>\<open>i64\<close>, and system calls return it cast to
  \<^verbatim>\<open>u64\<close> (\<open>errno_u64\<close>).
\<close>

unbundle bit_operations_syntax

datatype errno =
    Success | EPERM | ENOENT | ENFILE | EMFILE | ESRCH | EINTR | EIO | ENXIO | E2BIG
  | ENOEXEC | EBADF | ECHILD | EAGAIN | ENOMEM | EACCES | EFAULT | ENOTBLK | EBUSY
  | EEXIST | EXDEV | ENODEV | ENOTTY | ETXTBSY | EFBIG | ENOSPC | ESPIPE | EROFS
  | EMLINK | EPIPE | EDOM | ERANGE | EINVAL | ENOSYS | ELOOP | ENOTDIR | EISDIR
  | EAFNOSUPPORT | EADDRINUSE | EOPNOTSUPP | ECONNREFUSED | ECONNRESET | EALREADY
  | EDESTADDRREQ | ENOPROTOOPT | ENOTSOCK | ENOTCONN | EIDRM | ECANCELED | EOWNERDEAD
  | ENOTRECOVERABLE | EMSGSIZE | ENAMETOOLONG | EOVERFLOW | ETIMEDOUT

type_synonym 'a result = "errno + 'a"

primrec errno_code :: "errno \<Rightarrow> int" where
  "errno_code Success = 0"
| "errno_code EPERM = - 1"
| "errno_code ENOENT = - 2"
| "errno_code ENFILE = - 23"
| "errno_code EMFILE = - 24"
| "errno_code ESRCH = - 3"
| "errno_code EINTR = - 4"
| "errno_code EIO = - 5"
| "errno_code ENXIO = - 6"
| "errno_code E2BIG = - 7"
| "errno_code ENOEXEC = - 8"
| "errno_code EBADF = - 9"
| "errno_code ECHILD = - 10"
| "errno_code EAGAIN = - 11"
| "errno_code ENOMEM = - 12"
| "errno_code EACCES = - 13"
| "errno_code EFAULT = - 14"
| "errno_code ENOTBLK = - 15"
| "errno_code EBUSY = - 16"
| "errno_code EEXIST = - 17"
| "errno_code EXDEV = - 18"
| "errno_code ENODEV = - 19"
| "errno_code ENOTTY = - 25"
| "errno_code ETXTBSY = - 26"
| "errno_code EFBIG = - 27"
| "errno_code ENOSPC = - 28"
| "errno_code ESPIPE = - 29"
| "errno_code EROFS = - 30"
| "errno_code EMLINK = - 31"
| "errno_code EPIPE = - 32"
| "errno_code EDOM = - 33"
| "errno_code ERANGE = - 34"
| "errno_code EINVAL = - 22"
| "errno_code ENOSYS = - 38"
| "errno_code ELOOP = - 40"
| "errno_code ENOTDIR = - 20"
| "errno_code EISDIR = - 21"
| "errno_code EAFNOSUPPORT = - 97"
| "errno_code EADDRINUSE = - 98"
| "errno_code EOPNOTSUPP = - 95"
| "errno_code ECONNREFUSED = - 111"
| "errno_code ECONNRESET = - 104"
| "errno_code EALREADY = - 114"
| "errno_code EDESTADDRREQ = - 89"
| "errno_code ENOPROTOOPT = - 92"
| "errno_code ENOTSOCK = - 88"
| "errno_code ENOTCONN = - 107"
| "errno_code EIDRM = - 43"
| "errno_code ECANCELED = - 125"
| "errno_code EOWNERDEAD = - 130"
| "errno_code ENOTRECOVERABLE = - 131"
| "errno_code EMSGSIZE = - 90"
| "errno_code ENAMETOOLONG = - 36"
| "errno_code EOVERFLOW = - 75"
| "errno_code ETIMEDOUT = - 110"

definition errno_u64 :: "errno \<Rightarrow> u64" where
  "errno_u64 e = word_of_int (errno_code e)"

definition is_transient :: "errno \<Rightarrow> bool" where
  "is_transient e = (e = EAGAIN \<or> e = EINTR \<or> e = ENOMEM)"

lemma errno_code_range: "- 131 \<le> errno_code e \<and> errno_code e \<le> 0"
  by (cases e) simp_all

lemma errno_code_zero_iff: "errno_code e = 0 \<longleftrightarrow> e = Success"
  by (cases e) simp_all

lemma sint_errno_u64: "sint (errno_u64 e) = errno_code e"
  using errno_code_range [of e]
  by (simp add: errno_u64_def sint_sbintrunc' signed_take_bit_int_eq_self)

lemma errno_u64_high:
  assumes "e \<noteq> Success"
  shows "2 ^ 64 - 4095 \<le> unat (errno_u64 e)"
proof -
  have r: "- 131 \<le> errno_code e" "errno_code e < 0"
    using assms errno_code_range [of e] errno_code_zero_iff [of e] by auto
  have "uint (errno_u64 e) = errno_code e mod 2 ^ 64"
    by (simp add: errno_u64_def uint_word_of_int)
  also have "\<dots> = errno_code e + 2 ^ 64"
    using r mod_pos_pos_trivial [of "errno_code e + 2 ^ 64" "2 ^ 64"] by simp
  finally have "unat (errno_u64 e) = nat (errno_code e + 2 ^ 64)"
    by (simp add: unat_eq_nat_uint)
  with r show ?thesis by simp
qed

lemma errno_u64_nonneg_iff: "0 \<le> sint (errno_u64 e) \<longleftrightarrow> e = Success"
  using errno_code_range [of e] errno_code_zero_iff [of e] by (auto simp: sint_errno_u64)

text \<open>All error numbers, to show that no two share a code.\<close>

definition all_errnos :: "errno list" where
  "all_errnos =
   [Success, EPERM, ENOENT, ENFILE, EMFILE, ESRCH, EINTR, EIO, ENXIO, E2BIG, ENOEXEC, EBADF,
    ECHILD, EAGAIN, ENOMEM, EACCES, EFAULT, ENOTBLK, EBUSY, EEXIST, EXDEV, ENODEV, ENOTTY,
    ETXTBSY, EFBIG, ENOSPC, ESPIPE, EROFS, EMLINK, EPIPE, EDOM, ERANGE, EINVAL, ENOSYS, ELOOP,
    ENOTDIR, EISDIR, EAFNOSUPPORT, EADDRINUSE, EOPNOTSUPP, ECONNREFUSED, ECONNRESET, EALREADY,
    EDESTADDRREQ, ENOPROTOOPT, ENOTSOCK, ENOTCONN, EIDRM, ECANCELED, EOWNERDEAD,
    ENOTRECOVERABLE, EMSGSIZE, ENAMETOOLONG, EOVERFLOW, ETIMEDOUT]"

lemma all_errnos_complete: "e \<in> set all_errnos"
  unfolding all_errnos_def by (cases e) simp_all

lemma errno_code_distinct: "distinct (map errno_code all_errnos)"
  unfolding all_errnos_def by code_simp

lemma errno_code_inject: "errno_code d = errno_code e \<Longrightarrow> d = e"
  using errno_code_distinct all_errnos_complete [of d] all_errnos_complete [of e]
  by (auto simp: distinct_map dest: inj_onD)



end
