(* ===== verification/MessageQueue.thy ===== *)
theory MessageQueue
  imports Prelude
begin

text \<open>
  The contract between a bounded message queue and its clients. A queue holds its
  messages in delivery order; a message goes behind every queued message of the same or
  a higher key, and the first message is delivered. A constant key gives a plain FIFO.
  The POSIX message queue and the IPC endpoint queue are both instances. The client
  lemmas, over any sequence of operations, are proved once in the locale.
\<close>

definition insert_desc :: "('m \<Rightarrow> nat) \<Rightarrow> 'm \<Rightarrow> 'm list \<Rightarrow> 'm list" where
  "insert_desc key m xs =
     takeWhile (\<lambda>x. key m \<le> key x) xs @ m # dropWhile (\<lambda>x. key m \<le> key x) xs"

datatype 'm queue_op = Enq 'm | Deq

text \<open>A run returns the messages accepted, the messages delivered and the last state.\<close>

fun run_ops ::
  "('q \<Rightarrow> 'm \<Rightarrow> 'q option) \<Rightarrow> ('q \<Rightarrow> ('m \<times> 'q) option) \<Rightarrow> 'q \<Rightarrow> 'm queue_op list
     \<Rightarrow> 'm list \<times> 'm list \<times> 'q" where
  "run_ops enq deq q [] = ([], [], q)"
| "run_ops enq deq q (Enq m # ops) =
     (case enq q m of
        None \<Rightarrow> run_ops enq deq q ops
      | Some q' \<Rightarrow> (let (acc, del, r) = run_ops enq deq q' ops in (m # acc, del, r)))"
| "run_ops enq deq q (Deq # ops) =
     (case deq q of
        None \<Rightarrow> run_ops enq deq q ops
      | Some (m, q') \<Rightarrow> (let (acc, del, r) = run_ops enq deq q' ops in (acc, m # del, r)))"

definition desc :: "('m \<Rightarrow> nat) \<Rightarrow> 'm list \<Rightarrow> bool" where
  "desc key = sorted_wrt (\<lambda>x y. key y \<le> key x)"

lemma desc_Nil [simp]: "desc key []"
  by (simp add: desc_def)

lemma desc_Cons [simp]: "desc key (x # xs) \<longleftrightarrow> (\<forall>y\<in>set xs. key y \<le> key x) \<and> desc key xs"
  by (simp add: desc_def)

lemma mset_insert_desc [simp]: "mset (insert_desc key m xs) = add_mset m (mset xs)"
proof -
  have "mset (insert_desc key m xs) =
      add_mset m (mset (takeWhile (\<lambda>x. key m \<le> key x) xs @ dropWhile (\<lambda>x. key m \<le> key x) xs))"
    unfolding insert_desc_def mset_append by simp
  then show ?thesis by (simp only: takeWhile_dropWhile_id)
qed

lemma set_insert_desc [simp]: "set (insert_desc key m xs) = insert m (set xs)"
  by (metis mset_insert_desc set_mset_add_mset_insert set_mset_mset)

lemma length_insert_desc [simp]: "length (insert_desc key m xs) = Suc (length xs)"
  by (metis mset_insert_desc size_add_mset size_mset)

lemma insert_desc_Nil [simp]: "insert_desc key m [] = [m]"
  by (simp add: insert_desc_def)

lemma insert_desc_Cons:
  "insert_desc key m (x # xs) =
     (if key m \<le> key x then x # insert_desc key m xs else m # x # xs)"
  by (simp add: insert_desc_def)

lemma desc_insert_desc: "desc key xs \<Longrightarrow> desc key (insert_desc key m xs)"
proof (induction xs)
  case Nil
  then show ?case by simp
next
  case (Cons x xs)
  show ?case
  proof (cases "key m \<le> key x")
    case True
    with Cons show ?thesis by (auto simp: insert_desc_Cons)
  next
    case False
    with Cons.prems show ?thesis by (auto simp: insert_desc_Cons)
  qed
qed

lemma filter_insert_desc:
  "desc key xs \<Longrightarrow>
   filter (\<lambda>x. key x = k) (insert_desc key m xs) =
     filter (\<lambda>x. key x = k) xs @ (if key m = k then [m] else [])"
proof (induction xs)
  case Nil
  then show ?case by simp
next
  case (Cons x xs)
  show ?case
  proof (cases "key m \<le> key x")
    case True
    with Cons show ?thesis by (auto simp: insert_desc_Cons)
  next
    case False
    then have "filter (\<lambda>y. key y = key m) (x # xs) = []"
      using Cons.prems by (auto simp: filter_empty_conv)
    with False show ?thesis by (auto simp: insert_desc_Cons)
  qed
qed

locale message_queue =
  fixes inv :: "'q \<Rightarrow> bool"
    and contents :: "'q \<Rightarrow> 'm list"
    and cap :: "'q \<Rightarrow> nat"
    and key :: "'m \<Rightarrow> nat"
    and enq :: "'q \<Rightarrow> 'm \<Rightarrow> 'q option"
    and deq :: "'q \<Rightarrow> ('m \<times> 'q) option"
  assumes inv_desc: "inv q \<Longrightarrow> desc key (contents q)"
    and inv_cap: "inv q \<Longrightarrow> length (contents q) \<le> cap q"
    and enq_inv: "inv q \<Longrightarrow> enq q m = Some q' \<Longrightarrow> inv q'"
    and enq_cap: "inv q \<Longrightarrow> enq q m = Some q' \<Longrightarrow> cap q' = cap q"
    and enq_contents: "inv q \<Longrightarrow> enq q m = Some q' \<Longrightarrow> contents q' = insert_desc key m (contents q)"
    and deq_inv: "inv q \<Longrightarrow> deq q = Some (m, q') \<Longrightarrow> inv q'"
    and deq_cap: "inv q \<Longrightarrow> deq q = Some (m, q') \<Longrightarrow> cap q' = cap q"
    and deq_contents: "inv q \<Longrightarrow> deq q = Some (m, q') \<Longrightarrow> contents q = m # contents q'"
    and deq_None: "inv q \<Longrightarrow> deq q = None \<longleftrightarrow> contents q = []"
begin

lemma run_induct [consumes 2, case_names finish enq deq]:
  assumes "inv q" and "run_ops enq deq q ops = (acc, del, r)"
    and base: "\<And>q. inv q \<Longrightarrow> P q [] [] q"
    and enq_step: "\<And>q m q' acc del r. inv q \<Longrightarrow> enq q m = Some q' \<Longrightarrow> P q' acc del r \<Longrightarrow> P q (m # acc) del r"
    and deq_step: "\<And>q m q' acc del r. inv q \<Longrightarrow> deq q = Some (m, q') \<Longrightarrow> P q' acc del r \<Longrightarrow> P q acc (m # del) r"
  shows "P q acc del r"
  using assms(1,2)
proof (induction ops arbitrary: q acc del)
  case Nil
  then show ?case using base by simp
next
  case (Cons op ops)
  show ?case
  proof (cases op)
    case (Enq m)
    show ?thesis
    proof (cases "enq q m")
      case None
      with Enq Cons.prems have "run_ops enq deq q ops = (acc, del, r)" by simp
      with Cons.IH Cons.prems(1) show ?thesis by blast
    next
      case (Some q')
      with Enq Cons.prems obtain acc' where
        acc: "acc = m # acc'" and r: "run_ops enq deq q' ops = (acc', del, r)"
        by (auto split: prod.splits)
      from Cons.IH [OF enq_inv [OF Cons.prems(1) Some] r] show ?thesis
        unfolding acc by (rule enq_step [OF Cons.prems(1) Some])
    qed
  next
    case Deq
    show ?thesis
    proof (cases "deq q")
      case None
      with Deq Cons.prems have "run_ops enq deq q ops = (acc, del, r)" by simp
      with Cons.IH Cons.prems(1) show ?thesis by blast
    next
      case (Some mq)
      then obtain m q' where s: "deq q = Some (m, q')" by (cases mq) auto
      with Deq Cons.prems obtain del' where
        del: "del = m # del'" and r: "run_ops enq deq q' ops = (acc, del', r)"
        by (auto split: prod.splits)
      from Cons.IH [OF deq_inv [OF Cons.prems(1) s] r] show ?thesis
        unfolding del by (rule deq_step [OF Cons.prems(1) s])
    qed
  qed
qed

lemma run_inv:
  "inv q \<Longrightarrow> run_ops enq deq q ops = (acc, del, r) \<Longrightarrow> inv r \<and> cap r = cap q"
  by (induction rule: run_induct) (auto simp: enq_cap deq_cap)

lemma run_bounded:
  "inv q \<Longrightarrow> run_ops enq deq q ops = (acc, del, r) \<Longrightarrow> length (contents r) \<le> cap q"
  using run_inv inv_cap by metis

lemma run_conserves:
  "inv q \<Longrightarrow> run_ops enq deq q ops = (acc, del, r) \<Longrightarrow>
   mset (contents q) + mset acc = mset del + mset (contents r)"
  by (induction rule: run_induct) (auto simp: enq_contents deq_contents)

lemma run_fifo_per_key:
  "inv q \<Longrightarrow> run_ops enq deq q ops = (acc, del, r) \<Longrightarrow>
   filter (\<lambda>m. key m = k) (contents q @ acc) = filter (\<lambda>m. key m = k) (del @ contents r)"
proof (induction rule: run_induct)
  case (finish q)
  show ?case by simp
next
  case (enq q m q' acc del r)
  from enq(1,2) have "contents q' = insert_desc key m (contents q)" by (rule enq_contents)
  with enq inv_desc [OF enq(1)] show ?case
    by (cases "key m = k") (simp_all add: filter_insert_desc)
next
  case (deq q m q' acc del r)
  then show ?case using deq_contents [OF deq(1,2)] by simp
qed

lemma deq_highest:
  "inv q \<Longrightarrow> deq q = Some (m, q') \<Longrightarrow> x \<in> set (contents q) \<Longrightarrow> key x \<le> key m"
  using inv_desc [of q] deq_contents [of q m q'] by auto

end

end
