(* ===== verification/MqQueue.thy ===== *)
theory MqQueue
  imports Errno MessageQueue
begin

text \<open>
  The POSIX message queue data structure, \<^verbatim>\<open>kernel/src/ipc/mqueue/queue.rs\<close>: attributes,
  the priority-ordered queue with its one-shot notification, and the per-uid byte budget
  (\<^verbatim>\<open>MQ_BYTES\<close>). The mutex of \<^verbatim>\<open>MqQueueHandle\<close> makes every operation atomic, so a
  method of the handle is the method of the queue it wraps. Message payloads are byte
  lists; lengths are compared as natural numbers with the \<^verbatim>\<open>usize\<close> limits.
\<close>

unbundle bit_operations_syntax

section \<open>Data\<close>

definition QUEUE_MQ_PRIO_MAX :: u32 where
  "QUEUE_MQ_PRIO_MAX = 32768"

definition MQ_MSG_OVERHEAD :: u64 where
  "MQ_MSG_OVERHEAD = 96"

definition SIGEV_SIGNAL :: i32 where
  "SIGEV_SIGNAL = 0"

record mq_notify_req =
  owner_pid :: u64
  signo :: u32
  nkind :: i32

record mq_msg =
  msg_data :: "u8 list"
  msg_prio :: u32

record mq_attr =
  mq_flags :: i64
  mq_maxmsg :: i64
  mq_msgsize :: i64
  mq_curmsgs :: i64
  mq_reserved :: "i64 list"

record mq_queue =
  msgs :: "mq_msg list"
  max_msgs :: usize
  max_msg_size :: usize
  notify :: "mq_notify_req option"

record mq_handle =
  inner :: mq_queue
  owner_uid :: u32
  charge :: u64

definition default_attrs :: mq_attr where
  "default_attrs = \<lparr>mq_flags = 0, mq_maxmsg = 10, mq_msgsize = 8192, mq_curmsgs = 0,
     mq_reserved = [0, 0, 0, 0]\<rparr>"

section \<open>The byte budget\<close>

definition message_bytes :: "mq_attr \<Rightarrow> u64 result" where
  "message_bytes attr =
     (let maxmsg = mq_maxmsg attr in
      case checked_mul maxmsg (mq_msgsize attr) of
        None \<Rightarrow> Inl EOVERFLOW
      | Some payload \<Rightarrow>
          (case checked_mul maxmsg MQ_MSG_OVERHEAD of
             None \<Rightarrow> Inl EOVERFLOW
           | Some overhead \<Rightarrow>
               (case checked_add payload overhead of
                  None \<Rightarrow> Inl EOVERFLOW
                | Some tot \<Rightarrow> Inr tot)))"

type_synonym mq_bytes_map = "u32 \<Rightarrow> u64 option"

definition charge_msgbytes :: "mq_bytes_map \<Rightarrow> u32 \<Rightarrow> u64 \<Rightarrow> u64 \<Rightarrow> mq_bytes_map result" where
  "charge_msgbytes mp uid bytes limit =
     (let used = (case mp uid of Some u \<Rightarrow> u | None \<Rightarrow> 0) in
      case checked_add used bytes of
        None \<Rightarrow> Inl EOVERFLOW
      | Some tot \<Rightarrow> if tot > limit then Inl EMFILE else Inr (mp(uid \<mapsto> tot)))"

definition release_msgbytes :: "mq_bytes_map \<Rightarrow> u32 \<Rightarrow> u64 \<Rightarrow> mq_bytes_map" where
  "release_msgbytes mp uid bytes =
     (case mp uid of
        None \<Rightarrow> mp
      | Some used \<Rightarrow>
          (let used' = saturating_sub used bytes in
           if used' = 0 then mp(uid := None) else mp(uid \<mapsto> used')))"

section \<open>Queue operations\<close>

definition mq_new :: "mq_attr \<Rightarrow> mq_queue" where
  "mq_new attr =
     \<lparr>msgs = [], max_msgs = mq_maxmsg attr, max_msg_size = mq_msgsize attr, notify = None\<rparr>"

definition queue_get_attr :: "mq_queue \<Rightarrow> i32 \<Rightarrow> mq_attr" where
  "queue_get_attr q flags =
     \<lparr>mq_flags = scast flags, mq_maxmsg = max_msgs q, mq_msgsize = max_msg_size q,
      mq_curmsgs = of_nat (length (msgs q)), mq_reserved = [0, 0, 0, 0]\<rparr>"

definition is_full :: "mq_queue \<Rightarrow> bool" where
  "is_full q \<longleftrightarrow> length (msgs q) \<ge> unat (max_msgs q)"

definition is_empty :: "mq_queue \<Rightarrow> bool" where
  "is_empty q \<longleftrightarrow> msgs q = []"

definition queue_len :: "mq_queue \<Rightarrow> nat" where
  "queue_len q = length (msgs q)"

definition mq_send :: "mq_queue \<Rightarrow> u8 list \<Rightarrow> u32 \<Rightarrow> (mq_notify_req option \<times> mq_queue) result" where
  "mq_send q dat p =
     (if p \<ge> QUEUE_MQ_PRIO_MAX then Inl EINVAL
      else if length dat > unat (max_msg_size q) then Inl EMSGSIZE
      else if is_full q then Inl EAGAIN
      else
        let msg = \<lparr>msg_data = dat, msg_prio = p\<rparr>;
            pos = (case position (\<lambda>m. msg_prio m < p) (msgs q) of
                     Some i \<Rightarrow> i
                   | None \<Rightarrow> length (msgs q));
            q' = q\<lparr>msgs := insert_at pos msg (msgs q)\<rparr>
        in if length (msgs q') = 1 then Inr (notify q', q'\<lparr>notify := None\<rparr>)
           else Inr (None, q'))"

text \<open>The buffer of \<open>mq_receive\<close> is the caller's; its first bytes are overwritten.\<close>

definition mq_receive ::
  "mq_queue \<Rightarrow> u8 list \<Rightarrow> ((nat \<times> u32) \<times> u8 list \<times> mq_queue) result" where
  "mq_receive q buf =
     (case msgs q of
        [] \<Rightarrow> Inl EAGAIN
      | m # ms \<Rightarrow>
          (if length (msg_data m) > length buf then Inl EMSGSIZE
           else Inr ((length (msg_data m), msg_prio m),
                     msg_data m @ drop (length (msg_data m)) buf,
                     q\<lparr>msgs := ms\<rparr>)))"

definition qsize :: "mq_queue \<Rightarrow> nat" where
  "qsize q = sum_list (map (\<lambda>m. length (msg_data m)) (msgs q))"

definition register_notify :: "mq_queue \<Rightarrow> mq_notify_req \<Rightarrow> mq_queue result" where
  "register_notify q n =
     (if notify q \<noteq> None then Inl EBUSY else Inr (q\<lparr>notify := Some n\<rparr>))"

definition clear_notify :: "mq_queue \<Rightarrow> u64 \<Rightarrow> mq_queue" where
  "clear_notify q pid =
     (if (case notify q of Some n \<Rightarrow> owner_pid n = pid | None \<Rightarrow> False)
      then q\<lparr>notify := None\<rparr> else q)"

text \<open>Decimal printing and left-aligned padding, for \<^verbatim>\<open>{:<10}\<close> and the like.\<close>

fun dec_digits :: "nat \<Rightarrow> string" where
  "dec_digits n =
     (if n < 10 then [char_of (48 + n)] else dec_digits (n div 10) @ [char_of (48 + n mod 10)])"

declare dec_digits.simps [simp del]

definition dec_int :: "int \<Rightarrow> string" where
  "dec_int k = (if k < 0 then ''-'' @ dec_digits (nat (- k)) else dec_digits (nat k))"

definition pad_right :: "nat \<Rightarrow> string \<Rightarrow> string" where
  "pad_right n s = s @ replicate (n - length s) CHR '' ''"

definition describe_line :: "mq_queue \<Rightarrow> string" where
  "describe_line q =
     (let (k, s, pid) =
        (case notify q of
           Some n \<Rightarrow> (nkind n, if nkind n = SIGEV_SIGNAL then signo n else 0, owner_pid n)
         | None \<Rightarrow> (0, 0, 0))
      in ''QSIZE:'' @ pad_right 10 (dec_digits (qsize q))
         @ '' NOTIFY:'' @ pad_right 5 (dec_int (sint k))
         @ '' SIGNO:'' @ pad_right 5 (dec_digits (unat s))
         @ '' NOTIFY_PID:'' @ pad_right 6 (dec_digits (unat pid)) @ [CHR 0x0A])"

definition handle_new :: "mq_attr \<Rightarrow> u32 \<Rightarrow> u64 \<Rightarrow> mq_handle" where
  "handle_new attr uid c = \<lparr>inner = mq_new attr, owner_uid = uid, charge = c\<rparr>"

definition handle_drop :: "mq_bytes_map \<Rightarrow> mq_handle \<Rightarrow> mq_bytes_map" where
  "handle_drop mp h =
     (if charge h > 0 then release_msgbytes mp (owner_uid h) (charge h) else mp)"

section \<open>The queue as an instance of the message queue contract\<close>

definition mq_wf :: "mq_queue \<Rightarrow> bool" where
  "mq_wf q \<longleftrightarrow>
     desc (\<lambda>m. unat (msg_prio m)) (msgs q)
     \<and> length (msgs q) \<le> unat (max_msgs q)
     \<and> (\<forall>m\<in>set (msgs q). length (msg_data m) \<le> unat (max_msg_size q))
     \<and> (\<forall>m\<in>set (msgs q). msg_prio m < QUEUE_MQ_PRIO_MAX)"

definition mq_enq :: "mq_queue \<Rightarrow> mq_msg \<Rightarrow> mq_queue option" where
  "mq_enq q m = (case mq_send q (msg_data m) (msg_prio m) of Inl e \<Rightarrow> None | Inr (n, q') \<Rightarrow> Some q')"

text \<open>\<open>mq_deq\<close> receives into a zeroed buffer of the queue's maximal message size, the way
  \<^verbatim>\<open>receive_common\<close> calls it, and reads the message back out of the buffer.\<close>

definition mq_deq :: "mq_queue \<Rightarrow> (mq_msg \<times> mq_queue) option" where
  "mq_deq q =
     (case mq_receive q (replicate (unat (max_msg_size q)) 0) of
        Inl e \<Rightarrow> None
      | Inr ((n, p), buf, q') \<Rightarrow> Some (\<lparr>msg_data = take n buf, msg_prio = p\<rparr>, q'))"

lemma position_insert_desc:
  "(case position (\<lambda>m. msg_prio m < p) ms of Some i \<Rightarrow> i | None \<Rightarrow> length ms) = i \<Longrightarrow>
   insert_at i \<lparr>msg_data = d, msg_prio = p\<rparr> ms =
     insert_desc (\<lambda>m. unat (msg_prio m)) \<lparr>msg_data = d, msg_prio = p\<rparr> ms"
proof (cases "position (\<lambda>m. msg_prio m < p) ms")
  case None
  assume "(case position (\<lambda>m. msg_prio m < p) ms of Some i \<Rightarrow> i | None \<Rightarrow> length ms) = i"
  with None have i: "i = length ms" by simp
  from None have "\<forall>m\<in>set ms. unat p \<le> unat (msg_prio m)"
    by (auto simp: position_None_iff word_less_nat_alt not_less)
  then have tw: "takeWhile (\<lambda>m. unat p \<le> unat (msg_prio m)) ms = ms"
    and dw: "dropWhile (\<lambda>m. unat p \<le> unat (msg_prio m)) ms = []"
    by (simp_all only: takeWhile_eq_all_conv dropWhile_eq_Nil_conv)
  show ?thesis by (simp add: insert_at_def insert_desc_def i tw dw)
next
  case (Some j)
  assume "(case position (\<lambda>m. msg_prio m < p) ms of Some i \<Rightarrow> i | None \<Rightarrow> length ms) = i"
  with Some have i: "i = j" by simp
  have eq: "(\<lambda>m. \<not> msg_prio m < p) = (\<lambda>m. unat p \<le> unat (msg_prio m))"
    by (auto simp: word_less_nat_alt not_less)
  show ?thesis
    using position_takeWhile [OF Some] position_dropWhile [OF Some]
    by (simp add: insert_at_def insert_desc_def i eq)
qed

lemma mq_msg_eta [simp]: "\<lparr>msg_data = msg_data m, msg_prio = msg_prio m\<rparr> = m"
  by (cases m) simp

lemma mq_send_Inr_iff:
  "mq_send q d p = Inr (n, q') \<longleftrightarrow>
     p < QUEUE_MQ_PRIO_MAX \<and> length d \<le> unat (max_msg_size q) \<and> \<not> is_full q
     \<and> n = (if msgs q = [] then notify q else None)
     \<and> q' = q\<lparr>msgs := insert_desc (\<lambda>m. unat (msg_prio m)) \<lparr>msg_data = d, msg_prio = p\<rparr> (msgs q),
             notify := (if msgs q = [] then None else notify q)\<rparr>"
  by (auto simp: mq_send_def Let_def position_insert_desc not_le)

lemma mq_send_Inl_iff:
  "mq_send q d p = Inl e \<longleftrightarrow>
     (QUEUE_MQ_PRIO_MAX \<le> p \<and> e = EINVAL)
     \<or> (p < QUEUE_MQ_PRIO_MAX \<and> unat (max_msg_size q) < length d \<and> e = EMSGSIZE)
     \<or> (p < QUEUE_MQ_PRIO_MAX \<and> length d \<le> unat (max_msg_size q) \<and> is_full q \<and> e = EAGAIN)"
  by (auto simp: mq_send_def Let_def not_le not_less)

lemma mq_receive_Inr_iff:
  "mq_receive q buf = Inr ((n, p), buf', q') \<longleftrightarrow>
     (\<exists>m ms. msgs q = m # ms \<and> length (msg_data m) \<le> length buf \<and> n = length (msg_data m)
        \<and> p = msg_prio m \<and> buf' = msg_data m @ drop (length (msg_data m)) buf
        \<and> q' = q\<lparr>msgs := ms\<rparr>)"
  by (auto simp: mq_receive_def not_less split: list.splits if_splits)

lemma mq_wf_new: "mq_wf (mq_new attr)"
  by (simp add: mq_wf_def mq_new_def)

lemma mq_wf_send: "mq_wf q \<Longrightarrow> mq_send q d p = Inr (n, q') \<Longrightarrow> mq_wf q'"
  by (auto simp: mq_wf_def mq_send_Inr_iff desc_insert_desc is_full_def)

lemma mq_wf_receive: "mq_wf q \<Longrightarrow> mq_receive q buf = Inr (r, buf', q') \<Longrightarrow> mq_wf q'"
  by (cases r) (auto simp: mq_wf_def mq_receive_Inr_iff)

lemma mq_wf_register: "mq_wf q \<Longrightarrow> register_notify q n = Inr q' \<Longrightarrow> mq_wf q'"
  by (auto simp: mq_wf_def register_notify_def split: if_splits)

lemma mq_wf_clear: "mq_wf q \<Longrightarrow> mq_wf (clear_notify q pid)"
  by (auto simp: mq_wf_def clear_notify_def)

lemma mq_enq_Some_iff:
  "mq_enq q m = Some q' \<longleftrightarrow> (\<exists>n. mq_send q (msg_data m) (msg_prio m) = Inr (n, q'))"
  by (auto simp: mq_enq_def split: sum.splits)

lemma mq_deq_wf:
  assumes "mq_wf q"
  shows "mq_deq q = (case msgs q of [] \<Rightarrow> None | m # ms \<Rightarrow> Some (m, q\<lparr>msgs := ms\<rparr>))"
  using assms by (auto simp: mq_deq_def mq_receive_def mq_wf_def split: list.splits)

interpretation mq: message_queue mq_wf msgs "\<lambda>q. unat (max_msgs q)" "\<lambda>m. unat (msg_prio m)" mq_enq mq_deq
proof
  fix q m q'
  assume wf: "mq_wf q"
  show "desc (\<lambda>m. unat (msg_prio m)) (msgs q)" and "length (msgs q) \<le> unat (max_msgs q)"
    using wf by (auto simp: mq_wf_def)
  show "mq_deq q = None \<longleftrightarrow> msgs q = []"
    using wf by (simp add: mq_deq_wf split: list.splits)
  {
    assume "mq_enq q m = Some q'"
    then obtain n where snd: "mq_send q (msg_data m) (msg_prio m) = Inr (n, q')"
      by (auto simp: mq_enq_Some_iff)
    with wf show "mq_wf q'" by (rule mq_wf_send)
    from snd show "unat (max_msgs q') = unat (max_msgs q)"
      and "msgs q' = insert_desc (\<lambda>m. unat (msg_prio m)) m (msgs q)"
      by (auto simp: mq_send_Inr_iff)
  next
    assume "mq_deq q = Some (m, q')"
    with wf show "mq_wf q'" and "unat (max_msgs q') = unat (max_msgs q)" and "msgs q = m # msgs q'"
      by (auto simp: mq_deq_wf mq_wf_def split: list.splits)
  }
qed

section \<open>The byte budget is exact\<close>

definition mq_used :: "mq_bytes_map \<Rightarrow> u32 \<Rightarrow> nat" where
  "mq_used mp uid = (case mp uid of None \<Rightarrow> 0 | Some b \<Rightarrow> unat b)"

lemma message_bytes_Inr:
  "message_bytes attr = Inr c \<Longrightarrow>
   unat c = unat (mq_maxmsg attr) * (unat (mq_msgsize attr) + 96)"
  by (auto simp: message_bytes_def Let_def checked_add_Some_iff checked_mul_Some_iff
      MQ_MSG_OVERHEAD_def distrib_left split: option.splits)

lemma charge_msgbytes_Inr:
  assumes "charge_msgbytes mp uid bytes limit = Inr mp'"
  shows "mq_used mp' uid = mq_used mp uid + unat bytes"
    and "mq_used mp' uid \<le> unat limit"
    and "u \<noteq> uid \<Longrightarrow> mp' u = mp u"
  using assms
  by (auto simp: charge_msgbytes_def mq_used_def Let_def checked_add_Some_iff word_le_nat_alt
      not_less split: option.splits if_splits)

lemma release_msgbytes_used:
  "mq_used (release_msgbytes mp uid bytes) uid = mq_used mp uid - unat bytes"
proof (cases "mp uid")
  case None
  then show ?thesis by (simp add: release_msgbytes_def mq_used_def)
next
  case (Some used)
  have "saturating_sub used bytes = 0 \<longleftrightarrow> unat used - unat bytes = 0"
    unfolding unat_saturating_sub [symmetric] by (simp add: unat_eq_0)
  with Some show ?thesis
    by (simp add: release_msgbytes_def mq_used_def Let_def unat_saturating_sub)
qed

lemma release_msgbytes_other: "u \<noteq> uid \<Longrightarrow> release_msgbytes mp uid bytes u = mp u"
  by (auto simp: release_msgbytes_def Let_def split: option.splits)

section \<open>What a queue promises\<close>

text \<open>
  C3. Over any sequence of \<open>send\<close> and \<open>receive\<close> calls on a new queue no message is lost,
  duplicated or invented, messages of one priority are delivered in the order they were
  accepted, and the queue never holds more than \<^verbatim>\<open>mq_maxmsg\<close> messages.
\<close>

theorem mq_delivery:
  "let (acc, del, q) = run_ops mq_enq mq_deq (mq_new attr) ops in
     mset acc = mset del + mset (msgs q)
     \<and> (\<forall>p. filter (\<lambda>m. msg_prio m = p) acc = filter (\<lambda>m. msg_prio m = p) (del @ msgs q))
     \<and> length (msgs q) \<le> unat (mq_maxmsg attr)"
proof -
  obtain acc del q where run: "run_ops mq_enq mq_deq (mq_new attr) ops = (acc, del, q)"
    by (metis prod_cases3)
  have new: "msgs (mq_new attr) = []" and cap: "max_msgs (mq_new attr) = mq_maxmsg attr"
    by (simp_all add: mq_new_def)
  have "filter (\<lambda>m. msg_prio m = p) acc = filter (\<lambda>m. msg_prio m = p) (del @ msgs q)" for p
    using mq.run_fifo_per_key [OF mq_wf_new run, of "unat p"] by (simp add: new word_unat_eq_iff)
  then show ?thesis
    using mq.run_conserves [OF mq_wf_new run] mq.run_bounded [OF mq_wf_new run]
    by (simp add: run new cap)
qed


end
