(* ===== verification/UserAccess.thy ===== *)
theory UserAccess
  imports Prelude
begin

text \<open>
  Access to user memory from the kernel, \<^verbatim>\<open>kernel/src/syscalls/user_access.rs\<close>. The user
  address space is a partial map from addresses to bytes with a writability flag: a byte
  that is not mapped (or not writable, for a store) faults, and the page-fault fixup makes
  the copy routine return a failure. The copy loop is \<^verbatim>\<open>rep movsb\<close>: it moves one byte at
  a time, so a store that faults leaves the bytes before the fault written. The SMAP
  instructions and the per-CPU nesting counter have no effect on the bytes and are left out.
\<close>

unbundle bit_operations_syntax

record umem =
  ubytes :: "u64 \<Rightarrow> u8 option"
  uwritable :: "u64 \<Rightarrow> bool"

definition user_limit :: u64 where
  "user_limit = 0x0000800000000000"

definition validate_ptr :: "u64 \<Rightarrow> u64 \<Rightarrow> bool" where
  "validate_ptr ptr len =
     (case checked_add ptr len of
        Some e \<Rightarrow> e \<le> user_limit
      | None \<Rightarrow> False)"

fun user_load_bytes :: "umem \<Rightarrow> u64 \<Rightarrow> nat \<Rightarrow> u8 list option" where
  "user_load_bytes m src 0 = Some []"
| "user_load_bytes m src (Suc n) =
     (case ubytes m src of
        None \<Rightarrow> None
      | Some b \<Rightarrow> map_option (\<lambda>bs. b # bs) (user_load_bytes m (src + 1) n))"

fun user_store_bytes :: "umem \<Rightarrow> u64 \<Rightarrow> u8 list \<Rightarrow> bool \<times> umem" where
  "user_store_bytes m dst [] = (True, m)"
| "user_store_bytes m dst (b # bs) =
     (if ubytes m dst = None \<or> \<not> uwritable m dst then (False, m)
      else user_store_bytes (m\<lparr>ubytes := (ubytes m)(dst := Some b)\<rparr>) (dst + 1) bs)"

definition copy_from_user :: "umem \<Rightarrow> u64 \<Rightarrow> nat \<Rightarrow> u8 list option" where
  "copy_from_user m src_ptr len =
     (if \<not> validate_ptr src_ptr (of_nat len) then None else user_load_bytes m src_ptr len)"

definition copy_to_user :: "umem \<Rightarrow> u64 \<Rightarrow> u8 list \<Rightarrow> bool \<times> umem" where
  "copy_to_user m dst_ptr src =
     (if \<not> validate_ptr dst_ptr (of_nat (length src)) then (False, m)
      else user_store_bytes m dst_ptr src)"

subsection \<open>UTF-8 validity, the check of \<open>String::from_utf8\<close>\<close>

definition utf8_cont :: "u8 \<Rightarrow> bool" where
  "utf8_cont b \<longleftrightarrow> 0x80 \<le> b \<and> b \<le> 0xBF"

fun valid_utf8 :: "u8 list \<Rightarrow> bool" where
  "valid_utf8 [] = True"
| "valid_utf8 (a # bs) =
     (if a < 0x80 then valid_utf8 bs
      else case bs of
        [] \<Rightarrow> False
      | b # cs \<Rightarrow>
         (if 0xC2 \<le> a \<and> a \<le> 0xDF then utf8_cont b \<and> valid_utf8 cs
          else case cs of
            [] \<Rightarrow> False
          | c # ds \<Rightarrow>
             (if 0xE0 \<le> a \<and> a \<le> 0xEF then
                utf8_cont b \<and> utf8_cont c \<and> (a = 0xE0 \<longrightarrow> 0xA0 \<le> b) \<and> (a = 0xED \<longrightarrow> b \<le> 0x9F)
                \<and> valid_utf8 ds
              else case ds of
                [] \<Rightarrow> False
              | d # es \<Rightarrow>
                  0xF0 \<le> a \<and> a \<le> 0xF4 \<and> utf8_cont b \<and> utf8_cont c \<and> utf8_cont d
                  \<and> (a = 0xF0 \<longrightarrow> 0x90 \<le> b) \<and> (a = 0xF4 \<longrightarrow> b \<le> 0x8F)
                  \<and> valid_utf8 es)))"

definition read_user_string :: "umem \<Rightarrow> u64 \<Rightarrow> nat \<Rightarrow> u8 list option" where
  "read_user_string m ptr max_len =
     (if ptr = 0 \<or> max_len = 0 then None
      else if \<not> validate_ptr ptr (of_nat max_len) then None
      else case user_load_bytes m ptr max_len of
             None \<Rightarrow> None
           | Some buf \<Rightarrow>
               (case position (\<lambda>b. b = 0) buf of
                  None \<Rightarrow> None
                | Some pos \<Rightarrow>
                    (if valid_utf8 (take pos buf) then Some (take pos buf) else None)))"

section \<open>Loads and stores stay in user space\<close>

lemma validate_ptr_iff:
  "validate_ptr ptr len \<longleftrightarrow> unat ptr + unat len \<le> 2 ^ 47"
proof -
  have lim: "unat user_limit = 2 ^ 47" by (simp add: user_limit_def)
  show ?thesis
  proof (cases "checked_add ptr len")
    case None
    then have "2 ^ 64 \<le> unat ptr + unat len" by (simp add: checked_add_def split: if_splits)
    with None show ?thesis by (simp add: validate_ptr_def)
  next
    case (Some e)
    then have "unat e = unat ptr + unat len" by (simp add: checked_add_Some_iff)
    with Some show ?thesis by (simp add: validate_ptr_def word_le_nat_alt lim)
  qed
qed

lemma length_user_load_bytes: "user_load_bytes m a n = Some bs \<Longrightarrow> length bs = n"
  by (induction n arbitrary: a bs) (auto split: option.splits)

lemma user_load_bytes_map:
  "(\<And>i. i < n \<Longrightarrow> ubytes m (a + of_nat i) = Some (f i)) \<Longrightarrow>
   user_load_bytes m a n = Some (map f [0..<n])"
proof (induction n arbitrary: a f)
  case (Suc n)
  have "user_load_bytes m (a + 1) n = Some (map (f \<circ> Suc) [0..<n])"
    by (rule Suc.IH) (use Suc.prems [of "Suc _"] in \<open>simp add: ac_simps\<close>)
  with Suc.prems [of 0] show ?case
    by (simp add: map_upt_Suc comp_def del: upt_Suc)
qed simp

lemma copy_from_user_length: "copy_from_user m a n = Some bs \<Longrightarrow> length bs = n"
  by (auto simp: copy_from_user_def length_user_load_bytes split: if_splits)

lemma of_nat_add_less:
  "unat dst + n \<le> 2 ^ 47 \<Longrightarrow> i < n \<Longrightarrow> unat (dst + of_nat i) = unat dst + i"
  for dst :: u64
  by (simp add: unat_word_ariths unat_of_nat)

lemma unat_Suc_addr: "unat dst + Suc n \<le> 2 ^ 47 \<Longrightarrow> unat (dst + 1) = Suc (unat dst)"
  for dst :: u64
  by (simp add: unat_word_ariths)

lemma user_store_frame:
  assumes "unat dst + length bs \<le> 2 ^ 47"
    and "unat x < unat dst \<or> unat dst + length bs \<le> unat x"
  shows "ubytes (snd (user_store_bytes m dst bs)) x = ubytes m x"
  using assms
proof (induction bs arbitrary: m dst)
  case Nil
  then show ?case by simp
next
  case (Cons b bs)
  have s: "unat (dst + 1) = Suc (unat dst)"
    using Cons.prems(1) by (intro unat_Suc_addr [of _ "length bs"]) simp
  have "x \<noteq> dst" using Cons.prems(2) by auto
  with Cons s show ?case by auto
qed

lemma uwritable_store [simp]: "uwritable (snd (user_store_bytes m dst bs)) = uwritable m"
  by (induction bs arbitrary: m dst) auto

lemma user_load_after_store:
  assumes "unat dst + length bs \<le> 2 ^ 47"
    and "user_store_bytes m dst bs = (True, m')"
  shows "user_load_bytes m' dst (length bs) = Some bs"
  using assms
proof (induction bs arbitrary: m dst)
  case Nil
  then show ?case by simp
next
  case (Cons b bs)
  let ?m = "m\<lparr>ubytes := (ubytes m)(dst := Some b)\<rparr>"
  have s: "unat (dst + 1) = Suc (unat dst)"
    using Cons.prems(1) by (intro unat_Suc_addr [of _ "length bs"]) simp
  have st: "user_store_bytes ?m (dst + 1) bs = (True, m')"
    using Cons.prems(2) by (auto split: if_splits)
  have "ubytes (snd (user_store_bytes ?m (dst + 1) bs)) dst = ubytes ?m dst"
    using Cons.prems(1) s by (intro user_store_frame) auto
  then have "ubytes m' dst = Some b" using st by simp
  moreover have "user_load_bytes m' (dst + 1) (length bs) = Some bs"
    using Cons.IH [OF _ st] Cons.prems(1) s by simp
  ultimately show ?case by simp
qed

text \<open>
  C14. \<open>copy_to_user\<close> changes no byte outside its destination range and none of the kernel half of
  the address space, also when it faults part way; when it succeeds, \<open>copy_from_user\<close> reads
  back exactly the bytes that were copied.
\<close>

theorem copy_to_user_confined:
  assumes "length src < 2 ^ 64" and "copy_to_user m dst src = (ok, m')"
  shows "(\<forall>a. unat a < unat dst \<or> unat dst + length src \<le> unat a \<or> 2 ^ 47 \<le> unat a
              \<longrightarrow> ubytes m' a = ubytes m a)
         \<and> (ok \<longrightarrow> copy_from_user m' dst (length src) = Some src)"
proof (cases "validate_ptr dst (of_nat (length src))")
  case False
  with assms show ?thesis by (simp add: copy_to_user_def)
next
  case True
  have len: "unat (of_nat (length src) :: u64) = length src"
    using assms(1) by (simp add: unat_of_nat)
  have bound: "unat dst + length src \<le> 2 ^ 47" using True by (simp add: validate_ptr_iff len)
  have store: "user_store_bytes m dst src = (ok, m')" using True assms(2) by (simp add: copy_to_user_def)
  have "ubytes m' a = ubytes m a" if "unat a < unat dst \<or> unat dst + length src \<le> unat a \<or> 2 ^ 47 \<le> unat a" for a
  proof -
    from that bound have "unat a < unat dst \<or> unat dst + length src \<le> unat a" by linarith
    from user_store_frame [OF bound this, of m] store show ?thesis by simp
  qed
  moreover have "copy_from_user m' dst (length src) = Some src" if ok
    using user_load_after_store [OF bound] store that True by (simp add: copy_from_user_def)
  ultimately show ?thesis by blast
qed

theorem copy_to_user_confined_witness:
  "copy_from_user (snd (copy_to_user \<lparr>ubytes = (\<lambda>_. Some 0), uwritable = (\<lambda>_. True)\<rparr> 4096 [7, 9])) 4096 2
     = Some [7, 9]"
proof -
  let ?m = "\<lparr>ubytes = (\<lambda>_. Some 0), uwritable = (\<lambda>_. True)\<rparr>"
  have "copy_to_user ?m 4096 [7, 9] = (True, snd (copy_to_user ?m 4096 [7, 9]))"
    by (simp add: copy_to_user_def validate_ptr_iff)
  then have "copy_from_user (snd (copy_to_user ?m 4096 [7, 9])) 4096 (length [7, 9 :: u8]) = Some [7, 9]"
    using copy_to_user_confined [of "[7, 9]"] by simp
  then show ?thesis by (simp add: numeral_2_eq_2)
qed

end
