(* ===== verification/Mqueue.thy ===== *)
theory Mqueue
  imports MqQueue UserAccess "HOL-Library.AList"
begin

text \<open>
  The message queue system calls, \<^verbatim>\<open>kernel/src/ipc/mqueue/mod.rs\<close>, and the open file
  description \<^verbatim>\<open>MqObject\<close> of \<^verbatim>\<open>object.rs\<close>. Queues and descriptions are shared through
  \<^verbatim>\<open>Arc\<close>, so the state has a heap of each, addressed by numbers; a queue leaves the heap
  (and its byte charge is released, the \<^verbatim>\<open>Drop\<close> of the handle) when the last name or
  description that refers to it goes. The state also holds the names of the caller's IPC
  namespace, the caller's descriptor table, the pending-signal masks of the process table,
  and user memory. A system call returns the \<^verbatim>\<open>u64\<close> the source returns and the new state.

  A blocking call is a recursion over the list of what the sleeping caller observes at each
  tick: whether a signal is pending, what the clocks read, and what the rest of the system
  did to the shared state meanwhile. \<open>None\<close> is a call that is still blocked when the
  observations end. The wake-ups of \<^verbatim>\<open>deliver\<close> and the sleep itself belong to the
  scheduler and change nothing here.
\<close>

unbundle bit_operations_syntax

section \<open>State\<close>

definition O_RDONLY :: i32 where "O_RDONLY = 0"
definition O_WRONLY :: i32 where "O_WRONLY = 1"
definition O_CREAT :: i32 where "O_CREAT = 0x40"
definition O_EXCL :: i32 where "O_EXCL = 0x80"
definition O_NONBLOCK :: i32 where "O_NONBLOCK = 0x800"
definition MQ_PRIO_MAX :: u64 where "MQ_PRIO_MAX = 32768"
definition NAME_MAX :: nat where "NAME_MAX = 255"
definition DFLT_MSGMAX :: i64 where "DFLT_MSGMAX = 10"
definition DFLT_MSGSIZEMAX :: i64 where "DFLT_MSGSIZEMAX = 8192"
definition DFLT_QUEUESMAX :: nat where "DFLT_QUEUESMAX = 256"
definition HARD_MSGMAX :: i64 where "HARD_MSGMAX = 65536"
definition HARD_MSGSIZEMAX :: i64 where "HARD_MSGSIZEMAX = 16 * 1024 * 1024"
definition NSIG :: i32 where "NSIG = 64"
definition FD_CLOEXEC :: u64 where "FD_CLOEXEC = 0x80000"
definition SIGEV_NONE :: i32 where "SIGEV_NONE = 1"
definition SIGEV_THREAD :: i32 where "SIGEV_THREAD = 2"
definition CAP_DAC_OVERRIDE :: u64 where "CAP_DAC_OVERRIDE = push_bit 1 1"
definition CAP_DAC_READ_SEARCH :: u64 where "CAP_DAC_READ_SEARCH = push_bit 2 1"
definition CAP_SYS_RESOURCE :: u64 where "CAP_SYS_RESOURCE = push_bit 24 1"

lemmas mq_open_consts = O_RDONLY_def O_WRONLY_def O_CREAT_def O_EXCL_def CAP_SYS_RESOURCE_def
  DFLT_MSGMAX_def DFLT_MSGSIZEMAX_def DFLT_QUEUESMAX_def HARD_MSGMAX_def HARD_MSGSIZEMAX_def

record mq_object =
  obj_queue :: nat
  obj_flags :: i32
  obj_pos :: u64
  obj_read :: bool
  obj_write :: bool
  obj_mode :: u32
  obj_uid :: u32
  obj_gid :: u32

record mq_entry =
  ent_queue :: nat
  ent_mode :: u32
  ent_uid :: u32
  ent_gid :: u32

datatype fd_entry = FdMqueue nat | FdOther

record mq_sys =
  mq_bytes :: mq_bytes_map
  mq_queues :: "(nat \<times> mq_handle) list"
  mq_objects :: "(nat \<times> mq_object) list"
  next_arc :: nat
  mqueues :: "(u8 list \<times> mq_entry) list"
  fd_table :: "fd_entry option list"
  fd_flags :: "u64 list"
  sig_pending :: "u64 \<Rightarrow> u64 option"
  user :: umem

text \<open>The calling process: its id, credentials, umask and \<^verbatim>\<open>RLIMIT_MSGQUEUE\<close>.\<close>

record mq_proc =
  p_id :: u64
  p_euid :: u32
  p_egid :: u32
  p_cap_effective :: u64
  p_umask :: u32
  p_rlim_msgqueue :: i64

record mq_caller =
  c_euid :: u32
  c_egid :: u32
  c_privileged :: bool
  c_umask :: u32
  c_msgqueue_limit :: u64

definition caller_capture :: "mq_proc \<Rightarrow> mq_caller" where
  "caller_capture p =
     \<lparr>c_euid = p_euid p, c_egid = p_egid p,
      c_privileged = (p_euid p = 0 \<or> (p_cap_effective p AND CAP_SYS_RESOURCE) \<noteq> 0),
      c_umask = p_umask p,
      c_msgqueue_limit =
        (if 0 \<le> sint (p_rlim_msgqueue p) then p_rlim_msgqueue p else - 1)\<rparr>"

definition has_capability :: "mq_proc \<Rightarrow> u64 \<Rightarrow> bool" where
  "has_capability p cap_bit \<longleftrightarrow> p_euid p = 0 \<or> (p_cap_effective p AND cap_bit) \<noteq> 0"

definition check_file_permission :: "mq_proc \<Rightarrow> u32 \<Rightarrow> u32 \<Rightarrow> u32 \<Rightarrow> u32 \<Rightarrow> bool" where
  "check_file_permission p st_mode st_uid st_gid need =
     (if has_capability p CAP_DAC_OVERRIDE then True
      else if has_capability p CAP_DAC_READ_SEARCH \<and> (need AND 2) = 0 then True
      else
        let bits =
          (if p_euid p = st_uid then drop_bit 6 st_mode AND 7
           else if p_egid p = st_gid then drop_bit 3 st_mode AND 7
           else st_mode AND 7)
        in (bits AND need) = need)"

section \<open>Open file descriptions\<close>

definition object_new :: "nat \<Rightarrow> i32 \<Rightarrow> u32 \<Rightarrow> u32 \<Rightarrow> u32 \<Rightarrow> mq_object" where
  "object_new queue oflag mode uid gid =
     (let (rd, wr) =
        (if oflag AND 3 = 0 then (True, False)
         else if oflag AND 3 = 1 then (False, True)
         else (True, True))
      in \<lparr>obj_queue = queue, obj_flags = oflag AND O_NONBLOCK, obj_pos = 0,
          obj_read = rd, obj_write = wr, obj_mode = mode, obj_uid = uid, obj_gid = gid\<rparr>)"

definition read_line :: "mq_queue \<Rightarrow> mq_object \<Rightarrow> usize \<Rightarrow> u8 list \<times> mq_object" where
  "read_line q obj cnt =
     (let line = map of_char (describe_line q);
          pos = unat (obj_pos obj)
      in if pos \<ge> length line then ([], obj)
         else
           let fin = min (length line) (unat (saturating_add (obj_pos obj) cnt))
           in (take (fin - pos) (drop pos line), obj\<lparr>obj_pos := of_nat fin\<rparr>))"

section \<open>Arguments from user memory\<close>

definition read_name :: "umem \<Rightarrow> u64 \<Rightarrow> u8 list result" where
  "read_name m ptr =
     (case read_user_string m ptr (NAME_MAX + 1) of
        None \<Rightarrow> Inl EFAULT
      | Some name \<Rightarrow>
          (if name = [] \<or> name = [46] \<or> name = [46, 46] \<or> 47 \<in> set name then Inl EACCES
           else if length name > NAME_MAX then Inl ENAMETOOLONG
           else Inr name))"

text \<open>Fields of the C structures: the \<open>i\<close>-th 64-bit word, and the 32-bit word at an offset.\<close>

definition word64_at :: "u8 list \<Rightarrow> nat \<Rightarrow> u64" where
  "word64_at bs i = from_ne_bytes (take 8 (drop (8 * i) bs))"

definition word32_at :: "u8 list \<Rightarrow> nat \<Rightarrow> u32" where
  "word32_at bs off = from_ne_bytes (take 4 (drop off bs))"

definition attr_of_bytes :: "u8 list \<Rightarrow> mq_attr" where
  "attr_of_bytes bs =
     \<lparr>mq_flags = word64_at bs 0, mq_maxmsg = word64_at bs 1, mq_msgsize = word64_at bs 2,
      mq_curmsgs = word64_at bs 3, mq_reserved = map (word64_at bs) [4, 5, 6, 7]\<rparr>"

definition attr_to_bytes :: "mq_attr \<Rightarrow> u8 list" where
  "attr_to_bytes a =
     concat (map (to_ne_bytes 8)
       ([mq_flags a, mq_maxmsg a, mq_msgsize a, mq_curmsgs a] @ mq_reserved a))"

definition copy_mq_attr_from_user :: "umem \<Rightarrow> u64 \<Rightarrow> mq_attr option result" where
  "copy_mq_attr_from_user m attr_ptr =
     (if attr_ptr = 0 then Inr None
      else case copy_from_user m attr_ptr 64 of
             None \<Rightarrow> Inl EFAULT
           | Some bs \<Rightarrow> Inr (Some (attr_of_bytes bs)))"

definition copy_mq_attr_to_user :: "umem \<Rightarrow> u64 \<Rightarrow> mq_attr \<Rightarrow> errno option \<times> umem" where
  "copy_mq_attr_to_user m attr_ptr attr =
     (if attr_ptr = 0 then (Some EFAULT, m)
      else let (ok, m') = copy_to_user m attr_ptr (attr_to_bytes attr)
           in (if ok then None else Some EFAULT, m'))"

definition read_deadline :: "umem \<Rightarrow> u64 \<Rightarrow> u64 option result" where
  "read_deadline m ptr =
     (if ptr = 0 then Inr None
      else case copy_from_user m ptr 16 of
             None \<Rightarrow> Inl EFAULT
           | Some bs \<Rightarrow>
               (let tv_sec = word64_at bs 0; tv_nsec = word64_at bs 1 in
                if sint tv_sec < 0 \<or> \<not> (0 \<le> sint tv_nsec \<and> sint tv_nsec < 1000000000)
                then Inl EINVAL
                else Inr (Some (saturating_add (saturating_mul tv_sec 1000000000) tv_nsec))))"

record mq_sigevent =
  ev_signo :: i32
  ev_notify :: i32

definition read_sigevent :: "umem \<Rightarrow> u64 \<Rightarrow> mq_sigevent result" where
  "read_sigevent m ptr =
     (case copy_from_user m ptr 64 of
        None \<Rightarrow> Inl EFAULT
      | Some bs \<Rightarrow> Inr \<lparr>ev_signo = word32_at bs 8, ev_notify = word32_at bs 12\<rparr>)"

section \<open>Descriptors and notification\<close>

definition resize :: "nat \<Rightarrow> 'a \<Rightarrow> 'a list \<Rightarrow> 'a list" where
  "resize n x xs = take n xs @ replicate (n - length xs) x"

definition install_fd :: "mq_sys \<Rightarrow> nat \<Rightarrow> i32 \<times> mq_sys" where
  "install_fd st obj =
     (let desc = Some (FdMqueue obj);
          (idx, table) =
            (case position (\<lambda>e. e = None) (fd_table st) of
               Some i \<Rightarrow> (i, (fd_table st)[i := desc])
             | None \<Rightarrow> (length (fd_table st), fd_table st @ [desc]));
          flags =
            (if length (fd_flags st) \<le> idx then resize (idx + 1) 0 (fd_flags st)
             else fd_flags st);
          flags' = flags[idx := flags ! idx OR FD_CLOEXEC]
      in (of_nat idx, st\<lparr>fd_table := table, fd_flags := flags'\<rparr>))"

definition lookup ::
  "mq_proc option \<Rightarrow> mq_sys \<Rightarrow> i32 \<Rightarrow> bool \<Rightarrow> bool \<Rightarrow> (nat \<times> mq_object) result" where
  "lookup cur st mqd need_read need_write =
     (if sint mqd < 0 then Inl EBADF
      else case cur of
        None \<Rightarrow> Inl ESRCH
      | Some _ \<Rightarrow>
          (let fd = unat mqd in
           case (if fd < length (fd_table st) then fd_table st ! fd else None) of
             Some (FdMqueue r) \<Rightarrow>
               (case map_of (mq_objects st) r of
                  Some obj \<Rightarrow>
                    (if (need_read \<and> \<not> obj_read obj) \<or> (need_write \<and> \<not> obj_write obj)
                     then Inl EBADF else Inr (r, obj))
                | None \<Rightarrow> Inl EBADF)
           | _ \<Rightarrow> Inl EBADF))"

definition current_pid :: "mq_proc option \<Rightarrow> u64" where
  "current_pid cur = (case cur of None \<Rightarrow> 0 | Some p \<Rightarrow> p_id p)"

definition deliver :: "mq_sys \<Rightarrow> mq_notify_req \<Rightarrow> mq_sys" where
  "deliver st n =
     (if nkind n \<noteq> SIGEV_SIGNAL \<or> signo n = 0 then st
      else
        let b = signo n - 1 in
        if b \<ge> 64 then st
        else case sig_pending st (owner_pid n) of
               None \<Rightarrow> st
             | Some pend \<Rightarrow>
                 st\<lparr>sig_pending :=
                   (sig_pending st)(owner_pid n \<mapsto> pend OR push_bit (unat b) 1)\<rparr>)"

record wait_obs =
  w_signal :: bool
  w_rtc :: "i64 \<times> i64"
  w_ticks :: u64
  w_world :: "mq_sys \<Rightarrow> mq_sys"

definition realtime_now_ns :: "i64 \<times> i64 \<Rightarrow> u64 \<Rightarrow> u64" where
  "realtime_now_ns rtc ticks =
     (let (sec, nsec) = rtc in
      if sec = 0 \<and> nsec = 0 then saturating_mul ticks 10000000
      else saturating_add
             (saturating_mul (if sint sec < 0 then 0 else sec) 1000000000)
             (if sint nsec < 0 then 0 else nsec))"

definition wait_step :: "mq_object \<Rightarrow> u64 option \<Rightarrow> wait_obs \<Rightarrow> u64 option" where
  "wait_step mq deadline w =
     (if (obj_flags mq AND O_NONBLOCK) \<noteq> 0 then Some (errno_u64 EAGAIN)
      else if w_signal w then Some (errno_u64 EINTR)
      else if (case deadline of
                 Some d \<Rightarrow> realtime_now_ns (w_rtc w) (w_ticks w) \<ge> d
               | None \<Rightarrow> False)
      then Some (errno_u64 ETIMEDOUT)
      else None)"

definition open_entry :: "mq_sys \<Rightarrow> mq_entry \<Rightarrow> i32 \<Rightarrow> u64 \<times> mq_sys" where
  "open_entry st ent oflag =
     (let obj = object_new (ent_queue ent) oflag (ent_mode ent) (ent_uid ent) (ent_gid ent);
          st' = st\<lparr>mq_objects := (next_arc st, obj) # mq_objects st, next_arc := Suc (next_arc st)\<rparr>;
          (fd, st'') = install_fd st' (next_arc st)
      in (scast fd, st''))"

section \<open>System calls\<close>

definition mq_open ::
  "mq_proc option \<Rightarrow> mq_sys \<Rightarrow> u64 \<Rightarrow> i32 \<Rightarrow> i32 \<Rightarrow> u64 \<Rightarrow> u64 \<times> mq_sys" where
  "mq_open cur st name_ptr oflag mode attr_ptr =
     (case copy_mq_attr_from_user (user st) attr_ptr of
        Inl e \<Rightarrow> (errno_u64 e, st)
      | Inr attr \<Rightarrow>
     (case read_name (user st) name_ptr of
        Inl e \<Rightarrow> (errno_u64 e, st)
      | Inr name \<Rightarrow>
     (if (oflag AND 3) = 3 then (errno_u64 EINVAL, st)
      else case cur of
        None \<Rightarrow> (errno_u64 ESRCH, st)
      | Some process \<Rightarrow>
     (let caller = caller_capture process;
          need = (if oflag AND 3 = O_RDONLY then 4 else if oflag AND 3 = O_WRONLY then 2 else 6)
      in case map_of (mqueues st) name of
           Some ent \<Rightarrow>
             (if (oflag AND O_CREAT) \<noteq> 0 \<and> (oflag AND O_EXCL) \<noteq> 0 then (errno_u64 EEXIST, st)
              else if \<not> check_file_permission process (ent_mode ent) (ent_uid ent) (ent_gid ent) need
              then (errno_u64 EACCES, st)
              else open_entry st ent oflag)
         | None \<Rightarrow>
             (if (oflag AND O_CREAT) = 0 then (errno_u64 ENOENT, st)
              else
                let attr = (case attr of Some a \<Rightarrow> a | None \<Rightarrow> default_attrs);
                    (mx, sz) = (if c_privileged caller then (HARD_MSGMAX, HARD_MSGSIZEMAX)
                                else (DFLT_MSGMAX, DFLT_MSGSIZEMAX))
                in if sint (mq_maxmsg attr) \<le> 0 \<or> sint (mq_maxmsg attr) > sint mx
                      \<or> sint (mq_msgsize attr) \<le> 0 \<or> sint (mq_msgsize attr) > sint sz
                   then (errno_u64 EINVAL, st)
                   else case message_bytes attr of
                     Inl e \<Rightarrow> (errno_u64 e, st)
                   | Inr c \<Rightarrow>
                       (if length (mqueues st) \<ge> DFLT_QUEUESMAX \<and> \<not> c_privileged caller
                        then (errno_u64 ENOSPC, st)
                        else case charge_msgbytes (mq_bytes st) (c_euid caller) c
                                    (c_msgqueue_limit caller) of
                          Inl e \<Rightarrow> (errno_u64 e, st)
                        | Inr mp \<Rightarrow>
                            (let ent = \<lparr>ent_queue = next_arc st,
                                        ent_mode = ucast mode AND NOT (c_umask caller) AND 0x1FF,
                                        ent_uid = c_euid caller, ent_gid = c_egid caller\<rparr>;
                                 st' = st\<lparr>mq_bytes := mp,
                                          mq_queues := (next_arc st, handle_new attr (c_euid caller) c)
                                                         # mq_queues st,
                                          next_arc := Suc (next_arc st),
                                          mqueues := AList.update name ent (mqueues st)\<rparr>
                             in open_entry st' ent oflag)))))))"

definition set_queue :: "mq_sys \<Rightarrow> nat \<Rightarrow> mq_queue \<Rightarrow> mq_sys" where
  "set_queue st r q =
     st\<lparr>mq_queues := AList.map_entry r (\<lambda>h. h\<lparr>inner := q\<rparr>) (mq_queues st)\<rparr>"

text \<open>One iteration of the loop of \<^verbatim>\<open>send_common\<close>: \<open>Inr\<close> returns, \<open>Inl\<close> blocks on the
  description, whose flags decide what happens next.\<close>

definition send_attempt ::
  "mq_sys \<Rightarrow> nat \<Rightarrow> u8 list \<Rightarrow> u32 \<Rightarrow> (mq_object + (u64 \<times> mq_sys)) option" where
  "send_attempt st r buf p =
     (case map_of (mq_objects st) r of
        None \<Rightarrow> None
      | Some obj \<Rightarrow>
          (case map_of (mq_queues st) (obj_queue obj) of
             None \<Rightarrow> None
           | Some h \<Rightarrow>
               (case mq_send (inner h) buf p of
                  Inr (n, q) \<Rightarrow>
                    (let st' = set_queue st (obj_queue obj) q
                     in Some (Inr (0, case n of Some req \<Rightarrow> deliver st' req | None \<Rightarrow> st')))
                | Inl e \<Rightarrow>
                    (if e = EAGAIN then Some (Inl obj) else Some (Inr (errno_u64 e, st))))))"

fun send_loop ::
  "wait_obs list \<Rightarrow> mq_sys \<Rightarrow> nat \<Rightarrow> u8 list \<Rightarrow> u32 \<Rightarrow> u64 option \<Rightarrow> (u64 \<times> mq_sys) option" where
  "send_loop [] st r buf p deadline =
     (case send_attempt st r buf p of Some (Inr res) \<Rightarrow> Some res | _ \<Rightarrow> None)"
| "send_loop (w # ws) st r buf p deadline =
     (case send_attempt st r buf p of
        None \<Rightarrow> None
      | Some (Inr res) \<Rightarrow> Some res
      | Some (Inl obj) \<Rightarrow>
          (case wait_step obj deadline w of
             Some e \<Rightarrow> Some (e, st)
           | None \<Rightarrow> send_loop ws (w_world w st) r buf p deadline))"

definition send_common ::
  "mq_proc option \<Rightarrow> wait_obs list \<Rightarrow> mq_sys \<Rightarrow> i32 \<Rightarrow> u64 \<Rightarrow> usize \<Rightarrow> u64 \<Rightarrow> u64 option
     \<Rightarrow> (u64 \<times> mq_sys) option" where
  "send_common cur ws st mqd msg_ptr msg_len p deadline =
     (if p \<ge> MQ_PRIO_MAX then Some (errno_u64 EINVAL, st)
      else case lookup cur st mqd False True of
        Inl e \<Rightarrow> Some (errno_u64 e, st)
      | Inr (r, obj) \<Rightarrow>
          (case map_of (mq_queues st) (obj_queue obj) of
             None \<Rightarrow> None
           | Some h \<Rightarrow>
               (if msg_len > max_msg_size (inner h) then Some (errno_u64 EMSGSIZE, st)
                else case copy_from_user (user st) msg_ptr (unat msg_len) of
                  None \<Rightarrow> Some (errno_u64 EFAULT, st)
                | Some buf \<Rightarrow> send_loop ws st r buf (ucast p) deadline)))"

definition receive_attempt ::
  "mq_sys \<Rightarrow> nat \<Rightarrow> nat \<Rightarrow> (mq_object + (u64 + (nat \<times> u32 \<times> u8 list)) \<times> mq_sys) option" where
  "receive_attempt st r queue_size =
     (case map_of (mq_objects st) r of
        None \<Rightarrow> None
      | Some obj \<Rightarrow>
          (case map_of (mq_queues st) (obj_queue obj) of
             None \<Rightarrow> None
           | Some h \<Rightarrow>
               (case mq_receive (inner h) (replicate queue_size 0) of
                  Inr ((n, p), buf, q) \<Rightarrow>
                    Some (Inr (Inr (n, p, buf), set_queue st (obj_queue obj) q))
                | Inl e \<Rightarrow>
                    (if e = EAGAIN then Some (Inl obj)
                     else Some (Inr (Inl (errno_u64 e), st))))))"

fun receive_loop ::
  "wait_obs list \<Rightarrow> mq_sys \<Rightarrow> nat \<Rightarrow> nat \<Rightarrow> u64 option
     \<Rightarrow> ((u64 + (nat \<times> u32 \<times> u8 list)) \<times> mq_sys) option" where
  "receive_loop [] st r queue_size deadline =
     (case receive_attempt st r queue_size of Some (Inr res) \<Rightarrow> Some res | _ \<Rightarrow> None)"
| "receive_loop (w # ws) st r queue_size deadline =
     (case receive_attempt st r queue_size of
        None \<Rightarrow> None
      | Some (Inr res) \<Rightarrow> Some res
      | Some (Inl obj) \<Rightarrow>
          (case wait_step obj deadline w of
             Some e \<Rightarrow> Some (Inl e, st)
           | None \<Rightarrow> receive_loop ws (w_world w st) r queue_size deadline))"

definition receive_common ::
  "mq_proc option \<Rightarrow> wait_obs list \<Rightarrow> mq_sys \<Rightarrow> i32 \<Rightarrow> u64 \<Rightarrow> usize \<Rightarrow> u64 \<Rightarrow> u64 option
     \<Rightarrow> (u64 \<times> mq_sys) option" where
  "receive_common cur ws st mqd msg_ptr msg_len prio_ptr deadline =
     (case lookup cur st mqd True False of
        Inl e \<Rightarrow> Some (errno_u64 e, st)
      | Inr (r, obj) \<Rightarrow>
          (case map_of (mq_queues st) (obj_queue obj) of
             None \<Rightarrow> None
           | Some h \<Rightarrow>
               (let queue_size = max_msg_size (inner h) in
                if msg_len < queue_size then Some (errno_u64 EMSGSIZE, st)
                else case receive_loop ws st r (unat queue_size) deadline of
                  None \<Rightarrow> None
                | Some (Inl e, st') \<Rightarrow> Some (e, st')
                | Some (Inr (received_len, p, buf), st') \<Rightarrow>
                    (let (ok1, m1) =
                       (if prio_ptr = 0 then (True, user st')
                        else copy_to_user (user st') prio_ptr (to_ne_bytes 4 p))
                     in if \<not> ok1 then Some (errno_u64 EFAULT, st'\<lparr>user := m1\<rparr>)
                        else
                          let (ok2, m2) = copy_to_user m1 msg_ptr (take received_len buf)
                          in if \<not> ok2 then Some (errno_u64 EFAULT, st'\<lparr>user := m2\<rparr>)
                             else Some (of_nat received_len, st'\<lparr>user := m2\<rparr>)))))"

definition sys_mq_send where
  "sys_mq_send cur ws st mqd msg_ptr msg_len p = send_common cur ws st mqd msg_ptr msg_len p None"

definition sys_mq_receive where
  "sys_mq_receive cur ws st mqd msg_ptr msg_len prio_ptr =
     receive_common cur ws st mqd msg_ptr msg_len prio_ptr None"

definition mq_timedsend ::
  "mq_proc option \<Rightarrow> wait_obs list \<Rightarrow> mq_sys \<Rightarrow> i32 \<Rightarrow> u64 \<Rightarrow> usize \<Rightarrow> u64 \<Rightarrow> u64
     \<Rightarrow> (u64 \<times> mq_sys) option" where
  "mq_timedsend cur ws st mqd msg_ptr msg_len p timeout_ptr =
     (case read_deadline (user st) timeout_ptr of
        Inl e \<Rightarrow> Some (errno_u64 e, st)
      | Inr deadline \<Rightarrow> send_common cur ws st mqd msg_ptr msg_len p deadline)"

definition mq_timedreceive ::
  "mq_proc option \<Rightarrow> wait_obs list \<Rightarrow> mq_sys \<Rightarrow> i32 \<Rightarrow> u64 \<Rightarrow> usize \<Rightarrow> u64 \<Rightarrow> u64
     \<Rightarrow> (u64 \<times> mq_sys) option" where
  "mq_timedreceive cur ws st mqd msg_ptr msg_len prio_ptr timeout_ptr =
     (case read_deadline (user st) timeout_ptr of
        Inl e \<Rightarrow> Some (errno_u64 e, st)
      | Inr deadline \<Rightarrow> receive_common cur ws st mqd msg_ptr msg_len prio_ptr deadline)"

definition mq_notify :: "mq_proc option \<Rightarrow> mq_sys \<Rightarrow> i32 \<Rightarrow> u64 \<Rightarrow> (u64 \<times> mq_sys) option" where
  "mq_notify cur st mqd notification =
     (case (if notification = 0 then Inr None
            else case read_sigevent (user st) notification of
                   Inl e \<Rightarrow> Inl e
                 | Inr ev \<Rightarrow> Inr (Some ev)) of
        Inl e \<Rightarrow> Some (errno_u64 e, st)
      | Inr event \<Rightarrow>
          (case (case event of
                   None \<Rightarrow> None
                 | Some ev \<Rightarrow>
                     (if ev_notify ev \<noteq> SIGEV_NONE \<and> ev_notify ev \<noteq> SIGEV_SIGNAL
                         \<and> ev_notify ev \<noteq> SIGEV_THREAD then Some EINVAL
                      else if ev_notify ev = SIGEV_SIGNAL
                              \<and> \<not> (1 \<le> sint (ev_signo ev) \<and> sint (ev_signo ev) \<le> sint NSIG)
                      then Some EINVAL
                      else if ev_notify ev = SIGEV_THREAD then Some ENOSYS
                      else None)) of
             Some e \<Rightarrow> Some (errno_u64 e, st)
           | None \<Rightarrow>
               (case lookup cur st mqd False False of
                  Inl e \<Rightarrow> Some (errno_u64 e, st)
                | Inr (r, obj) \<Rightarrow>
                    (case map_of (mq_queues st) (obj_queue obj) of
                       None \<Rightarrow> None
                     | Some h \<Rightarrow>
                         (case event of
                            None \<Rightarrow>
                              Some (0, set_queue st (obj_queue obj)
                                         (clear_notify (inner h) (current_pid cur)))
                          | Some ev \<Rightarrow>
                              (let n = \<lparr>owner_pid = current_pid cur,
                                        signo = (if ev_notify ev = SIGEV_SIGNAL then ev_signo ev else 0),
                                        nkind = ev_notify ev\<rparr>
                               in case register_notify (inner h) n of
                                    Inr q \<Rightarrow> Some (0, set_queue st (obj_queue obj) q)
                                  | Inl e \<Rightarrow> Some (errno_u64 e, st)))))))"

text \<open>Dropping a reference to a queue: the last one frees the handle.\<close>

definition queue_referenced :: "mq_sys \<Rightarrow> nat \<Rightarrow> bool" where
  "queue_referenced st r \<longleftrightarrow>
     (\<exists>e\<in>set (mqueues st). ent_queue (snd e) = r) \<or> (\<exists>e\<in>set (mq_objects st). obj_queue (snd e) = r)"

definition drop_queue_ref :: "mq_sys \<Rightarrow> nat \<Rightarrow> mq_sys" where
  "drop_queue_ref st r =
     (if queue_referenced st r then st
      else case map_of (mq_queues st) r of
             None \<Rightarrow> st
           | Some h \<Rightarrow> st\<lparr>mq_queues := AList.delete r (mq_queues st),
                          mq_bytes := handle_drop (mq_bytes st) h\<rparr>)"

text \<open>Dropping the last descriptor of a description drops the description and its reference.\<close>

definition drop_object_ref :: "mq_sys \<Rightarrow> nat \<Rightarrow> mq_sys" where
  "drop_object_ref st r =
     (case map_of (mq_objects st) r of
        None \<Rightarrow> st
      | Some obj \<Rightarrow> drop_queue_ref (st\<lparr>mq_objects := AList.delete r (mq_objects st)\<rparr>) (obj_queue obj))"

definition mq_unlink :: "mq_proc option \<Rightarrow> mq_sys \<Rightarrow> u64 \<Rightarrow> u64 \<times> mq_sys" where
  "mq_unlink cur st name_ptr =
     (case read_name (user st) name_ptr of
        Inl e \<Rightarrow> (errno_u64 e, st)
      | Inr name \<Rightarrow>
          (case cur of
             None \<Rightarrow> (errno_u64 ESRCH, st)
           | Some _ \<Rightarrow>
               (case map_of (mqueues st) name of
                  Some ent \<Rightarrow>
                    (0, drop_queue_ref (st\<lparr>mqueues := AList.delete name (mqueues st)\<rparr>) (ent_queue ent))
                | None \<Rightarrow> (errno_u64 ENOENT, st))))"

definition mq_getsetattr :: "mq_proc option \<Rightarrow> mq_sys \<Rightarrow> i32 \<Rightarrow> u64 \<Rightarrow> u64 \<Rightarrow> (u64 \<times> mq_sys) option" where
  "mq_getsetattr cur st mqd new_attr_ptr old_attr_ptr =
     (case copy_mq_attr_from_user (user st) new_attr_ptr of
        Inl e \<Rightarrow> Some (errno_u64 e, st)
      | Inr new_attr \<Rightarrow>
          (if (case new_attr of
                 Some a \<Rightarrow> (mq_flags a AND NOT (scast O_NONBLOCK)) \<noteq> 0
               | None \<Rightarrow> False)
           then Some (errno_u64 EINVAL, st)
           else case lookup cur st mqd False False of
             Inl e \<Rightarrow> Some (errno_u64 e, st)
           | Inr (r, obj) \<Rightarrow>
               (case map_of (mq_queues st) (obj_queue obj) of
                  None \<Rightarrow> None
                | Some h \<Rightarrow>
                    (let old_attr = (if old_attr_ptr = 0 then None
                                     else Some (queue_get_attr (inner h) (obj_flags obj)));
                         st' = (case new_attr of
                                  Some a \<Rightarrow>
                                    st\<lparr>mq_objects := AList.map_entry r
                                         (\<lambda>obj. obj\<lparr>obj_flags := ucast (mq_flags a) AND O_NONBLOCK\<rparr>)
                                         (mq_objects st)\<rparr>
                                | None \<Rightarrow> st)
                     in case old_attr of
                          None \<Rightarrow> Some (0, st')
                        | Some a \<Rightarrow>
                            (let (err, m) = copy_mq_attr_to_user (user st') old_attr_ptr a
                             in case err of
                                  Some e \<Rightarrow> Some (errno_u64 e, st'\<lparr>user := m\<rparr>)
                                | None \<Rightarrow> Some (0, st'\<lparr>user := m\<rparr>))))))"

section \<open>The accounting invariant\<close>

text \<open>The bytes a user is charged for: the sum over the live queues the user created.\<close>

definition charged :: "(nat \<times> mq_handle) list \<Rightarrow> u32 \<Rightarrow> nat" where
  "charged qs uid = sum_list (map (\<lambda>(r, h). if owner_uid h = uid then unat (charge h) else 0) qs)"

text \<open>\<open>mq_sys_inv R\<close> exempts the queues in \<open>R\<close> from being referenced, which is what holds between
  the removal of a name or description and the drop that follows it.\<close>

definition mq_sys_inv :: "nat set \<Rightarrow> mq_sys \<Rightarrow> bool" where
  "mq_sys_inv R st \<longleftrightarrow>
     distinct (map fst (mq_queues st)) \<and> distinct (map fst (mq_objects st))
     \<and> distinct (map fst (mqueues st))
     \<and> (\<forall>r h. (r, h) \<in> set (mq_queues st) \<longrightarrow>
            r < next_arc st \<and> (r \<in> R \<or> queue_referenced st r) \<and> mq_wf (inner h))
     \<and> (\<forall>r obj. (r, obj) \<in> set (mq_objects st) \<longrightarrow>
            r < next_arc st \<and> obj_queue obj \<in> fst ` set (mq_queues st))
     \<and> (\<forall>n ent. (n, ent) \<in> set (mqueues st) \<longrightarrow> ent_queue ent \<in> fst ` set (mq_queues st))
     \<and> (\<forall>uid. mq_used (mq_bytes st) uid = charged (mq_queues st) uid)"

abbreviation mq_sys_wf :: "mq_sys \<Rightarrow> bool" where
  "mq_sys_wf \<equiv> mq_sys_inv {}"

lemma charged_Nil [simp]: "charged [] uid = 0"
  by (simp add: charged_def)

lemma charged_Cons [simp]:
  "charged ((r, h) # qs) uid = (if owner_uid h = uid then unat (charge h) else 0) + charged qs uid"
  by (simp add: charged_def)

lemma delete_absent: "r \<notin> fst ` set qs \<Longrightarrow> AList.delete r qs = qs"
  by (induction qs) (auto simp: AList.delete_eq)

lemma charged_delete:
  "distinct (map fst qs) \<Longrightarrow> map_of qs r = Some h \<Longrightarrow>
   charged qs uid = (if owner_uid h = uid then unat (charge h) else 0) + charged (AList.delete r qs) uid"
  by (induction qs) (auto simp: delete_absent split: if_splits)

lemma charged_map_entry:
  "charged (AList.map_entry r (\<lambda>h. h\<lparr>inner := q\<rparr>) qs) uid = charged qs uid"
  by (induction qs) auto

lemma fst_map_entry [simp]: "fst ` set (AList.map_entry r f qs) = fst ` set qs"
  using AList.dom_map_entry [of r f qs] by (simp add: image_image dom_map_of_conv_image_fst)

lemma snd_map_entry: "snd ` set (AList.map_entry r f qs) \<subseteq> f ` snd ` set qs \<union> snd ` set qs"
  by (induction qs) auto

lemma mq_used_handle_drop:
  "mq_used (handle_drop mp h) uid =
     mq_used mp uid - (if owner_uid h = uid then unat (charge h) else 0)"
proof (cases "owner_uid h = uid")
  case True
  then show ?thesis
    by (auto simp: handle_drop_def release_msgbytes_used word_neq_0_conv [symmetric])
next
  case False
  then show ?thesis by (simp add: handle_drop_def mq_used_def release_msgbytes_other)
qed

lemma queue_referenced_mono:
  "queue_referenced st r \<Longrightarrow> set (mqueues st) \<subseteq> set (mqueues st') \<Longrightarrow>
   set (mq_objects st) \<subseteq> set (mq_objects st') \<Longrightarrow> queue_referenced st' r"
  by (auto simp: queue_referenced_def)

lemma mq_sys_invD:
  assumes "mq_sys_inv R st"
  shows "distinct (map fst (mq_queues st))" and "distinct (map fst (mq_objects st))"
    and "distinct (map fst (mqueues st))"
    and "(r, h) \<in> set (mq_queues st) \<Longrightarrow> r < next_arc st"
    and "(r, h) \<in> set (mq_queues st) \<Longrightarrow> r \<notin> R \<Longrightarrow> queue_referenced st r"
    and "(r, obj) \<in> set (mq_objects st) \<Longrightarrow> r < next_arc st"
    and "(r, h) \<in> set (mq_queues st) \<Longrightarrow> mq_wf (inner h)"
    and "(n, ent) \<in> set (mqueues st) \<Longrightarrow> ent_queue ent \<in> fst ` set (mq_queues st)"
    and "(r, obj) \<in> set (mq_objects st) \<Longrightarrow> obj_queue obj \<in> fst ` set (mq_queues st)"
    and "mq_used (mq_bytes st) uid = charged (mq_queues st) uid"
  using assms unfolding mq_sys_inv_def by blast+

lemma mq_sys_invI:
  assumes "distinct (map fst (mq_queues st))" and "distinct (map fst (mq_objects st))"
    and "distinct (map fst (mqueues st))"
    and "\<And>r h. (r, h) \<in> set (mq_queues st) \<Longrightarrow> r < next_arc st"
    and "\<And>r h. (r, h) \<in> set (mq_queues st) \<Longrightarrow> r \<notin> R \<Longrightarrow> queue_referenced st r"
    and "\<And>r obj. (r, obj) \<in> set (mq_objects st) \<Longrightarrow> r < next_arc st"
    and "\<And>r h. (r, h) \<in> set (mq_queues st) \<Longrightarrow> mq_wf (inner h)"
    and "\<And>n ent. (n, ent) \<in> set (mqueues st) \<Longrightarrow> ent_queue ent \<in> fst ` set (mq_queues st)"
    and "\<And>r obj. (r, obj) \<in> set (mq_objects st) \<Longrightarrow> obj_queue obj \<in> fst ` set (mq_queues st)"
    and "\<And>uid. mq_used (mq_bytes st) uid = charged (mq_queues st) uid"
  shows "mq_sys_inv R st"
  unfolding mq_sys_inv_def using assms by blast

lemma set_delete: "x \<in> set (AList.delete r al) \<longleftrightarrow> x \<in> set al \<and> fst x \<noteq> r"
  by (auto simp: AList.delete_eq)

lemma drop_queue_ref_wf:
  assumes inv: "mq_sys_inv {r} st"
  shows "mq_sys_wf (drop_queue_ref st r)"
proof (cases "queue_referenced st r \<or> map_of (mq_queues st) r = None")
  case True
  then have "drop_queue_ref st r = st" by (auto simp: drop_queue_ref_def)
  moreover have "(r, h) \<in> set (mq_queues st) \<Longrightarrow> queue_referenced st r" for h
    using True by (force simp: map_of_eq_None_iff)
  ultimately show ?thesis using inv unfolding mq_sys_inv_def by auto
next
  case False
  then obtain h where h: "map_of (mq_queues st) r = Some h" and un: "\<not> queue_referenced st r" by auto
  then have st: "drop_queue_ref st r =
      st\<lparr>mq_queues := AList.delete r (mq_queues st), mq_bytes := handle_drop (mq_bytes st) h\<rparr>"
    by (simp add: drop_queue_ref_def)
  have keys: "fst ` set (AList.delete r (mq_queues st)) = fst ` set (mq_queues st) - {r}"
    by (auto simp: set_delete image_iff)
  note D = mq_sys_invD [OF inv]
  show ?thesis unfolding st
  proof (rule mq_sys_invI, goal_cases)
    case (5 r' h')
    then have "queue_referenced st r'" using D(5) by (auto simp: set_delete)
    then show ?case by (simp add: queue_referenced_def)
  next
    case (8 n ent)
    then have "ent_queue ent \<noteq> r" using un by (force simp: queue_referenced_def)
    with 8 show ?case using D(8) by (simp add: keys)
  next
    case (9 r' obj)
    then have "obj_queue obj \<noteq> r" using un by (force simp: queue_referenced_def)
    with 9 show ?case using D(9) by (simp add: keys)
  next
    case (10 uid)
    then show ?case using charged_delete [OF D(1) h] D(10) by (simp add: mq_used_handle_drop)
  qed (use D in \<open>auto simp: set_delete intro: AList.distinct_delete\<close>)
qed

lemma map_of_distinct_eq:
  "distinct (map fst al) \<Longrightarrow> map_of al k = Some v \<Longrightarrow> (k, v') \<in> set al \<Longrightarrow> v' = v"
  by (simp add: map_of_eq_Some_iff eq_key_imp_eq_value)

lemma drop_object_ref_wf:
  assumes inv: "mq_sys_wf st"
  shows "mq_sys_wf (drop_object_ref st r)"
proof (cases "map_of (mq_objects st) r")
  case None
  with inv show ?thesis by (simp add: drop_object_ref_def)
next
  case (Some obj)
  let ?st = "st\<lparr>mq_objects := AList.delete r (mq_objects st)\<rparr>"
  note D = mq_sys_invD [OF inv]
  have "mq_sys_inv {obj_queue obj} ?st"
  proof (rule mq_sys_invI, goal_cases)
    case (5 r' h')
    then have "queue_referenced st r'" using D(5) by simp
    moreover have "obj' = obj" if "(r, obj') \<in> set (mq_objects st)" for obj'
      using map_of_distinct_eq [OF D(2) Some that] .
    ultimately show ?case using 5 by (fastforce simp: queue_referenced_def set_delete)
  qed (use D in \<open>auto simp: set_delete intro: AList.distinct_delete\<close>)
  with Some show ?thesis by (simp add: drop_object_ref_def drop_queue_ref_wf)
qed

lemma set_map_entry_keys: "map fst (AList.map_entry r f al) = map fst al"
  by (induction al) auto

lemma in_map_entry:
  "(k, v) \<in> set (AList.map_entry r f al) \<Longrightarrow> (k, v) \<in> set al \<or> (\<exists>u. (k, u) \<in> set al \<and> v = f u)"
  by (induction al) (auto split: if_splits)

lemma in_map_entry_conv:
  "(k, v) \<in> set al \<Longrightarrow> (k, v) \<in> set (AList.map_entry r f al) \<or> (k, f v) \<in> set (AList.map_entry r f al)"
  by (induction al) auto

lemma set_update_fresh:
  "map_of al k = None \<Longrightarrow> set (AList.update k v al) = insert (k, v) (set al)"
  by (induction al) (auto split: if_splits)

lemma set_queue_wf:
  assumes inv: "mq_sys_wf st" and q: "mq_wf q"
  shows "mq_sys_wf (set_queue st r q)"
proof -
  note D = mq_sys_invD [OF inv]
  show ?thesis unfolding set_queue_def
  proof (rule mq_sys_invI, goal_cases)
    case (5 r' h)
    then have "queue_referenced st r'" using D(5) by (auto dest: in_map_entry)
    then show ?case by (simp add: queue_referenced_def)
  next
    case (7 r' h)
    then show ?case using D(7) q by (auto dest!: in_map_entry)
  qed (use D in \<open>auto simp: set_map_entry_keys charged_map_entry dest: in_map_entry\<close>)
qed

text \<open>Parts of the state the invariant does not depend on.\<close>

lemma mq_sys_inv_frame [simp]:
  "mq_sys_inv R (st\<lparr>user := m\<rparr>) = mq_sys_inv R st"
  "mq_sys_inv R (st\<lparr>sig_pending := s\<rparr>) = mq_sys_inv R st"
  "mq_sys_inv R (st\<lparr>fd_table := t\<rparr>) = mq_sys_inv R st"
  "mq_sys_inv R (st\<lparr>fd_flags := f\<rparr>) = mq_sys_inv R st"
  by (simp_all add: mq_sys_inv_def queue_referenced_def)

lemma deliver_wf [simp]: "mq_sys_inv R (deliver st n) = mq_sys_inv R st"
  by (simp add: deliver_def Let_def split: option.split)

lemma install_fd_wf [simp]: "mq_sys_inv R (snd (install_fd st r)) = mq_sys_inv R st"
  by (simp add: install_fd_def Let_def case_prod_beta)

lemma open_entry_wf:
  assumes inv: "mq_sys_wf st" and ent: "ent_queue ent \<in> fst ` set (mq_queues st)"
  shows "mq_sys_wf (snd (open_entry st ent oflag))"
proof -
  note D = mq_sys_invD [OF inv]
  let ?obj = "object_new (ent_queue ent) oflag (ent_mode ent) (ent_uid ent) (ent_gid ent)"
  have "obj_queue ?obj = ent_queue ent" by (simp add: object_new_def)
  then have "mq_sys_wf (st\<lparr>mq_objects := (next_arc st, ?obj) # mq_objects st, next_arc := Suc (next_arc st)\<rparr>)"
  proof (intro mq_sys_invI, goal_cases)
    case (5 r h)
    then have "queue_referenced st r" using D(5) by auto
    then show ?case by (auto simp: queue_referenced_def)
  next
    case 2
    then show ?case using D(2) D(6) by fastforce
  next
    case (9 r obj)
    then show ?case using D(9) [of r obj] ent by (cases "(r, obj) \<in> set (mq_objects st)") simp_all
  qed (use D in \<open>auto intro: less_SucI\<close>)
  then show ?thesis
    by (simp add: open_entry_def Let_def case_prod_beta)
qed

lemma mq_open_create_wf:
  assumes inv: "mq_sys_wf st" and fresh: "map_of (mqueues st) name = None"
    and charge: "charge_msgbytes (mq_bytes st) uid c limit = Inr mp"
    and ent: "ent_queue ent = next_arc st"
  shows "mq_sys_wf (st\<lparr>mq_bytes := mp, mq_queues := (next_arc st, handle_new attr uid c) # mq_queues st,
                      next_arc := Suc (next_arc st), mqueues := AList.update name ent (mqueues st)\<rparr>)"
proof -
  note D = mq_sys_invD [OF inv]
  have mqs: "set (AList.update name ent (mqueues st)) = insert (name, ent) (set (mqueues st))"
    using fresh by (rule set_update_fresh)
  note C = charge_msgbytes_Inr [OF charge]
  show ?thesis
  proof (rule mq_sys_invI, goal_cases)
    case (5 r h)
    then consider "r = next_arc st" | "queue_referenced st r" using D(5) by auto
    then show ?case using ent by cases (auto simp: queue_referenced_def mqs)
  next
    case 1
    then show ?case using D(1) D(4) by fastforce
  next
    case (10 u)
    have "mq_used mp u = mq_used (mq_bytes st) u + (if uid = u then unat c else 0)"
      using C(1) C(3) [of u] by (auto simp: mq_used_def)
    then show ?case using D(10) [of u] by (simp add: handle_new_def)
  qed (use D ent in \<open>auto simp: mqs handle_new_def mq_wf_new AList.distinct_update intro: less_SucI\<close>)
qed

lemma mq_open_wf:
  assumes "mq_sys_wf st"
  shows "mq_sys_wf (snd (mq_open cur st name_ptr oflag mode attr_ptr))"
proof -
  have known: "ent_queue ent \<in> fst ` set (mq_queues st)" if "map_of (mqueues st) n = Some ent" for n ent
    using mq_sys_invD(8) [OF assms map_of_SomeD [OF that]] .
  have create: "mq_sys_wf (snd (open_entry (st\<lparr>mq_bytes := mp,
      mq_queues := (next_arc st, handle_new attr uid c) # mq_queues st, next_arc := Suc (next_arc st),
      mqueues := AList.update name ent (mqueues st)\<rparr>) ent oflag))"
    if "map_of (mqueues st) name = None" "charge_msgbytes (mq_bytes st) uid c limit = Inr mp"
      "ent_queue ent = next_arc st" for name uid c limit mp ent attr
    using that by (intro open_entry_wf mq_open_create_wf [OF assms]) simp_all
  have opened: "mq_sys_wf (snd (open_entry st ent oflag))" if "map_of (mqueues st) n = Some ent" for n ent
    using assms known [OF that] by (rule open_entry_wf)
  show ?thesis
    by (cases "copy_mq_attr_from_user (user st) attr_ptr"; cases "read_name (user st) name_ptr";
        cases cur; cases "map_of (mqueues st) (projr (read_name (user st) name_ptr))";
        simp add: mq_open_def Let_def case_prod_beta assms create opened split: sum.split)
qed

lemma mq_unlink_wf:
  assumes inv: "mq_sys_wf st"
  shows "mq_sys_wf (snd (mq_unlink cur st name_ptr))"
proof -
  have "mq_sys_wf (drop_queue_ref (st\<lparr>mqueues := AList.delete n (mqueues st)\<rparr>) (ent_queue ent))"
    if n: "map_of (mqueues st) n = Some ent" for n ent
  proof (rule drop_queue_ref_wf)
    note D = mq_sys_invD [OF inv]
    show "mq_sys_inv {ent_queue ent} (st\<lparr>mqueues := AList.delete n (mqueues st)\<rparr>)"
    proof (rule mq_sys_invI, goal_cases)
      case (5 r h)
      then have "queue_referenced st r" using D(5) by simp
      moreover have "ent' = ent" if "(n, ent') \<in> set (mqueues st)" for ent'
        using map_of_distinct_eq [OF D(3) n that] .
      ultimately show ?case using 5 by (fastforce simp: queue_referenced_def set_delete)
    qed (use D in \<open>auto simp: set_delete intro: AList.distinct_delete\<close>)
  qed
  then show ?thesis
    using inv by (auto simp: mq_unlink_def split: sum.split option.split)
qed

text \<open>A description refers to a live queue, so an attempt always finds it.\<close>

lemma live_queue:
  assumes "mq_sys_wf st" and "map_of (mq_objects st) r = Some obj"
  obtains h where "map_of (mq_queues st) (obj_queue obj) = Some h" and "mq_wf (inner h)"
proof -
  note D = mq_sys_invD [OF assms(1)]
  have "obj_queue obj \<in> fst ` set (mq_queues st)" using D(9) assms(2) by (blast dest: map_of_SomeD)
  then obtain h where "map_of (mq_queues st) (obj_queue obj) = Some h"
    by (metis map_of_eq_None_iff not_None_eq)
  then show thesis using that D(7) by (blast dest: map_of_SomeD)
qed

lemma live_queue_wf: "mq_sys_wf st \<Longrightarrow> map_of (mq_queues st) k = Some h \<Longrightarrow> mq_wf (inner h)"
  by (blast dest: map_of_SomeD mq_sys_invD(7))

lemma send_attempt_wf:
  assumes "mq_sys_wf st" and "send_attempt st r buf p = Some (Inr (res, st'))"
  shows "mq_sys_wf st'"
  using assms
  by (auto simp: send_attempt_def Let_def split: option.splits sum.splits if_splits
      intro!: set_queue_wf intro: mq_wf_send [OF live_queue_wf])

lemma receive_attempt_wf:
  assumes "mq_sys_wf st" and "receive_attempt st r n = Some (Inr (res, st'))"
  shows "mq_sys_wf st'"
  using assms
  by (auto simp: receive_attempt_def Let_def split: option.splits sum.splits if_splits
      intro!: set_queue_wf intro: mq_wf_receive live_queue_wf)

lemma send_loop_wf:
  assumes "\<And>w x. w \<in> set ws \<Longrightarrow> mq_sys_wf x \<Longrightarrow> mq_sys_wf (w_world w x)"
    and "mq_sys_wf st" and "send_loop ws st r buf p deadline = Some (res, st')"
  shows "mq_sys_wf st'"
  using assms
proof (induction ws arbitrary: st)
  case Nil
  then show ?case by (auto intro: send_attempt_wf split: option.splits sum.splits)
next
  case (Cons w ws)
  have world: "mq_sys_wf (w_world w st)" using Cons.prems(1,2) by simp
  show ?case
  proof (cases "send_attempt st r buf p")
    case None
    with Cons.prems show ?thesis by simp
  next
    case (Some a)
    with Cons.prems(2,3) Cons.IH [OF Cons.prems(1) world] show ?thesis
      by (cases a; cases "wait_step (projl a) deadline w") (auto intro: send_attempt_wf)
  qed
qed

lemma receive_loop_wf:
  assumes "\<And>w x. w \<in> set ws \<Longrightarrow> mq_sys_wf x \<Longrightarrow> mq_sys_wf (w_world w x)"
    and "mq_sys_wf st" and "receive_loop ws st r n deadline = Some (res, st')"
  shows "mq_sys_wf st'"
  using assms
proof (induction ws arbitrary: st)
  case Nil
  then show ?case by (auto intro: receive_attempt_wf split: option.splits sum.splits)
next
  case (Cons w ws)
  have world: "mq_sys_wf (w_world w st)" using Cons.prems(1,2) by simp
  show ?case
  proof (cases "receive_attempt st r n")
    case None
    with Cons.prems show ?thesis by simp
  next
    case (Some a)
    with Cons.prems(2,3) Cons.IH [OF Cons.prems(1) world] show ?thesis
      by (cases a; cases "wait_step (projl a) deadline w") (auto intro: receive_attempt_wf)
  qed
qed

lemma mq_timedsend_wf:
  assumes "\<And>w x. w \<in> set ws \<Longrightarrow> mq_sys_wf x \<Longrightarrow> mq_sys_wf (w_world w x)"
    and "mq_sys_wf st" and "mq_timedsend cur ws st mqd ptr len p t = Some (res, st')"
  shows "mq_sys_wf st'"
proof -
  have loop: "send_loop ws st r buf p d = Some (x, s) \<Longrightarrow> mq_sys_wf s" for r buf p d x s
    by (rule send_loop_wf) (use assms(1,2) in blast)+
  show ?thesis
    using assms(2,3) unfolding mq_timedsend_def send_common_def
    by (auto split: sum.splits option.splits if_splits dest: loop)
qed

lemma mq_timedreceive_wf:
  assumes "\<And>w x. w \<in> set ws \<Longrightarrow> mq_sys_wf x \<Longrightarrow> mq_sys_wf (w_world w x)"
    and "mq_sys_wf st" and "mq_timedreceive cur ws st mqd ptr len p t = Some (res, st')"
  shows "mq_sys_wf st'"
proof -
  have loop: "receive_loop ws st r n d = Some (x, s) \<Longrightarrow> mq_sys_wf s" for r n d x s
    by (rule receive_loop_wf) (use assms(1,2) in blast)+
  show ?thesis
    using assms(2,3) unfolding mq_timedreceive_def receive_common_def Let_def case_prod_beta
    by (auto split: sum.splits option.splits if_splits dest: loop)
qed

lemma mq_notify_wf:
  assumes "mq_sys_wf st" and "mq_notify cur st mqd n = Some (res, st')"
  shows "mq_sys_wf st'"
  using assms
  by (auto simp: mq_notify_def Let_def split: sum.splits option.splits if_splits
      intro!: set_queue_wf intro: mq_wf_register [OF live_queue_wf] mq_wf_clear [OF live_queue_wf])

lemma map_entry_flags_wf:
  assumes inv: "mq_sys_wf st"
  shows "mq_sys_wf (st\<lparr>mq_objects := AList.map_entry r (\<lambda>obj. obj\<lparr>obj_flags := f\<rparr>) (mq_objects st)\<rparr>)"
proof -
  note D = mq_sys_invD [OF inv]
  show ?thesis
  proof (rule mq_sys_invI, goal_cases)
    case (5 r' h)
    then have "queue_referenced st r'" using D(5) by simp
    then show ?case by (force simp: queue_referenced_def dest: in_map_entry_conv [of _ _ _ r "\<lambda>obj. obj\<lparr>obj_flags := f\<rparr>"])
  qed (use D in \<open>auto simp: set_map_entry_keys dest!: in_map_entry\<close>)
qed

lemma mq_getsetattr_wf:
  assumes "mq_sys_wf st" and "mq_getsetattr cur st mqd n old = Some (res, st')"
  shows "mq_sys_wf st'"
  using assms map_entry_flags_wf [OF assms(1)]
  by (auto simp: mq_getsetattr_def Let_def case_prod_beta split: sum.splits option.splits if_splits)

section \<open>Every history of system calls\<close>

text \<open>
  One process after another enters the subsystem: each step is a whole system call by some
  process, a switch to another process (its descriptor table, flags, signal masks and user
  memory), or the drop of a description whose last descriptor was closed. What a blocked
  caller sees happen meanwhile is again a history.
\<close>

inductive mq_steps :: "mq_sys \<Rightarrow> mq_sys \<Rightarrow> bool" where
  refl: "mq_steps s s"
| switch: "mq_steps s t \<Longrightarrow>
    mq_steps s (t\<lparr>fd_table := ft, fd_flags := ff, sig_pending := sp, user := m\<rparr>)"
| close: "mq_steps s t \<Longrightarrow> mq_steps s (drop_object_ref t r)"
| opens: "mq_steps s t \<Longrightarrow> mq_open cur t name oflag mode attr = (res, u) \<Longrightarrow> mq_steps s u"
| unlink: "mq_steps s t \<Longrightarrow> mq_unlink cur t name = (res, u) \<Longrightarrow> mq_steps s u"
| send: "mq_steps s t \<Longrightarrow> (\<And>w x. w \<in> set ws \<Longrightarrow> mq_steps x (w_world w x)) \<Longrightarrow>
    mq_timedsend cur ws t mqd ptr len p timeout = Some (res, u) \<Longrightarrow> mq_steps s u"
| receive: "mq_steps s t \<Longrightarrow> (\<And>w x. w \<in> set ws \<Longrightarrow> mq_steps x (w_world w x)) \<Longrightarrow>
    mq_timedreceive cur ws t mqd ptr len prio_ptr timeout = Some (res, u) \<Longrightarrow> mq_steps s u"
| notify: "mq_steps s t \<Longrightarrow> mq_notify cur t mqd n = Some (res, u) \<Longrightarrow> mq_steps s u"
| getsetattr: "mq_steps s t \<Longrightarrow> mq_getsetattr cur t mqd new old = Some (res, u) \<Longrightarrow> mq_steps s u"

lemma mq_steps_wf: "mq_steps s t \<Longrightarrow> mq_sys_wf s \<Longrightarrow> mq_sys_wf t"
proof (induction rule: mq_steps.induct)
  case (opens s t cur name oflag mode attr res u)
  then show ?case using mq_open_wf [of t cur name oflag mode attr] by simp
next
  case (unlink s t cur name res u)
  then show ?case using mq_unlink_wf [of t cur name] by simp
next
  case (send s t ws cur mqd ptr len p timeout res u)
  show ?case
    by (rule mq_timedsend_wf [OF _ send.IH(1) [OF send.prems] send.hyps(3)]) (rule send.IH(2))
next
  case (receive s t ws cur mqd ptr len prio_ptr timeout res u)
  show ?case
    by (rule mq_timedreceive_wf [OF _ receive.IH(1) [OF receive.prems] receive.hyps(3)]) (rule receive.IH(2))
next
  case (notify s t cur mqd n res u)
  then show ?case by (blast intro: mq_notify_wf)
next
  case (getsetattr s t cur mqd new old res u)
  then show ?case by (blast intro: mq_getsetattr_wf)
qed (simp_all add: drop_object_ref_wf)

text \<open>
  C2. Starting with no queues, after any history of system calls, process switches and closes,
  every user's byte count is exactly the sum of the charges of the live queues the user
  created, every live queue is still named or open somewhere, and every queue is well formed.
\<close>

theorem mq_accounting_exact:
  assumes "mq_queues s = []" and "mq_objects s = []" and "mqueues s = []"
    and "mq_bytes s = (\<lambda>_. None)" and "mq_steps s t"
  shows "mq_used (mq_bytes t) uid = charged (mq_queues t) uid
         \<and> (\<forall>(r, h)\<in>set (mq_queues t). queue_referenced t r \<and> mq_wf (inner h))"
proof -
  have "mq_sys_wf s" using assms(1-4) by (simp add: mq_sys_inv_def mq_used_def charged_def)
  from mq_steps_wf [OF assms(5) this] have "mq_sys_wf t" .
  from mq_sys_invD(5,7,10) [OF this] show ?thesis by auto
qed

definition demo_user :: umem where
  "demo_user = \<lparr>ubytes = (\<lambda>a. Some (if a = 4096 then 113 else 0)), uwritable = (\<lambda>_. True)\<rparr>"

definition demo_sys :: mq_sys where
  "demo_sys = \<lparr>mq_bytes = (\<lambda>_. None), mq_queues = [], mq_objects = [], next_arc = 0, mqueues = [],
               fd_table = [], fd_flags = [], sig_pending = (\<lambda>_. None), user = demo_user\<rparr>"

definition demo_proc :: mq_proc where
  "demo_proc = \<lparr>p_id = 1, p_euid = 1000, p_egid = 1000, p_cap_effective = 0, p_umask = 0x12,
                p_rlim_msgqueue = 819200\<rparr>"

lemma demo_name: "read_name demo_user 4096 = Inr [113]"
proof -
  have "user_load_bytes demo_user 4096 256 = Some (map (\<lambda>i. if i = 0 then 113 else 0) [0..<256])"
    by (rule user_load_bytes_map) (simp add: demo_user_def word_unat_eq_iff unat_word_ariths unat_of_nat)
  then have "read_user_string demo_user 4096 256 = Some [113]"
    by (simp add: read_user_string_def validate_ptr_iff upt_conv_Cons)
  then show ?thesis by (simp add: read_name_def NAME_MAX_def)
qed

theorem mq_accounting_exact_witness:
  "mq_used (mq_bytes (snd (mq_open (Some demo_proc) demo_sys 4096 0x42 0x1B6 0))) 1000 = 10 * (8192 + 96)
   \<and> charged (mq_queues (snd (mq_open (Some demo_proc) demo_sys 4096 0x42 0x1B6 0))) 1000 = 10 * (8192 + 96)"
proof -
  let ?res = "mq_open (Some demo_proc) demo_sys 4096 0x42 0x1B6 0"
  have "mq_steps demo_sys (snd ?res)"
    by (rule mq_steps.opens [OF mq_steps.refl]) (rule prod.collapse [symmetric])
  then have "mq_used (mq_bytes (snd ?res)) 1000 = charged (mq_queues (snd ?res)) 1000"
    using mq_accounting_exact [of demo_sys "snd ?res" 1000] by (simp add: demo_sys_def)
  moreover have "charged (mq_queues (snd ?res)) 1000 = 10 * (8192 + 96)"
    by (simp add: mq_open_def copy_mq_attr_from_user_def demo_name demo_sys_def demo_proc_def
        caller_capture_def mq_open_consts default_attrs_def message_bytes_def MQ_MSG_OVERHEAD_def
        charge_msgbytes_def open_entry_def install_fd_def handle_new_def case_prod_beta Let_def
        checked_add_def checked_mul_def)
  ultimately show ?thesis by simp
qed

section \<open>Blocking calls end\<close>

text \<open>What a caller that holds description \<open>r\<close> may rely on while it sleeps: the rest of the system
  keeps the invariant and cannot free a description the caller still holds.\<close>

definition mq_rely :: "wait_obs list \<Rightarrow> nat \<Rightarrow> bool" where
  "mq_rely ws r \<longleftrightarrow> (\<forall>w\<in>set ws. \<forall>x. mq_sys_wf x \<and> r \<in> dom (map_of (mq_objects x)) \<longrightarrow>
     mq_sys_wf (w_world w x) \<and> r \<in> dom (map_of (mq_objects (w_world w x))))"

lemma mq_rely_Cons:
  "mq_rely (w # ws) r \<Longrightarrow> mq_sys_wf x \<Longrightarrow> r \<in> dom (map_of (mq_objects x)) \<Longrightarrow>
   mq_rely ws r \<and> mq_sys_wf (w_world w x) \<and> r \<in> dom (map_of (mq_objects (w_world w x)))"
  by (simp add: mq_rely_def)

lemma send_attempt_live:
  "mq_sys_wf st \<Longrightarrow> r \<in> dom (map_of (mq_objects st)) \<Longrightarrow> \<exists>a. send_attempt st r buf p = Some a"
  by (auto simp: send_attempt_def Let_def elim!: live_queue split: sum.split)

lemma receive_attempt_live:
  "mq_sys_wf st \<Longrightarrow> r \<in> dom (map_of (mq_objects st)) \<Longrightarrow> \<exists>a. receive_attempt st r n = Some a"
  by (auto simp: receive_attempt_def elim!: live_queue split: sum.split)

definition past_deadline :: "u64 \<Rightarrow> wait_obs \<Rightarrow> bool" where
  "past_deadline d w \<longleftrightarrow> d \<le> realtime_now_ns (w_rtc w) (w_ticks w)"

lemma wait_step_past: "past_deadline d w \<Longrightarrow> wait_step obj (Some d) w \<noteq> None"
  by (simp add: wait_step_def past_deadline_def)

lemma send_loop_returns:
  assumes "mq_sys_wf st" and "r \<in> dom (map_of (mq_objects st))" and "mq_rely ws r"
    and "w \<in> set ws" and "past_deadline d w"
  shows "\<exists>res. send_loop ws st r buf p (Some d) = Some res"
  using assms(1-4)
proof (induction ws arbitrary: st)
  case (Cons v ws)
  obtain a where a: "send_attempt st r buf p = Some a" using send_attempt_live Cons.prems by blast
  show ?case
  proof (cases a)
    case (Inl obj)
    show ?thesis
    proof (cases "wait_step obj (Some d) v")
      case None
      then have "w \<in> set ws" using Cons.prems wait_step_past [OF assms(5), of obj] by auto
      with Cons.IH mq_rely_Cons [OF Cons.prems(3,1,2)] a Inl None show ?thesis by simp
    qed (simp add: a Inl)
  qed (simp add: a)
qed simp

lemma receive_loop_returns:
  assumes "mq_sys_wf st" and "r \<in> dom (map_of (mq_objects st))" and "mq_rely ws r"
    and "w \<in> set ws" and "past_deadline d w"
  shows "\<exists>res. receive_loop ws st r n (Some d) = Some res"
  using assms(1-4)
proof (induction ws arbitrary: st)
  case (Cons v ws)
  obtain a where a: "receive_attempt st r n = Some a" using receive_attempt_live Cons.prems by blast
  show ?case
  proof (cases a)
    case (Inl obj)
    show ?thesis
    proof (cases "wait_step obj (Some d) v")
      case None
      then have "w \<in> set ws" using Cons.prems wait_step_past [OF assms(5), of obj] by auto
      with Cons.IH mq_rely_Cons [OF Cons.prems(3,1,2)] a Inl None show ?thesis by simp
    qed (simp add: a Inl)
  qed (simp add: a)
qed simp

text \<open>
  C10. A timed send or receive returns no later than the first wake-up at which the clock has
  reached the deadline, whatever the rest of the system does to the queue meanwhile.
\<close>

theorem mq_deadline_returns:
  assumes "mq_sys_wf st" and "r \<in> dom (map_of (mq_objects st))" and "mq_rely (ws @ [w]) r"
    and "past_deadline d w"
  shows "(\<exists>res. send_loop (ws @ [w]) st r buf p (Some d) = Some res)
         \<and> (\<exists>res. receive_loop (ws @ [w]) st r n (Some d) = Some res)"
  using send_loop_returns [OF assms(1-3) _ assms(4)] receive_loop_returns [OF assms(1-3) _ assms(4)]
  by simp

definition demo_full :: mq_sys where
  "demo_full = demo_sys\<lparr>
     mq_queues := [(0, handle_new (default_attrs\<lparr>mq_maxmsg := 0\<rparr>) 1000 0)],
     mq_objects := [(1, object_new 0 2 0x1B6 1000 1000)], next_arc := 2\<rparr>"

definition demo_tick :: wait_obs where
  "demo_tick = \<lparr>w_signal = False, w_rtc = (0, 0), w_ticks = 7, w_world = (\<lambda>s. s)\<rparr>"

theorem mq_deadline_returns_witness:
  "send_loop ([] @ [demo_tick]) demo_full 1 [] 0 (Some 70000000) = Some (errno_u64 ETIMEDOUT, demo_full)"
proof -
  have "\<exists>res. send_loop ([] @ [demo_tick]) demo_full 1 [] 0 (Some 70000000) = Some res"
    using mq_deadline_returns [of demo_full 1 "[]" demo_tick 70000000]
    by (simp add: mq_sys_inv_def demo_full_def demo_sys_def demo_tick_def mq_rely_def past_deadline_def
        realtime_now_ns_def saturating_mul_def object_new_def queue_referenced_def handle_new_def
        mq_wf_new mq_used_def)
  moreover have "send_loop ([] @ [demo_tick]) demo_full 1 [] 0 (Some 70000000) \<noteq> Some res"
    if "res \<noteq> (errno_u64 ETIMEDOUT, demo_full)" for res
    using that by (simp add: demo_full_def demo_sys_def demo_tick_def send_attempt_def object_new_def
        handle_new_def mq_new_def mq_send_def is_full_def wait_step_def realtime_now_ns_def
        saturating_mul_def O_NONBLOCK_def QUEUE_MQ_PRIO_MAX_def)
  ultimately show ?thesis by metis
qed

section \<open>Names, descriptors and unlinking\<close>

lemma read_user_string_Some:
  assumes "read_user_string m ptr n = Some name"
  shows "length name < n" and "0 \<notin> set name"
proof -
  obtain buf pos where "user_load_bytes m ptr n = Some buf" and pos: "position (\<lambda>b. b = 0) buf = Some pos"
    and name: "name = take pos buf"
    using assms by (auto simp: read_user_string_def split: if_splits option.splits)
  then have "length buf = n" by (simp add: length_user_load_bytes)
  moreover have "pos < length buf" and "\<forall>i<pos. buf ! i \<noteq> 0"
    using pos by (auto simp: position_Some_iff)
  ultimately show "length name < n" and "0 \<notin> set name"
    by (auto simp: name in_set_conv_nth)
qed

text \<open>
  C13. \<open>read_name\<close> accepts exactly readable, terminated, UTF-8 names of 1 to 255 bytes with no
  slash that are not \<^verbatim>\<open>.\<close> or \<^verbatim>\<open>..\<close>; every other name is EFAULT or EACCES. In particular the
  ENAMETOOLONG branch can never be taken: a name longer than 255 bytes is EFAULT.
\<close>

theorem read_name_outcome:
  "read_name m ptr =
     (case read_user_string m ptr 256 of
        None \<Rightarrow> Inl EFAULT
      | Some name \<Rightarrow>
          if name \<notin> {[], [46], [46, 46]} \<and> 47 \<notin> set name then Inr name else Inl EACCES)
   \<and> (case read_name m ptr of
         Inl e \<Rightarrow> e \<in> {EFAULT, EACCES}
       | Inr name \<Rightarrow> length name \<in> {1..255} \<and> 0 \<notin> set name)"
proof (cases "read_user_string m ptr 256")
  case None
  then show ?thesis by (simp add: read_name_def NAME_MAX_def)
next
  case (Some name)
  from read_user_string_Some [OF this] have "length name < 256" and "0 \<notin> set name" .
  with Some show ?thesis by (cases name) (auto simp: read_name_def NAME_MAX_def)
qed



lemma drop_queue_ref_frame [simp]:
  "mqueues (drop_queue_ref st r) = mqueues st" "mq_objects (drop_queue_ref st r) = mq_objects st"
  by (simp_all add: drop_queue_ref_def split: option.split)

lemma drop_queue_ref_keeps:
  assumes "(r, obj) \<in> set objs" and "mq_objects st = objs"
  shows "map_of (mq_queues (drop_queue_ref st k)) (obj_queue obj) = map_of (mq_queues st) (obj_queue obj)"
proof -
  have "queue_referenced st (obj_queue obj)" using assms by (force simp: queue_referenced_def)
  then show ?thesis by (auto simp: drop_queue_ref_def AList.delete_conv' split: option.split)
qed


definition demo_named :: mq_sys where
  "demo_named = demo_full\<lparr>mqueues := [([113], \<lparr>ent_queue = 0, ent_mode = 0, ent_uid = 0, ent_gid = 0\<rparr>)]\<rparr>"


end
