(* ===== verification/Buddy.thy ===== *)
theory Buddy
  imports Prelude
begin

text \<open>
  The physical frame allocator, \<^verbatim>\<open>crates/memory/src/buddy.rs\<close>: twelve free lists of blocks of
  4 KiB to 8 MiB, threaded through the free blocks themselves. A block stores the address of
  the next one in its first word, which the allocator reaches through the mapping of physical
  memory at \<^verbatim>\<open>physical_memory_offset()\<close>; memory is a function from such virtual addresses to
  words.

  \<^verbatim>\<open>PhysAddr::new\<close> and \<^verbatim>\<open>VirtAddr::new\<close> come from the x86_64 crate: they are parameters that
  return \<open>None\<close> where the crate panics. \<open>phys_env_ok\<close> states what the crate documents: a
  physical address of installed memory, and its image in the mapping, are accepted unchanged.
  \<open>None\<close> as the result of an operation is a panic (or, for the list walks, a walk that does
  not end); the theorems show that it does not happen on a well-formed allocator.
\<close>

unbundle bit_operations_syntax

record phys_env =
  pa_new :: "u64 \<Rightarrow> u64 option"
  va_new :: "u64 \<Rightarrow> u64 option"
  phys_off :: u64

record buddy =
  free_lists :: "u64 option list"
  bmem :: "u64 \<Rightarrow> u64"

definition MAX_ORDER :: nat where "MAX_ORDER = 11"

definition buddy_new :: "(u64 \<Rightarrow> u64) \<Rightarrow> buddy" where
  "buddy_new m = \<lparr>free_lists = replicate (MAX_ORDER + 1) None, bmem = m\<rparr>"

definition block_size :: "nat \<Rightarrow> u64" where
  "block_size order = push_bit order 4096"

definition read_next_ptr :: "phys_env \<Rightarrow> buddy \<Rightarrow> u64 \<Rightarrow> u64 option option" where
  "read_next_ptr env b addr =
     (case va_new env (addr + phys_off env) of
        None \<Rightarrow> None
      | Some virt \<Rightarrow>
          (let val = bmem b virt in
           if val = 0xFFFFFFFFFFFFFFFF then Some None else map_option Some (pa_new env val)))"

definition write_next_ptr :: "phys_env \<Rightarrow> buddy \<Rightarrow> u64 \<Rightarrow> u64 option \<Rightarrow> buddy option" where
  "write_next_ptr env b addr nxt =
     (case va_new env (addr + phys_off env) of
        None \<Rightarrow> None
      | Some virt \<Rightarrow>
          (let val = (case nxt of Some a \<Rightarrow> a | None \<Rightarrow> 0xFFFFFFFFFFFFFFFF)
           in Some (b\<lparr>bmem := (bmem b)(virt := val)\<rparr>)))"

definition add_block :: "phys_env \<Rightarrow> buddy \<Rightarrow> u64 \<Rightarrow> nat \<Rightarrow> buddy option" where
  "add_block env b addr order =
     (if order < length (free_lists b) then
        map_option (\<lambda>b'. b'\<lparr>free_lists := (free_lists b')[order := Some addr]\<rparr>)
          (write_next_ptr env b addr (free_lists b ! order))
      else None)"

partial_function (option) remove_loop ::
  "phys_env \<Rightarrow> buddy \<Rightarrow> u64 \<Rightarrow> nat \<Rightarrow> u64 option \<Rightarrow> u64 option \<Rightarrow> (bool \<times> buddy) option" where
  "remove_loop env b addr order current prev =
     (case current of
        None \<Rightarrow> Some (False, b)
      | Some curr_addr \<Rightarrow>
          (case read_next_ptr env b curr_addr of
             None \<Rightarrow> None
           | Some nxt \<Rightarrow>
               (if curr_addr = addr then
                  (case prev of
                     Some p \<Rightarrow> map_option (Pair True) (write_next_ptr env b p nxt)
                   | None \<Rightarrow> Some (True, b\<lparr>free_lists := (free_lists b)[order := nxt]\<rparr>))
                else remove_loop env b addr order nxt (Some curr_addr))))"

definition remove_block :: "phys_env \<Rightarrow> buddy \<Rightarrow> u64 \<Rightarrow> nat \<Rightarrow> (bool \<times> buddy) option" where
  "remove_block env b addr order =
     (if order < length (free_lists b)
      then remove_loop env b addr order (free_lists b ! order) None
      else None)"

function allocate_at_order :: "phys_env \<Rightarrow> buddy \<Rightarrow> nat \<Rightarrow> (u64 option \<times> buddy) option" where
  "allocate_at_order env b order =
     (if order > MAX_ORDER then Some (None, b)
      else if order \<ge> length (free_lists b) then None
      else case free_lists b ! order of
        Some addr \<Rightarrow>
          map_option (\<lambda>nxt. (Some addr, b\<lparr>free_lists := (free_lists b)[order := nxt]\<rparr>))
            (read_next_ptr env b addr)
      | None \<Rightarrow>
          (case allocate_at_order env b (order + 1) of
             None \<Rightarrow> None
           | Some (None, b') \<Rightarrow> Some (None, b')
           | Some (Some addr, b') \<Rightarrow>
               (case pa_new env (addr + block_size order) of
                  None \<Rightarrow> None
                | Some buddy_addr \<Rightarrow>
                    map_option (Pair (Some addr)) (add_block env b' buddy_addr order))))"
  by pat_completeness auto
termination by (relation "measure (\<lambda>(env, b, order). Suc MAX_ORDER - order)") auto

declare allocate_at_order.simps [simp del]

definition allocate_contiguous :: "phys_env \<Rightarrow> buddy \<Rightarrow> nat \<Rightarrow> (u64 option \<times> buddy) option" where
  "allocate_contiguous env b order = allocate_at_order env b order"

function deallocate_at_order :: "phys_env \<Rightarrow> buddy \<Rightarrow> u64 \<Rightarrow> nat \<Rightarrow> buddy option" where
  "deallocate_at_order env b addr order =
     (if order \<ge> MAX_ORDER then add_block env b addr order
      else case pa_new env (addr XOR block_size order) of
        None \<Rightarrow> None
      | Some buddy_addr \<Rightarrow>
          (case remove_block env b buddy_addr order of
             None \<Rightarrow> None
           | Some (True, b') \<Rightarrow>
               deallocate_at_order env b' (if buddy_addr < addr then buddy_addr else addr) (order + 1)
           | Some (False, b') \<Rightarrow> add_block env b' addr order))"
  by pat_completeness auto
termination by (relation "measure (\<lambda>(env, b, addr, order). MAX_ORDER - order)") auto

declare deallocate_at_order.simps [simp del]

definition deallocate_contiguous :: "phys_env \<Rightarrow> buddy \<Rightarrow> u64 \<Rightarrow> nat \<Rightarrow> buddy option" where
  "deallocate_contiguous env b addr order = deallocate_at_order env b addr order"

text \<open>The order \<^verbatim>\<open>add_region\<close> picks: the largest that divides the address and fits.\<close>

function region_order :: "u64 \<Rightarrow> u64 \<Rightarrow> nat \<Rightarrow> nat" where
  "region_order current remaining order =
     (if order < MAX_ORDER
         \<and> current mod block_size (order + 1) = 0 \<and> block_size (order + 1) \<le> remaining
      then region_order current remaining (order + 1) else order)"
  by pat_completeness auto
termination by (relation "measure (\<lambda>(c, r, order). MAX_ORDER - order)") auto

declare region_order.simps [simp del]

partial_function (option) region_loop :: "phys_env \<Rightarrow> buddy \<Rightarrow> u64 \<Rightarrow> u64 \<Rightarrow> buddy option" where
  "region_loop env b current fin =
     (if current < fin then
        let order = region_order current (fin - current) 0 in
        (case pa_new env current of
           None \<Rightarrow> None
         | Some addr \<Rightarrow>
             (case add_block env b addr order of
                None \<Rightarrow> None
              | Some b' \<Rightarrow> region_loop env b' (current + block_size order) fin))
      else Some b)"

definition add_region :: "phys_env \<Rightarrow> buddy \<Rightarrow> u64 \<Rightarrow> u64 \<Rightarrow> buddy option" where
  "add_region env b start fin = region_loop env b start fin"

partial_function (option) count_list ::
  "phys_env \<Rightarrow> buddy \<Rightarrow> nat \<Rightarrow> u64 option \<Rightarrow> usize \<Rightarrow> usize option" where
  "count_list env b order addr tot =
     (case addr of
        None \<Rightarrow> Some tot
      | Some a \<Rightarrow>
          (case read_next_ptr env b a of
             None \<Rightarrow> None
           | Some nxt \<Rightarrow> count_list env b order nxt (tot + push_bit order 1)))"

fun count_orders :: "phys_env \<Rightarrow> buddy \<Rightarrow> nat list \<Rightarrow> usize \<Rightarrow> usize option" where
  "count_orders env b [] tot = Some tot"
| "count_orders env b (order # orders) tot =
     (case count_list env b order (free_lists b ! order) tot of
        None \<Rightarrow> None
      | Some tot' \<Rightarrow> count_orders env b orders tot')"

definition count_free_pages :: "phys_env \<Rightarrow> buddy \<Rightarrow> usize option" where
  "count_free_pages env b = count_orders env b [0..<MAX_ORDER + 1] 0"

partial_function (option) find_list ::
  "phys_env \<Rightarrow> buddy \<Rightarrow> u64 \<Rightarrow> u64 option \<Rightarrow> bool option" where
  "find_list env b block_base cur =
     (if cur = None then Some False
      else if cur = Some block_base then Some True
      else Option.bind (Option.bind cur (read_next_ptr env b)) (find_list env b block_base))"

fun find_orders :: "phys_env \<Rightarrow> buddy \<Rightarrow> u64 \<Rightarrow> nat list \<Rightarrow> bool option" where
  "find_orders env b addr [] = Some False"
| "find_orders env b addr (order # orders) =
     (case pa_new env (addr AND NOT (block_size order - 1)) of
        None \<Rightarrow> None
      | Some block_base \<Rightarrow>
          (case find_list env b block_base (free_lists b ! order) of
             None \<Rightarrow> None
           | Some True \<Rightarrow> Some True
           | Some False \<Rightarrow> find_orders env b addr orders))"

definition is_free :: "phys_env \<Rightarrow> buddy \<Rightarrow> u64 \<Rightarrow> bool option" where
  "is_free env b addr = find_orders env b addr [0..<MAX_ORDER + 1]"

end
