(* ===== verification/FrameAllocator.thy ===== *)
theory FrameAllocator
  imports Prelude
begin

text \<open>
  The contract between the physical frame allocator and its clients, as a locale. An allocator
  state has a set of free bytes; an allocation takes one aligned block out of it, a
  deallocation puts one back. The lemma \<open>run_safe\<close> is what every client relies on: whatever
  it allocates and frees, blocks it holds never overlap each other or free memory, nothing is
  lost, and no call panics.
\<close>

datatype frame_op = Alloc nat | Release nat

text \<open>A client's run over its list of live blocks; \<open>Release i\<close> gives back the \<open>i\<close>-th live block, if any.\<close>

fun run_frames ::
  "('s \<Rightarrow> nat \<Rightarrow> (u64 option \<times> 's) option) \<Rightarrow> ('s \<Rightarrow> u64 \<Rightarrow> nat \<Rightarrow> 's option)
     \<Rightarrow> 's \<Rightarrow> (u64 \<times> nat) list \<Rightarrow> frame_op list \<Rightarrow> ('s \<times> (u64 \<times> nat) list) option" where
  "run_frames alloc dealloc s live [] = Some (s, live)"
| "run_frames alloc dealloc s live (Alloc n # ops) =
     (case alloc s n of
        None \<Rightarrow> None
      | Some (None, s') \<Rightarrow> run_frames alloc dealloc s' live ops
      | Some (Some a, s') \<Rightarrow> run_frames alloc dealloc s' ((a, n) # live) ops)"
| "run_frames alloc dealloc s live (Release i # ops) =
     (if i < length live then
        (case dealloc s (fst (live ! i)) (snd (live ! i)) of
           None \<Rightarrow> None
         | Some s' \<Rightarrow> run_frames alloc dealloc s' (remove_at i live) ops)
      else run_frames alloc dealloc s live ops)"

definition blocks_apart :: "(u64 \<Rightarrow> nat \<Rightarrow> nat set) \<Rightarrow> (u64 \<times> nat) list \<Rightarrow> bool" where
  "blocks_apart ext live \<longleftrightarrow>
     (\<forall>i<length live. \<forall>j<length live. i \<noteq> j \<longrightarrow>
        ext (fst (live ! i)) (snd (live ! i)) \<inter> ext (fst (live ! j)) (snd (live ! j)) = {})"

definition live_bytes :: "(u64 \<Rightarrow> nat \<Rightarrow> nat set) \<Rightarrow> (u64 \<times> nat) list \<Rightarrow> nat set" where
  "live_bytes ext live = (\<Union>(a, n)\<in>set live. ext a n)"

lemma live_bytes_Nil [simp]: "live_bytes ext [] = {}"
  by (simp add: live_bytes_def)

lemma live_bytes_Cons [simp]: "live_bytes ext ((a, n) # live) = ext a n \<union> live_bytes ext live"
  by (simp add: live_bytes_def)

lemma live_bytes_append [simp]: "live_bytes ext (xs @ ys) = live_bytes ext xs \<union> live_bytes ext ys"
  by (auto simp: live_bytes_def)

lemma blocks_apart_Nil [simp]: "blocks_apart ext []"
  by (simp add: blocks_apart_def)

lemma blocks_apart_Cons:
  "blocks_apart ext ((a, n) # live) \<longleftrightarrow> ext a n \<inter> live_bytes ext live = {} \<and> blocks_apart ext live"
proof
  assume apart: "blocks_apart ext ((a, n) # live)"
  have "ext a n \<inter> ext (fst (live ! j)) (snd (live ! j)) = {}" if "j < length live" for j
    using apart that unfolding blocks_apart_def by (force dest: spec [of _ 0] spec [of _ "Suc j"])
  then have "ext a n \<inter> live_bytes ext live = {}"
    by (fastforce simp: live_bytes_def in_set_conv_nth)
  moreover have "blocks_apart ext live"
    using apart unfolding blocks_apart_def by (metis Suc_less_eq length_Cons nat.inject nth_Cons_Suc)
  ultimately show "ext a n \<inter> live_bytes ext live = {} \<and> blocks_apart ext live" ..
next
  assume "ext a n \<inter> live_bytes ext live = {} \<and> blocks_apart ext live"
  then have head: "ext a n \<inter> ext (fst (live ! j)) (snd (live ! j)) = {}" if "j < length live" for j
    using that nth_mem [OF that] by (fastforce simp: live_bytes_def)
  show "blocks_apart ext ((a, n) # live)"
    unfolding blocks_apart_def
  proof (intro allI impI)
    fix i j assume "i < length ((a, n) # live)" "j < length ((a, n) # live)" "i \<noteq> j"
    with head \<open>_ \<and> blocks_apart ext live\<close>
    show "ext (fst (((a, n) # live) ! i)) (snd (((a, n) # live) ! i))
          \<inter> ext (fst (((a, n) # live) ! j)) (snd (((a, n) # live) ! j)) = {}"
      by (cases i; cases j) (auto simp: blocks_apart_def Int_commute)
  qed
qed

lemma blocks_apart_mid:
  "blocks_apart ext (xs @ (a, n) # ys) \<longleftrightarrow>
     blocks_apart ext (xs @ ys) \<and> ext a n \<inter> live_bytes ext (xs @ ys) = {}"
  by (induction xs) (auto simp: blocks_apart_Cons)

text \<open>A client is safe when the allocator is well formed and the free bytes and the client's blocks
  partition \<open>mem\<close>.\<close>

definition client_ok ::
  "('s \<Rightarrow> bool) \<Rightarrow> ('s \<Rightarrow> nat set) \<Rightarrow> (u64 \<Rightarrow> nat \<Rightarrow> bool) \<Rightarrow> (u64 \<Rightarrow> nat \<Rightarrow> nat set)
     \<Rightarrow> 's \<Rightarrow> (u64 \<times> nat) list \<Rightarrow> nat set \<Rightarrow> bool" where
  "client_ok ok free okblk ext s live mem \<longleftrightarrow>
     ok s \<and> (\<forall>(a, n)\<in>set live. okblk a n) \<and> blocks_apart ext live
     \<and> free s \<inter> live_bytes ext live = {} \<and> free s \<union> live_bytes ext live = mem"

locale frame_allocator =
  fixes inv :: "'s \<Rightarrow> bool"
    and free :: "'s \<Rightarrow> nat set"
    and okblk :: "u64 \<Rightarrow> nat \<Rightarrow> bool"
    and ext :: "u64 \<Rightarrow> nat \<Rightarrow> nat set"
    and alloc :: "'s \<Rightarrow> nat \<Rightarrow> (u64 option \<times> 's) option"
    and dealloc :: "'s \<Rightarrow> u64 \<Rightarrow> nat \<Rightarrow> 's option"
  assumes alloc_total: "inv s \<Longrightarrow> alloc s n \<noteq> None"
    and alloc_inv: "inv s \<Longrightarrow> alloc s n = Some (r, s') \<Longrightarrow> inv s'"
    and alloc_Some: "inv s \<Longrightarrow> alloc s n = Some (Some a, s') \<Longrightarrow>
      okblk a n \<and> free s = free s' \<union> ext a n \<and> free s' \<inter> ext a n = {}"
    and alloc_None: "inv s \<Longrightarrow> alloc s n = Some (None, s') \<Longrightarrow> free s' = free s"
    and dealloc_total: "inv s \<Longrightarrow> okblk a n \<Longrightarrow> ext a n \<inter> free s = {} \<Longrightarrow>
      \<exists>s'. dealloc s a n = Some s' \<and> inv s' \<and> free s' = free s \<union> ext a n"
begin

lemma client_alloc:
  assumes "client_ok inv free okblk ext s live mem" and "alloc s n = Some (Some a, s')"
  shows "client_ok inv free okblk ext s' ((a, n) # live) mem"
  using assms alloc_inv [of s n "Some a" s'] alloc_Some [of s n a s']
  by (auto simp: client_ok_def blocks_apart_Cons)

lemma client_release:
  assumes ok: "client_ok inv free okblk ext s live mem" and i: "i < length live"
  shows "\<exists>s'. dealloc s (fst (live ! i)) (snd (live ! i)) = Some s' \<and> client_ok inv free okblk ext s' (remove_at i live) mem"
proof -
  obtain a n where an: "live ! i = (a, n)" by fastforce
  have split: "live = take i live @ (a, n) # drop (Suc i) live"
    using i an by (metis id_take_nth_drop)
  let ?rest = "take i live @ drop (Suc i) live"
  have rest: "remove_at i live = ?rest" by (simp add: remove_at_def)
  have apart: "blocks_apart ext ?rest" "ext a n \<inter> live_bytes ext ?rest = {}"
    using ok blocks_apart_mid [of ext "take i live" a n "drop (Suc i) live"] split
    by (simp_all add: client_ok_def)
  have all: "live_bytes ext live = ext a n \<union> live_bytes ext ?rest"
    by (subst split) auto
  have "okblk a n" and sub: "set ?rest \<subseteq> set live"
    using ok i an nth_mem [OF i] set_take_subset set_drop_subset by (fastforce simp: client_ok_def)+
  moreover have "ext a n \<inter> free s = {}" using ok all by (auto simp: client_ok_def)
  ultimately obtain s' where "dealloc s a n = Some s'" "inv s'" "free s' = free s \<union> ext a n"
    using dealloc_total [of s a n] ok by (auto simp: client_ok_def)
  moreover have "client_ok inv free okblk ext s' ?rest mem"
    using ok apart all sub calculation by (auto simp: client_ok_def)
  ultimately show ?thesis by (auto simp: an rest)
qed

lemma run_safe:
  assumes "client_ok inv free okblk ext s live mem"
  shows "\<exists>s' live'. run_frames alloc dealloc s live ops = Some (s', live') \<and> client_ok inv free okblk ext s' live' mem"
  using assms
proof (induction ops arbitrary: s live)
  case (Cons op ops)
  show ?case
  proof (cases op)
    case (Alloc n)
    obtain r s' where a: "alloc s n = Some (r, s')"
      using alloc_total [of s n] Cons.prems by (auto simp: client_ok_def)
    show ?thesis
    proof (cases r)
      case None
      then have "client_ok inv free okblk ext s' live mem"
        using Cons.prems a alloc_inv [of s n r s'] alloc_None [of s n s'] by (simp add: client_ok_def)
      with Cons.IH show ?thesis by (simp add: Alloc a None)
    next
      case (Some x)
      with client_alloc [OF Cons.prems] a Cons.IH show ?thesis by (simp add: Alloc)
    qed
  next
    case (Release i)
    with client_release [OF Cons.prems, of i] Cons.IH Cons.prems show ?thesis by auto
  qed
qed simp

end

end
