(* ===== verification/BuddyCorrect.thy ===== *)
theory BuddyCorrect
  imports Buddy FrameAllocator
begin

text \<open>
  Correctness of the frame allocator of \<^verbatim>\<open>crates/memory/src/buddy.rs\<close>. The free lists are
  related to lists of addresses, one per order (\<open>buddy_rep\<close>), whose blocks are aligned, in
  installed memory and disjoint; the abstraction is the set of free bytes. Every operation is
  shown to return, to keep the representation, and to change the free set by exactly the
  block it hands out or takes back. The allocator then instantiates the contract of
  \<open>frame_allocator\<close>.
\<close>

unbundle bit_operations_syntax

section \<open>Blocks and buddies\<close>

lemma unat_exp: "k < 64 \<Longrightarrow> unat ((2 :: u64) ^ k) = 2 ^ k"
proof -
  assume k: "k < 64"
  have "(2 :: u64) ^ k = of_nat (2 ^ k)" by simp
  moreover have "(2 :: nat) ^ k < 2 ^ 64" using k by (rule power_strict_increasing) simp
  ultimately show ?thesis by (simp only: unat_of_nat take_bit_nat_eq_self_iff[THEN iffD2]) (simp add: take_bit_nat_eq_self)
qed

lemma block_size_exp: "block_size ord = 2 ^ (ord + 12)"
  by (simp add: block_size_def push_bit_eq_mult power_add)

lemma unat_block_size: "ord \<le> 20 \<Longrightarrow> unat (block_size ord) = 4096 * 2 ^ ord"
  using unat_exp [of "ord + 12"] by (simp add: block_size_exp power_add)

lemma xor_clear:
  fixes a :: u64
  assumes k: "k < 63" and al: "2 ^ k dvd unat a" and b: "\<not> bit a k"
  shows "unat (a XOR 2 ^ k) = unat a + 2 ^ k" and "2 ^ (k + 1) dvd unat a"
proof -
  have "a AND 2 ^ k = 0"
    using b by (intro bit_word_eqI) (auto simp: bit_simps)
  then have x: "a XOR 2 ^ k = a + 2 ^ k" by (simp add: disjunctive_add_eq_xor)
  have "take_bit k (unat a) = 0" using al by (simp add: take_bit_eq_0_iff)
  moreover have "\<not> bit (unat a) k" using b k by (simp add: bit_simps)
  ultimately have "take_bit (Suc k) (unat a) = 0" by (simp add: take_bit_Suc_from_most)
  then show d: "2 ^ (k + 1) dvd unat a" by (simp add: take_bit_eq_0_iff)
  then obtain q where q: "unat a = 2 ^ (k + 1) * q" by blast
  have "unat a < 2 ^ 64" using unat_less_exp [of a] by simp
  moreover have E64: "(2 :: nat) ^ 64 = 2 ^ (k + 1) * 2 ^ (63 - k)" using k by (simp flip: power_add)
  ultimately have "2 ^ (k + 1) * q < 2 ^ (k + 1) * 2 ^ (63 - k)" by (simp only: q)
  then have "q < 2 ^ (63 - k)" by (simp only: mult_less_cancel1)
  then have "2 ^ (k + 1) * (q + 1) \<le> 2 ^ (k + 1) * 2 ^ (63 - k)" by (intro mult_left_mono) auto
  then have "unat a + 2 * 2 ^ k \<le> (2 :: nat) ^ 64" unfolding E64 q by (simp add: algebra_simps)
  moreover have "x + 2 * y \<le> z \<Longrightarrow> 0 < y \<Longrightarrow> x + y < z" for x y z :: nat by simp
  ultimately have "unat a + 2 ^ k < 2 ^ 64" by (meson zero_less_numeral zero_less_power)
  then show "unat (a XOR 2 ^ k) = unat a + 2 ^ k"
    unfolding x using unat_exp [of k] k by (simp add: unat_add_exact)
qed

lemma xor_set:
  fixes a :: u64
  assumes k: "k < 63" and al: "2 ^ k dvd unat a" and b: "bit a k"
  shows "unat a = unat (a XOR 2 ^ k) + 2 ^ k" and "2 ^ (k + 1) dvd unat (a XOR 2 ^ k)"
proof -
  let ?c = "a XOR 2 ^ k"
  have tk: "take_bit k a = 0"
  proof -
    have "unat (take_bit k a) = 0" using al by (simp add: unsigned_take_bit_eq take_bit_eq_0_iff)
    then show ?thesis by (simp add: unat_eq_0)
  qed
  have "take_bit k ?c = 0"
  proof -
    have "take_bit k ((2 :: u64) ^ k) = 0" by (intro bit_word_eqI) (simp add: bit_simps)
    with tk show ?thesis by (simp only: take_bit_xor) simp
  qed
  then have "2 ^ k dvd unat ?c"
    by (metis take_bit_eq_0_iff unsigned_0 unsigned_take_bit_eq)
  moreover have "\<not> bit ?c k" using b k by (simp add: bit_simps)
  moreover have "?c XOR 2 ^ k = a" by (simp add: xor.assoc)
  ultimately show "unat a = unat ?c + 2 ^ k" and "2 ^ (k + 1) dvd unat ?c"
    using xor_clear [OF k, of ?c] by auto
qed
definition blk :: "u64 \<Rightarrow> nat \<Rightarrow> nat set" where
  "blk a ord = {unat a ..< unat a + 4096 * 2 ^ ord}"

definition blk_ok :: "nat \<Rightarrow> u64 \<Rightarrow> nat \<Rightarrow> bool" where
  "blk_ok lim a ord \<longleftrightarrow> ord \<le> MAX_ORDER \<and> 4096 * 2 ^ ord dvd unat a \<and> unat a + 4096 * 2 ^ ord \<le> lim"

lemma mem_blk [simp]: "unat a \<in> blk a ord"
  by (simp add: blk_def)

lemma blk_inter_sym: "blk a m \<inter> blk b n = {} \<longleftrightarrow> blk b n \<inter> blk a m = {}"
  by blast

lemma dvd_exp12: "4096 * 2 ^ ord dvd n \<longleftrightarrow> 2 ^ (ord + 12) dvd n" for n :: nat
  by (simp add: power_add mult.commute)

text \<open>The buddy of an aligned block is the other half of the block of the next order.\<close>

lemma buddy_halves:
  assumes ord: "ord < MAX_ORDER" and al: "4096 * 2 ^ ord dvd unat a"
  defines "c \<equiv> a XOR block_size ord"
  defines "lo \<equiv> if c < a then c else a"
  shows "4096 * 2 ^ Suc ord dvd unat lo"
    and "blk lo (Suc ord) = blk a ord \<union> blk c ord" and "blk a ord \<inter> blk c ord = {}"
    and "4096 * 2 ^ ord dvd unat c" and "unat lo + 4096 * 2 ^ Suc ord = max (unat a) (unat c) + 4096 * 2 ^ ord"
    and "c \<noteq> a" and "c XOR block_size ord = a"
proof -
  have k: "ord + 12 < 63" using ord by (simp add: MAX_ORDER_def)
  have al': "2 ^ (ord + 12) dvd unat a" using al by (simp add: dvd_exp12)
  have S: "4096 * 2 ^ Suc ord = 2 * (4096 * 2 ^ ord :: nat)" by simp
  have E: "(2 :: nat) ^ (ord + 12) = 4096 * 2 ^ ord" "(2 :: nat) ^ (ord + 12 + 1) = 4096 * 2 ^ Suc ord"
    by (simp_all add: power_add)
  have c: "c = a XOR 2 ^ (ord + 12)" by (simp add: c_def block_size_exp)
  show "c XOR block_size ord = a" by (simp add: c_def xor.assoc)
  consider (clear) "unat c = unat a + 4096 * 2 ^ ord" "4096 * 2 ^ Suc ord dvd unat a"
    | (set) "unat a = unat c + 4096 * 2 ^ ord" "4096 * 2 ^ Suc ord dvd unat c"
    using xor_clear [OF k al'] xor_set [OF k al'] unfolding c E by blast
  then have all: "4096 * 2 ^ Suc ord dvd unat lo \<and> blk lo (Suc ord) = blk a ord \<union> blk c ord
      \<and> blk a ord \<inter> blk c ord = {} \<and> 4096 * 2 ^ ord dvd unat c
      \<and> unat lo + 4096 * 2 ^ Suc ord = max (unat a) (unat c) + 4096 * 2 ^ ord \<and> c \<noteq> a"
  proof cases
    case clear
    then have "\<not> c < a" by (simp add: word_less_nat_alt)
    with clear al show ?thesis unfolding blk_def lo_def by (auto simp: S)
  next
    case set
    then have "c < a" by (simp add: word_less_nat_alt)
    moreover have "4096 * 2 ^ ord dvd unat c" using set(2) unfolding S by (rule dvd_mult_right)
    ultimately show ?thesis using set unfolding blk_def lo_def by (auto simp: S)
  qed
  then show "4096 * 2 ^ Suc ord dvd unat lo"
    and "blk lo (Suc ord) = blk a ord \<union> blk c ord" and "blk a ord \<inter> blk c ord = {}"
    and "4096 * 2 ^ ord dvd unat c" and "unat lo + 4096 * 2 ^ Suc ord = max (unat a) (unat c) + 4096 * 2 ^ ord"
    and "c \<noteq> a" by blast+
qed

lemma split_halves:
  assumes ord: "ord < MAX_ORDER" and al: "4096 * 2 ^ Suc ord dvd unat a"
    and lim: "unat a + 4096 * 2 ^ Suc ord \<le> 2 ^ 52"
  shows "unat (a + block_size ord) = unat a + 4096 * 2 ^ ord"
    and "blk a (Suc ord) = blk a ord \<union> blk (a + block_size ord) ord"
    and "blk a ord \<inter> blk (a + block_size ord) ord = {}"
    and "4096 * 2 ^ ord dvd unat (a + block_size ord)" and "4096 * 2 ^ ord dvd unat a"
    and "a XOR block_size ord = a + block_size ord"
proof -
  have sz: "unat (block_size ord) = 4096 * 2 ^ ord"
    using ord by (intro unat_block_size) (simp add: MAX_ORDER_def)
  show sum: "unat (a + block_size ord) = unat a + 4096 * 2 ^ ord"
  proof -
    have "unat a + 4096 * 2 ^ ord \<le> 2 ^ 52" using lim by simp
    then have "unat a + unat (block_size ord) < 2 ^ LENGTH(64)" unfolding sz by simp
    then show ?thesis unfolding sz [symmetric] by (rule unat_add_exact)
  qed
  have "(4096 * 2 ^ ord :: nat) dvd 4096 * 2 ^ Suc ord" by simp
  from this al show al': "4096 * 2 ^ ord dvd unat a" by (rule dvd_trans)
  with sum show "4096 * 2 ^ ord dvd unat (a + block_size ord)" by simp
  show "blk a (Suc ord) = blk a ord \<union> blk (a + block_size ord) ord"
    and "blk a ord \<inter> blk (a + block_size ord) ord = {}"
    by (auto simp: blk_def sum)
  have "\<not> bit a (ord + 12)"
  proof -
    have "2 ^ Suc (ord + 12) dvd unat a" using al by (simp add: power_add)
    then have "take_bit (Suc (ord + 12)) (unat a) = 0" by (simp add: take_bit_eq_0_iff)
    then have "\<not> bit (take_bit (Suc (ord + 12)) (unat a)) (ord + 12)" by simp
    then show ?thesis using ord by (simp add: bit_simps MAX_ORDER_def)
  qed
  then have "unat (a XOR block_size ord) = unat a + 4096 * 2 ^ ord"
    using xor_clear [of "ord + 12" a] al' ord by (simp add: block_size_exp dvd_exp12 MAX_ORDER_def power_add)
  with sum show "a XOR block_size ord = a + block_size ord" by (simp add: word_unat_eq_iff)
qed

section \<open>Free lists in memory\<close>

definition phys_env_ok :: "phys_env \<Rightarrow> nat \<Rightarrow> bool" where
  "phys_env_ok env lim \<longleftrightarrow> lim \<le> 2 ^ 52
     \<and> (\<forall>a. unat a < 2 ^ 52 \<longrightarrow> pa_new env a = Some a)
     \<and> (\<forall>a. unat a < lim \<longrightarrow> va_new env (a + phys_off env) = Some (a + phys_off env))"

definition next_of :: "phys_env \<Rightarrow> (u64 \<Rightarrow> u64) \<Rightarrow> u64 \<Rightarrow> u64 option" where
  "next_of env m a = (let v = m (a + phys_off env) in if v = - 1 then None else Some v)"

text \<open>Memory after \<open>write_next_ptr\<close>.\<close>

definition link :: "phys_env \<Rightarrow> (u64 \<Rightarrow> u64) \<Rightarrow> u64 \<Rightarrow> u64 option \<Rightarrow> (u64 \<Rightarrow> u64)" where
  "link env m a n = m(a + phys_off env := case n of Some x \<Rightarrow> x | None \<Rightarrow> - 1)"

fun chain :: "phys_env \<Rightarrow> (u64 \<Rightarrow> u64) \<Rightarrow> u64 option \<Rightarrow> u64 list \<Rightarrow> bool" where
  "chain env m p [] \<longleftrightarrow> p = None"
| "chain env m p (a # as) \<longleftrightarrow> p = Some a \<and> chain env m (next_of env m a) as"

definition blocks_ok :: "nat \<Rightarrow> (nat \<Rightarrow> u64 list) \<Rightarrow> bool" where
  "blocks_ok lim L \<longleftrightarrow>
     (\<forall>ord. distinct (L ord)) \<and> (\<forall>ord. \<forall>a\<in>set (L ord). blk_ok lim a ord)
     \<and> (\<forall>m n. \<forall>a\<in>set (L m). \<forall>c\<in>set (L n). (a, m) \<noteq> (c, n) \<longrightarrow> blk a m \<inter> blk c n = {})"

definition buddy_rep :: "phys_env \<Rightarrow> nat \<Rightarrow> buddy \<Rightarrow> (nat \<Rightarrow> u64 list) \<Rightarrow> bool" where
  "buddy_rep env lim b L \<longleftrightarrow>
     length (free_lists b) = Suc MAX_ORDER
     \<and> (\<forall>ord\<le>MAX_ORDER. chain env (bmem b) (free_lists b ! ord) (L ord)) \<and> blocks_ok lim L"

definition free_bytes :: "(nat \<Rightarrow> u64 list) \<Rightarrow> nat set" where
  "free_bytes L = (\<Union>ord. \<Union>a\<in>set (L ord). blk a ord)"

lemma blocks_okD:
  assumes "blocks_ok lim L"
  shows "distinct (L ord)" and "a \<in> set (L ord) \<Longrightarrow> blk_ok lim a ord"
    and "a \<in> set (L m) \<Longrightarrow> c \<in> set (L n) \<Longrightarrow> (a, m) \<noteq> (c, n) \<Longrightarrow> blk a m \<inter> blk c n = {}"
  using assms unfolding blocks_ok_def by blast+

lemma blocks_ok_high: "blocks_ok lim L \<Longrightarrow> MAX_ORDER < m \<Longrightarrow> L m = []"
  using blocks_okD(2) [of lim L "hd (L m)" m] by (cases "L m") (auto simp: blk_ok_def)

lemma blocks_ok_order: "blocks_ok lim L \<Longrightarrow> a \<in> set (L m) \<Longrightarrow> a \<in> set (L n) \<Longrightarrow> m = n"
  using blocks_okD(3) [of lim L a m a n] mem_blk [of a m] mem_blk [of a n] by fast

lemma blocks_ok_subset:
  "blocks_ok lim L \<Longrightarrow> set as \<subseteq> set (L ord) \<Longrightarrow> distinct as \<Longrightarrow> blocks_ok lim (L(ord := as))"
  unfolding blocks_ok_def by (auto split: if_splits) blast+

lemma blocks_ok_Cons:
  assumes ok: "blocks_ok lim L" and a: "blk_ok lim a ord" and apart: "blk a ord \<inter> free_bytes L = {}"
  shows "blocks_ok lim (L(ord := a # L ord))"
proof -
  have new: "blk a ord \<inter> blk c n = {}" if "c \<in> set (L n)" for c n
    using apart that by (auto simp: free_bytes_def)
  have "a \<notin> set (L ord)" using new [of a ord] mem_blk by blast
  then show ?thesis
    using ok a new unfolding blocks_ok_def
    by (auto split: if_splits dest: new simp: blk_inter_sym [of a ord])
qed

text \<open>The free bytes of one order and of the others.\<close>

lemma free_bytes_split:
  "free_bytes L = (\<Union>a\<in>set (L ord). blk a ord) \<union> (\<Union>m\<in>- {ord}. \<Union>a\<in>set (L m). blk a m)"
  unfolding free_bytes_def by auto

lemma free_bytes_upd:
  "free_bytes (L(ord := as)) = (\<Union>a\<in>set as. blk a ord) \<union> (\<Union>m\<in>- {ord}. \<Union>a\<in>set (L m). blk a m)"
  unfolding free_bytes_split [of "L(ord := as)" ord] by auto

lemma blk_apart_rest:
  assumes ok: "blocks_ok lim L" and a: "a \<in> set (L ord)" and sub: "set as \<subseteq> set (L ord) - {a}"
  shows "blk a ord \<inter> free_bytes (L(ord := as)) = {}"
proof -
  have "blk a ord \<inter> blk c ord = {}" if "c \<in> set as" for c
    using blocks_okD(3) [OF ok a, of c ord] sub that by blast
  moreover have "blk a ord \<inter> blk c m = {}" if "m \<noteq> ord" "c \<in> set (L m)" for c m
    using blocks_okD(3) [OF ok a that(2)] that(1) by blast
  ultimately show ?thesis unfolding free_bytes_upd by blast
qed

lemma free_bytes_Cons: "free_bytes (L(ord := a # L ord)) = blk a ord \<union> free_bytes L"
  unfolding free_bytes_upd free_bytes_split [of L ord] by auto

lemma free_bytes_remove1:
  assumes ok: "blocks_ok lim L" and a: "a \<in> set (L ord)"
  shows "free_bytes L = blk a ord \<union> free_bytes (L(ord := remove1 a (L ord)))"
    and "blk a ord \<inter> free_bytes (L(ord := remove1 a (L ord))) = {}"
proof -
  have s: "set (remove1 a (L ord)) = set (L ord) - {a}" using blocks_okD(1) [OF ok] by simp
  show "free_bytes L = blk a ord \<union> free_bytes (L(ord := remove1 a (L ord)))"
    unfolding free_bytes_upd free_bytes_split [of L ord] s using a by auto
  show "blk a ord \<inter> free_bytes (L(ord := remove1 a (L ord))) = {}"
    using ok a by (rule blk_apart_rest) (simp add: s)
qed

lemma next_of_link: "n \<noteq> Some (- 1) \<Longrightarrow> next_of env (link env m a n) a = n"
  by (auto simp: next_of_def link_def split: option.split)

lemma next_of_link_other [simp]: "x \<noteq> a \<Longrightarrow> next_of env (link env m a n) x = next_of env m x"
  by (simp add: next_of_def link_def)

lemma chain_link [simp]: "a \<notin> set xs \<Longrightarrow> chain env (link env m a n) p xs = chain env m p xs"
proof (induction xs arbitrary: p)
  case (Cons x xs)
  then have "next_of env (link env m a n) x = next_of env m x" by (intro next_of_link_other) auto
  with Cons show ?case by simp
qed simp

lemma chain_same: "chain env m p xs \<Longrightarrow> chain env m p ys \<Longrightarrow> xs = ys"
proof (induction xs arbitrary: p ys)
  case Nil
  then show ?case by (cases ys) auto
next
  case (Cons x xs)
  then show ?case by (cases ys) auto
qed

lemma blk_ok_less: "blk_ok lim a ord \<Longrightarrow> unat a < lim"
  by (simp add: blk_ok_def) (metis add_lessD1 le_eq_less_or_eq less_add_same_cancel1 mult_pos_pos
      order_less_le_trans zero_less_numeral zero_less_power)

lemma read_next_chain:
  assumes env: "phys_env_ok env lim" and ch: "chain env (bmem b) (Some a) (a # as)"
    and a: "unat a < lim" and as: "\<forall>x\<in>set as. unat x < lim"
  shows "\<exists>nxt. read_next_ptr env b a = Some nxt \<and> next_of env (bmem b) a = nxt \<and> chain env (bmem b) nxt as"
proof (cases as)
  case Nil
  with assms show ?thesis by (auto simp: read_next_ptr_def phys_env_ok_def next_of_def Let_def split: if_splits)
next
  case (Cons c cs)
  with assms have "pa_new env c = Some c" by (auto simp: phys_env_ok_def)
  with Cons assms show ?thesis
    by (auto simp: read_next_ptr_def phys_env_ok_def next_of_def Let_def split: if_splits)
qed

section \<open>The list operations\<close>

lemma buddy_repD:
  assumes "buddy_rep env lim b L"
  shows "length (free_lists b) = Suc MAX_ORDER"
    and "ord \<le> MAX_ORDER \<Longrightarrow> chain env (bmem b) (free_lists b ! ord) (L ord)" and "blocks_ok lim L"
  using assms by (auto simp: buddy_rep_def)

lemma rep_less: "buddy_rep env lim b L \<Longrightarrow> a \<in> set (L ord) \<Longrightarrow> unat a < lim"
  by (blast dest: buddy_repD(3) blocks_okD(2) blk_ok_less)

lemma small_not_end: "unat a < 2 ^ 52 \<Longrightarrow> a \<noteq> - 1" for a :: u64
  by (auto simp: unsigned_minus_1_eq_mask mask_eq_exp_minus_1)

lemma env_less: "phys_env_ok env lim \<Longrightarrow> unat a < lim \<Longrightarrow> unat a < 2 ^ 52"
  by (simp add: phys_env_ok_def)

lemma head_not_end:
  assumes "phys_env_ok env lim" and "chain env m p xs" and "\<forall>x\<in>set xs. unat x < lim"
  shows "p \<noteq> Some (- 1)"
  using assms by (cases xs) (auto dest: env_less small_not_end)

lemma write_next_ptr_ok:
  assumes "phys_env_ok env lim" and "unat a < lim"
  shows "write_next_ptr env b a n = Some (b\<lparr>bmem := link env (bmem b) a n\<rparr>)"
proof -
  have m1: "(0xFFFFFFFFFFFFFFFF :: u64) = - 1" by simp
  show ?thesis using assms unfolding write_next_ptr_def phys_env_ok_def m1 by (simp add: link_def)
qed

lemma add_block_rep:
  assumes env: "phys_env_ok env lim" and rep: "buddy_rep env lim b L"
    and a: "blk_ok lim a ord" and apart: "blk a ord \<inter> free_bytes L = {}"
  shows "\<exists>b'. add_block env b a ord = Some b' \<and> buddy_rep env lim b' (L(ord := a # L ord))"
proof -
  note R = buddy_repD [OF rep]
  have ord: "ord \<le> MAX_ORDER" and al: "unat a < lim" using a blk_ok_less by (auto simp: blk_ok_def)
  let ?h = "free_lists b ! ord"
  let ?m = "link env (bmem b) a ?h"
  let ?b = "b\<lparr>bmem := ?m, free_lists := (free_lists b)[ord := Some a]\<rparr>"
  have fresh: "a \<notin> set (L m)" for m
    using apart mem_blk [of a ord] mem_blk [of a m] unfolding free_bytes_def by blast
  have h: "?h \<noteq> Some (- 1)"
    using head_not_end [OF env R(2) [OF ord]] rep_less [OF rep] by blast
  have "chain env ?m (free_lists ?b ! n) ((L(ord := a # L ord)) n)" if "n \<le> MAX_ORDER" for n
    using that R(1) R(2) [OF that] R(2) [OF ord] fresh next_of_link [OF h, of env "bmem b" a] ord
    by (cases "n = ord") simp_all
  moreover have "add_block env b a ord = Some ?b"
    using ord R(1) write_next_ptr_ok [OF env al] by (simp add: add_block_def)
  moreover have "blocks_ok lim (L(ord := a # L ord))" using R(3) a apart by (rule blocks_ok_Cons)
  ultimately show ?thesis using R(1) by (auto simp: buddy_rep_def)
qed

text \<open>Unlinking the cell after \<open>l\<close>.\<close>

lemma chain_unlink:
  assumes "chain env m p (us @ l # x # zs)" and "distinct (us @ l # x # zs)"
    and "next_of env m x \<noteq> Some (- 1)"
  shows "chain env (link env m l (next_of env m x)) p (us @ l # zs)"
  using assms
proof (induction us arbitrary: p)
  case Nil
  then show ?case by (simp add: next_of_link)
qed auto

lemma buddy_rep_unlinked:
  assumes rep: "buddy_rep env lim b L" and ord: "ord \<le> MAX_ORDER"
    and ch: "chain env m (fl ! ord) as" and len: "length fl = Suc MAX_ORDER"
    and sub: "set as \<subseteq> set (L ord)" "distinct as"
    and others: "\<And>n. n \<le> MAX_ORDER \<Longrightarrow> n \<noteq> ord \<Longrightarrow> chain env m (fl ! n) (L n)"
  shows "buddy_rep env lim (b\<lparr>bmem := m, free_lists := fl\<rparr>) (L(ord := as))"
  using assms blocks_ok_subset [OF buddy_repD(3) [OF rep] sub] by (auto simp: buddy_rep_def)

lemma remove_loop_rep:
  assumes env: "phys_env_ok env lim" and rep: "buddy_rep env lim b L" and ord: "ord \<le> MAX_ORDER"
    and L: "L ord = pre @ ys" and cur: "chain env (bmem b) current ys"
    and prev: "prev = (if pre = [] then None else Some (last pre))"
    and notin: "addr \<notin> set pre" and L': "L' = L(ord := remove1 addr (L ord))"
  shows "\<exists>b'. remove_loop env b addr ord current prev = Some (addr \<in> set (L ord), b')
           \<and> (addr \<notin> set (L ord) \<longrightarrow> b' = b)
           \<and> buddy_rep env lim b' L'"
  using L cur prev notin
proof (induction ys arbitrary: pre current prev)
  case Nil
  then have "current = None" and "addr \<notin> set (L ord)" by auto
  moreover from this(2) have "L' = L" unfolding L' by (simp add: remove1_idem)
  ultimately show ?case using rep by (simp add: remove_loop.simps)
next
  case (Cons y ys)
  note R = buddy_repD [OF rep]
  have less: "unat x < lim" if "x \<in> set (pre @ y # ys)" for x using rep_less [OF rep] Cons.prems(1) that by metis
  have dist: "distinct (pre @ y # ys)" using blocks_okD(1) [OF R(3), of ord] Cons.prems(1) by simp
  obtain nxt where nxt: "read_next_ptr env b y = Some nxt" "next_of env (bmem b) y = nxt" "chain env (bmem b) nxt ys"
    using read_next_chain [OF env, of b y ys] Cons.prems(2) less by auto
  have cur: "current = Some y" using Cons.prems(2) by simp
  show ?case
  proof (cases "y = addr")
    case False
    have "\<exists>b'. remove_loop env b addr ord nxt (Some y) = Some (addr \<in> set (L ord), b')
           \<and> (addr \<notin> set (L ord) \<longrightarrow> b' = b) \<and> buddy_rep env lim b' L'"
      by (rule Cons.IH [of "pre @ [y]"]) (use Cons.prems nxt False in auto)
    moreover have "remove_loop env b addr ord current prev = remove_loop env b addr ord nxt (Some y)"
      using False by (subst remove_loop.simps) (simp add: cur nxt(1))
    ultimately show ?thesis by (simp only:)
  next
    case True
    have in_L: "addr \<in> set (L ord)" using Cons.prems True by simp
    have rem: "L' = L(ord := pre @ ys)"
      unfolding L' using Cons.prems True by (simp add: remove1_append)
    have new: "buddy_rep env lim (b\<lparr>bmem := m, free_lists := fl\<rparr>) (L(ord := pre @ ys))"
      if "chain env m (fl ! ord) (pre @ ys)" "length fl = Suc MAX_ORDER"
        "\<And>n. n \<le> MAX_ORDER \<Longrightarrow> n \<noteq> ord \<Longrightarrow> chain env m (fl ! n) (L n)" for m fl
      by (rule buddy_rep_unlinked [OF rep ord]) (use that dist Cons.prems(1) in auto)
    show ?thesis
    proof (cases pre rule: rev_cases)
      case Nil
      have "buddy_rep env lim (b\<lparr>bmem := bmem b, free_lists := (free_lists b)[ord := nxt]\<rparr>) L'"
        unfolding rem using R(1,2) nxt(3) ord Nil by (intro new) auto
      then show ?thesis
        using Nil True in_L nxt(1) cur Cons.prems(3) by (simp add: remove_loop.simps)
    next
      case (snoc us l)
      let ?m = "link env (bmem b) l nxt"
      have nn: "next_of env (bmem b) y \<noteq> Some (- 1)"
        unfolding nxt(2) using head_not_end [OF env nxt(3)] less by simp
      have ch: "chain env (bmem b) (free_lists b ! ord) (us @ l # y # ys)"
        using R(2) [OF ord] Cons.prems(1) snoc by simp
      have "chain env ?m (free_lists b ! ord) (us @ l # ys)"
        using chain_unlink [OF ch _ nn] dist snoc unfolding nxt(2) by simp
      moreover have "l \<notin> set (L n)" if "n \<noteq> ord" for n
        using blocks_ok_order [OF R(3), of l n ord] that Cons.prems(1) snoc by auto
      ultimately have "buddy_rep env lim (b\<lparr>bmem := ?m, free_lists := free_lists b\<rparr>) L'"
        unfolding rem using R(1,2) snoc by (intro new) auto
      moreover have "write_next_ptr env b l nxt = Some (b\<lparr>bmem := ?m\<rparr>)"
        using write_next_ptr_ok [OF env] less snoc by simp
      ultimately show ?thesis
        using snoc True in_L nxt(1) cur Cons.prems(3) by (simp add: remove_loop.simps)
    qed
  qed
qed

lemma remove_block_rep:
  assumes "phys_env_ok env lim" and "buddy_rep env lim b L" and "ord \<le> MAX_ORDER"
    and "L' = L(ord := remove1 addr (L ord))"
  shows "\<exists>b'. remove_block env b addr ord = Some (addr \<in> set (L ord), b')
           \<and> (addr \<notin> set (L ord) \<longrightarrow> b' = b) \<and> buddy_rep env lim b' L'"
  using remove_loop_rep [OF assms(1-3) _ _ _ _ assms(4), of "[]" "L ord"] buddy_repD [OF assms(2)] assms(3)
  by (simp add: remove_block_def)

section \<open>Allocation and deallocation\<close>

text \<open>No free block has a free buddy: blocks are merged as far as they can be.\<close>

definition coalesced :: "(nat \<Rightarrow> u64 list) \<Rightarrow> bool" where
  "coalesced L \<longleftrightarrow> (\<forall>ord<MAX_ORDER. \<forall>a\<in>set (L ord). a XOR block_size ord \<notin> set (L ord))"

lemma coalesced_subset: "coalesced L \<Longrightarrow> set as \<subseteq> set (L ord) \<Longrightarrow> coalesced (L(ord := as))"
  unfolding coalesced_def by (metis fun_upd_apply subsetD)

lemma coalesced_Cons:
  assumes "coalesced L" and new: "ord < MAX_ORDER \<Longrightarrow> a XOR block_size ord \<notin> set (a # L ord)"
  shows "coalesced (L(ord := a # L ord))"
proof -
  have inv: "x XOR block_size ord = a \<Longrightarrow> x = a XOR block_size ord" for x by (auto simp: xor.assoc)
  have "c XOR block_size ord \<notin> set (a # L ord)" if "ord < MAX_ORDER" "c \<in> set (a # L ord)" for c
    using that new [OF that(1)] assms(1) inv [of c] unfolding coalesced_def by auto
  with assms(1) show ?thesis unfolding coalesced_def by (metis fun_upd_apply)
qed

lemma allocate_rep:
  assumes env: "phys_env_ok env lim" and rep: "buddy_rep env lim b L"
  shows "\<exists>r b' L'. allocate_at_order env b ord = Some (r, b') \<and> buddy_rep env lim b' L'
      \<and> (coalesced L \<longrightarrow> coalesced L') \<and> (\<forall>m<ord. L' m = L m)
      \<and> (case r of
            None \<Rightarrow> b' = b \<and> L' = L \<and> (\<forall>m\<ge>ord. L m = [])
          | Some a \<Rightarrow> blk_ok lim a ord \<and> free_bytes L = blk a ord \<union> free_bytes L'
                      \<and> blk a ord \<inter> free_bytes L' = {})"
proof (induction "Suc MAX_ORDER - ord" arbitrary: ord)
  case 0
  note R = buddy_repD [OF rep]
  have "L m = []" if "m \<ge> ord" for m
    using blocks_ok_high [OF R(3), of m] 0 that by simp
  with 0 rep show ?case by (auto simp: allocate_at_order.simps)
next
  case (Suc k)
  note R = buddy_repD [OF rep]
  have False: "\<not> MAX_ORDER < ord" using Suc.hyps(2) by simp
  show ?case
    proof (cases "free_lists b ! ord")
      case (Some addr)
      then obtain as where as: "L ord = addr # as" using R(2) [of ord] False by (cases "L ord") auto
      have ad: "addr \<in> set (L ord)" "distinct (L ord)" using as blocks_okD(1) [OF R(3), of ord] by simp_all
      obtain nxt where nxt: "read_next_ptr env b addr = Some nxt" "chain env (bmem b) nxt as"
        using read_next_chain [OF env, of b addr as] R(2) [of ord] False as rep_less [OF rep, of _ ord] by auto
      let ?b = "b\<lparr>bmem := bmem b, free_lists := (free_lists b)[ord := nxt]\<rparr>"
      have "buddy_rep env lim ?b (L(ord := as))"
        by (rule buddy_rep_unlinked [OF rep]) (use False nxt(2) R(1,2) as ad in auto)
      moreover have "allocate_at_order env b ord = Some (Some addr, ?b)"
        using False R(1) Some nxt(1) by (simp add: allocate_at_order.simps)
      moreover have "coalesced L \<longrightarrow> coalesced (L(ord := as))" using coalesced_subset [of L as ord] as by auto
      moreover have "as = remove1 addr (L ord)" using as by simp
      ultimately show ?thesis
        using free_bytes_remove1 [OF R(3) ad(1)] blocks_okD(2) [OF R(3) ad(1)]
        by (intro exI [of _ "Some addr"] exI [of _ ?b] exI [of _ "L(ord := as)"]) simp
    next
      case None
      then have Lo: "L ord = []" using R(2) [of ord] False by (cases "L ord") auto
      have "k = Suc MAX_ORDER - (ord + 1)" using Suc.hyps(2) by simp
      from Suc.hyps(1) [OF this] obtain r b' L' where rec: "allocate_at_order env b (ord + 1) = Some (r, b')"
          "buddy_rep env lim b' L'" "coalesced L \<longrightarrow> coalesced L'" "\<forall>m<ord + 1. L' m = L m"
        and post: "case r of None \<Rightarrow> b' = b \<and> L' = L \<and> (\<forall>m\<ge>ord + 1. L m = [])
          | Some a \<Rightarrow> blk_ok lim a (ord + 1) \<and> free_bytes L = blk a (ord + 1) \<union> free_bytes L'
                      \<and> blk a (ord + 1) \<inter> free_bytes L' = {}"
        by blast
      show ?thesis
      proof (cases r)
        case rNone: None
        have "allocate_at_order env b ord = Some (None, b)"
          using False R(1) None rec(1) post rNone by (simp add: allocate_at_order.simps [of env b ord])
        moreover have "L m = []" if "m \<ge> ord" for m
          using post rNone Lo that by (cases "m = ord") simp_all
        ultimately show ?thesis using rep by auto
      next
        case (Some addr)
        then have addr: "blk_ok lim addr (Suc ord)" "free_bytes L = blk addr (Suc ord) \<union> free_bytes L'"
          "blk addr (Suc ord) \<inter> free_bytes L' = {}" using post by auto
        then have ord: "ord < MAX_ORDER" and al: "4096 * 2 ^ Suc ord dvd unat addr"
          and le: "unat addr + 4096 * 2 ^ Suc ord \<le> lim" by (auto simp: blk_ok_def)
        have "lim \<le> 2 ^ 52" using env by (simp add: phys_env_ok_def)
        note H = split_halves [OF ord al order_trans [OF le this]]
        let ?bud = "addr + block_size ord"
        have bud: "blk_ok lim ?bud ord" using ord le H(1,4) by (auto simp: blk_ok_def)
        obtain b'' where add: "add_block env b' ?bud ord = Some b''"
          and rep'': "buddy_rep env lim b'' (L'(ord := ?bud # L' ord))"
          using add_block_rep [OF env rec(2) bud] addr(3) H(2) by auto
        have pa: "pa_new env ?bud = Some ?bud"
          using env env_less [OF env blk_ok_less [OF bud]] by (simp add: phys_env_ok_def)
        have "allocate_at_order env b ord = Some (Some addr, b'')"
          using False R(1) None rec(1) Some add pa by (simp add: allocate_at_order.simps [of env b ord])
        moreover have "coalesced L \<longrightarrow> coalesced (L'(ord := ?bud # L' ord))"
        proof
          assume "coalesced L"
          then have "coalesced L'" using rec(3) by blast
          moreover have "?bud XOR block_size ord = addr" using H(6) by (metis xor.assoc xor_self_eq xor.right_neutral)
          moreover have "addr \<noteq> ?bud" using H(1) by (metis add_cancel_right_right mult_is_0 power_not_zero zero_neq_numeral)
          ultimately show "coalesced (L'(ord := ?bud # L' ord))"
            using rec(4) Lo by (intro coalesced_Cons) auto
        qed
        moreover have "blk_ok lim addr ord" using ord le H(5) by (auto simp: blk_ok_def)
        moreover have "free_bytes L = blk addr ord \<union> free_bytes (L'(ord := ?bud # L' ord))"
          and "blk addr ord \<inter> free_bytes (L'(ord := ?bud # L' ord)) = {}"
          unfolding free_bytes_Cons using addr(2,3) H(2,3) by blast+
        ultimately show ?thesis using rep'' rec(4)
          by (intro exI [of _ "Some addr"] exI [of _ b''] exI [of _ "L'(ord := ?bud # L' ord)"]) simp
      qed
    qed
qed

lemma dvd_room: "d dvd n \<Longrightarrow> d dvd N \<Longrightarrow> n < N \<Longrightarrow> n + d \<le> N" for d n N :: nat
proof -
  assume "d dvd n" "d dvd N" and lt: "n < N"
  then obtain q p where q: "n = d * q" "N = d * p" by (auto elim!: dvdE)
  with lt have "Suc q \<le> p" by (simp add: Suc_le_eq)
  then have "d * Suc q \<le> d * p" by (rule mult_le_mono2)
  then show ?thesis by (simp add: q)
qed

lemma buddy_in_range:
  assumes "ord < MAX_ORDER" and "4096 * 2 ^ ord dvd unat a" and "unat a < 2 ^ 52"
  shows "unat (a XOR block_size ord) < 2 ^ 52"
proof -
  let ?c = "a XOR block_size ord" and ?lo = "if a XOR block_size ord < a then a XOR block_size ord else a"
  note H = buddy_halves [OF assms(1,2)]
  have "?lo \<le> a" by auto
  then have "unat ?lo < 2 ^ 52" using assms(3) unfolding word_le_nat_alt by linarith
  moreover have "4096 * 2 ^ Suc ord dvd (2 :: nat) ^ 52"
  proof -
    have "(4096 * 2 ^ Suc ord :: nat) = 2 ^ (13 + ord)" by (simp add: power_add)
    moreover have "13 + ord \<le> 52" using assms(1) by (simp add: MAX_ORDER_def)
    ultimately show ?thesis by (metis le_imp_power_dvd)
  qed
  ultimately have "unat ?lo + 4096 * 2 ^ Suc ord \<le> 2 ^ 52" using H(1) by (intro dvd_room)
  then have "max (unat a) (unat ?c) + 4096 * 2 ^ ord \<le> 2 ^ 52" unfolding H(5) .
  moreover have "(0 :: nat) < 4096 * 2 ^ ord" by simp
  ultimately show ?thesis by linarith
qed

lemma deallocate_rep:
  assumes env: "phys_env_ok env lim"
  shows "buddy_rep env lim b L \<Longrightarrow> blk_ok lim a ord \<Longrightarrow> blk a ord \<inter> free_bytes L = {} \<Longrightarrow>
    \<exists>b' L'. deallocate_at_order env b a ord = Some b' \<and> buddy_rep env lim b' L'
      \<and> free_bytes L' = free_bytes L \<union> blk a ord \<and> (coalesced L \<longrightarrow> coalesced L')"
proof (induction "MAX_ORDER - ord" arbitrary: b L a ord)
  case 0
  then have "ord = MAX_ORDER" by (simp add: blk_ok_def)
  then have "deallocate_at_order env b a ord = add_block env b a ord"
    and "coalesced L \<longrightarrow> coalesced (L(ord := a # L ord))"
    using coalesced_Cons [of L ord a] by (auto simp: deallocate_at_order.simps)
  then show ?case
    using add_block_rep [OF env 0(2,3,4)] free_bytes_Cons [of L ord a] by (metis sup_commute)
next
  case (Suc k)
  note rep = Suc.prems(1) and a = Suc.prems(2) and apart = Suc.prems(3)
  have ord: "ord < MAX_ORDER" using Suc.hyps(2) by simp
  have al: "4096 * 2 ^ ord dvd unat a" and al': "unat a + 4096 * 2 ^ ord \<le> lim" using a by (auto simp: blk_ok_def)
  let ?c = "a XOR block_size ord"
  let ?lo = "if ?c < a then ?c else a"
  note H = buddy_halves [OF ord al]
  have pa: "pa_new env ?c = Some ?c"
    using env buddy_in_range [OF ord al env_less [OF env blk_ok_less [OF a]]] by (simp add: phys_env_ok_def)
  obtain b1 where rem: "remove_block env b ?c ord = Some (?c \<in> set (L ord), b1)"
    "?c \<notin> set (L ord) \<longrightarrow> b1 = b" "buddy_rep env lim b1 (L(ord := remove1 ?c (L ord)))"
    using remove_block_rep [OF env rep _ refl, of ord ?c] ord by auto
  show ?case
  proof (cases "?c \<in> set (L ord)")
    case True
    let ?L = "L(ord := remove1 ?c (L ord))"
    note F = free_bytes_remove1 [OF buddy_repD(3) [OF rep] True]
    have "unat ?c + 4096 * 2 ^ ord \<le> lim"
      using blocks_okD(2) [OF buddy_repD(3) [OF rep] True] by (simp add: blk_ok_def)
    then have "unat ?lo + 4096 * 2 ^ Suc ord \<le> lim" unfolding H(5) using al' by (simp add: max_def)
    then have lo: "blk_ok lim ?lo (Suc ord)" using H(1) ord by (simp add: blk_ok_def)
    have "blk ?lo (Suc ord) \<inter> free_bytes ?L = {}" unfolding H(2) using F apart by blast
    moreover have "k = MAX_ORDER - Suc ord" using Suc.hyps(2) by simp
    ultimately have "\<exists>b' L'. deallocate_at_order env b1 ?lo (Suc ord) = Some b' \<and> buddy_rep env lim b' L'
      \<and> free_bytes L' = free_bytes ?L \<union> blk ?lo (Suc ord) \<and> (coalesced ?L \<longrightarrow> coalesced L')"
      using Suc.hyps(1) [OF _ rem(3) lo] by blast
    then obtain b' L' where
      d: "deallocate_at_order env b1 ?lo (Suc ord) = Some b'" "buddy_rep env lim b' L'"
      "free_bytes L' = free_bytes ?L \<union> blk ?lo (Suc ord)" "coalesced ?L \<longrightarrow> coalesced L'" by blast
    have "deallocate_at_order env b a ord = Some b'"
      using ord pa rem(1) True d(1) by (simp add: deallocate_at_order.simps [of env b a ord] split: if_splits)
    moreover have "free_bytes L' = free_bytes L \<union> blk a ord" unfolding d(3) H(2) F(1) by blast
    moreover have "coalesced L \<longrightarrow> coalesced L'"
      using d(4) coalesced_subset [of L "remove1 ?c (L ord)" ord] set_remove1_subset by fast
    ultimately show ?thesis using d(2) by blast
  next
    case False
    have "deallocate_at_order env b a ord = add_block env b a ord"
      using ord pa rem(1,2) False by (simp add: deallocate_at_order.simps [of env b a ord])
    moreover have "coalesced L \<longrightarrow> coalesced (L(ord := a # L ord))"
      using coalesced_Cons [of L ord a] False H(6) by auto
    ultimately show ?thesis
      using add_block_rep [OF env rep a apart] free_bytes_Cons [of L ord a] by (metis sup_commute)
  qed
qed

section \<open>Adding a region\<close>

lemma region_order_props:
  assumes "4096 * 2 ^ ord dvd unat cur" and "4096 * 2 ^ ord \<le> unat rem" and "ord \<le> MAX_ORDER"
  shows "let n = region_order cur rem ord in
           n \<le> MAX_ORDER \<and> 4096 * 2 ^ n dvd unat cur \<and> 4096 * 2 ^ n \<le> unat rem"
  using assms
proof (induction cur rem ord rule: region_order.induct)
  case (1 cur rem ord)
  show ?case
  proof (cases "ord < MAX_ORDER \<and> cur mod block_size (ord + 1) = 0 \<and> block_size (ord + 1) \<le> rem")
    case True
    have u: "unat (block_size (ord + 1)) = 4096 * 2 ^ (ord + 1)"
      using True by (intro unat_block_size) (simp add: MAX_ORDER_def)
    have "unat (cur mod block_size (ord + 1)) = 0" using True by simp
    then have "4096 * 2 ^ (ord + 1) dvd unat cur" unfolding unat_mod u by (simp only: dvd_eq_mod_eq_0)
    moreover have "4096 * 2 ^ (ord + 1) \<le> unat rem" using True u by (simp only: word_le_nat_alt)
    ultimately show ?thesis using 1(1) [OF True] True by (simp add: region_order.simps [of cur rem ord])
  next
    case False
    have "region_order cur rem ord = ord" by (subst region_order.simps) (rule if_not_P [OF False])
    with 1(2-4) show ?thesis by simp
  qed
qed

lemma region_loop_rep:
  assumes env: "phys_env_ok env lim"
  shows "buddy_rep env lim b L \<Longrightarrow> 4096 dvd unat cur \<Longrightarrow> 4096 dvd unat fin \<Longrightarrow> unat fin \<le> lim \<Longrightarrow>
    unat cur \<le> unat fin \<Longrightarrow> {unat cur ..< unat fin} \<inter> free_bytes L = {} \<Longrightarrow>
    \<exists>b' L'. region_loop env b cur fin = Some b' \<and> buddy_rep env lim b' L'
      \<and> free_bytes L' = free_bytes L \<union> {unat cur ..< unat fin}"
proof (induction "unat fin - unat cur" arbitrary: b L cur rule: less_induct)
  case less
  show ?case
  proof (cases "cur < fin")
    case False
    with less.prems(5) have "unat cur = unat fin" by (simp add: word_less_nat_alt)
    with False less.prems(1) show ?thesis by (auto simp: region_loop.simps)
  next
    case True
    let ?n = "region_order cur (fin - cur) 0"
    have lt: "unat cur < unat fin" using True by (simp add: word_less_nat_alt)
    have rem: "unat (fin - cur) = unat fin - unat cur"
      using less.prems(5) by (simp add: unat_sub word_le_nat_alt)
    have "unat cur + 4096 \<le> unat fin" using less.prems(2,3) lt by (rule dvd_room)
    then have "4096 \<le> unat (fin - cur)" unfolding rem by linarith
    with region_order_props [of 0 cur "fin - cur"] less.prems(2)
    have n: "?n \<le> MAX_ORDER" "4096 * 2 ^ ?n dvd unat cur" and "4096 * 2 ^ ?n \<le> unat (fin - cur)"
      by (simp_all add: Let_def)
    from this(3) lt have n3: "unat cur + 4096 * 2 ^ ?n \<le> unat fin" unfolding rem by linarith
    have sz: "unat (block_size ?n) = 4096 * 2 ^ ?n"
      using n(1) by (intro unat_block_size) (simp add: MAX_ORDER_def)
    have lim: "lim \<le> 2 ^ 52" using env by (simp add: phys_env_ok_def)
    have nx: "unat (cur + block_size ?n) = unat cur + 4096 * 2 ^ ?n"
    proof -
      have "unat cur + unat (block_size ?n) < 2 ^ LENGTH(64)"
        unfolding sz using n3 less.prems(4) lim by simp
      then show ?thesis unfolding sz [symmetric] by (rule unat_add_exact)
    qed
    have blk: "blk_ok lim cur ?n" using n n3 less.prems(4) by (simp add: blk_ok_def)
    have sub: "blk cur ?n \<subseteq> {unat cur ..< unat fin}" using n3 by (auto simp: blk_def)
    obtain b1 where add: "add_block env b cur ?n = Some b1" "buddy_rep env lim b1 (L(?n := cur # L ?n))"
      using add_block_rep [OF env less.prems(1) blk] less.prems(6) sub by blast
    have pa: "pa_new env cur = Some cur"
      using env env_less [OF env blk_ok_less [OF blk]] by (simp add: phys_env_ok_def)
    let ?cur = "cur + block_size ?n" and ?L = "L(?n := cur # L ?n)"
    have "\<exists>b' L'. region_loop env b1 ?cur fin = Some b' \<and> buddy_rep env lim b' L'
      \<and> free_bytes L' = free_bytes ?L \<union> {unat ?cur ..< unat fin}"
    proof (rule less.hyps [OF _ add(2)])
      have "4096 dvd (4096 * 2 ^ ?n :: nat)" by simp
      then show "4096 dvd unat ?cur" unfolding nx using less.prems(2) by (rule dvd_add [rotated])
      show "{unat ?cur ..< unat fin} \<inter> free_bytes ?L = {}"
        unfolding nx free_bytes_Cons using less.prems(6) by (fastforce simp: blk_def disjoint_iff)
      show "unat fin - unat ?cur < unat fin - unat cur" unfolding nx using lt by (intro diff_less_mono2) simp_all
    qed (use less.prems nx n3 in auto)
    moreover have "region_loop env b cur fin = region_loop env b1 ?cur fin"
      using True add(1) pa by (subst region_loop.simps) simp
    moreover have "free_bytes ?L \<union> {unat ?cur ..< unat fin} = free_bytes L \<union> {unat cur ..< unat fin}"
      unfolding free_bytes_Cons nx using n3 by (auto simp: blk_def)
    ultimately show ?thesis by auto
  qed
qed

section \<open>Counting and querying\<close>

lemma count_list_chain:
  assumes env: "phys_env_ok env lim"
  shows "chain env (bmem b) p xs \<Longrightarrow> \<forall>x\<in>set xs. unat x < lim \<Longrightarrow>
    count_list env b ord p tot = Some (tot + of_nat (length xs * 2 ^ ord))"
proof (induction xs arbitrary: p tot)
  case Nil
  then show ?case by (simp add: count_list.simps)
next
  case (Cons x xs)
  then obtain nxt where "read_next_ptr env b x = Some nxt" "chain env (bmem b) nxt xs"
    using read_next_chain [OF env, of b x xs] by auto
  with Cons show ?case
    by (subst count_list.simps) (simp add: push_bit_eq_mult algebra_simps)
qed

lemma count_orders_chain:
  assumes env: "phys_env_ok env lim" and rep: "buddy_rep env lim b L"
  shows "\<forall>ord\<in>set ords. ord \<le> MAX_ORDER \<Longrightarrow>
    count_orders env b ords tot = Some (tot + of_nat (\<Sum>ord\<leftarrow>ords. length (L ord) * 2 ^ ord))"
proof (induction ords arbitrary: tot)
  case (Cons ord ords)
  have "\<forall>x\<in>set (L ord). unat x < lim" using rep_less [OF rep] by blast
  with Cons count_list_chain [OF env buddy_repD(2) [OF rep, of ord]] show ?case by (simp add: ac_simps)
qed simp

lemma card_free_bytes:
  assumes "blocks_ok lim L"
  shows "finite (free_bytes L)"
    and "card (free_bytes L) = 4096 * (\<Sum>ord\<le>MAX_ORDER. length (L ord) * 2 ^ ord)"
proof -
  let ?I = "SIGMA ord:{..MAX_ORDER}. set (L ord)"
  have h: "(ord, a) \<in> ?I" if "a \<in> set (L ord)" for a ord
    using blocks_okD(2) [OF assms that] that by (simp add: blk_ok_def)
  have U: "free_bytes L = (\<Union>i\<in>?I. blk (snd i) (fst i))"
  proof (intro equalityI subsetI)
    fix x assume "x \<in> free_bytes L"
    then obtain a ord where "a \<in> set (L ord)" "x \<in> blk a ord" by (auto simp: free_bytes_def)
    then show "x \<in> (\<Union>i\<in>?I. blk (snd i) (fst i))" using h by (intro UN_I [of "(ord, a)"]) simp_all
  qed (auto simp: free_bytes_def)
  show "finite (free_bytes L)" unfolding U by (auto simp: blk_def)
  have "card (free_bytes L) = (\<Sum>i\<in>?I. card (blk (snd i) (fst i)))"
    unfolding U
  proof (rule card_UN_disjoint)
    show "\<forall>i\<in>?I. \<forall>j\<in>?I. i \<noteq> j \<longrightarrow> blk (snd i) (fst i) \<inter> blk (snd j) (fst j) = {}"
      by (intro ballI impI blocks_okD(3) [OF assms]) auto
  qed (auto simp: blk_def)
  also have "\<dots> = (\<Sum>ord\<le>MAX_ORDER. \<Sum>a\<in>set (L ord). card (blk a ord))"
    by (subst sum.Sigma) (auto simp: case_prod_beta)
  also have "\<dots> = (\<Sum>ord\<le>MAX_ORDER. 4096 * (length (L ord) * 2 ^ ord))"
    using blocks_okD(1) [OF assms] by (simp add: blk_def distinct_card ac_simps)
  finally show "card (free_bytes L) = 4096 * (\<Sum>ord\<le>MAX_ORDER. length (L ord) * 2 ^ ord)"
    by (simp add: sum_distrib_left)
qed

lemma find_list_chain:
  assumes env: "phys_env_ok env lim"
  shows "chain env (bmem b) p xs \<Longrightarrow> \<forall>x\<in>set xs. unat x < lim \<Longrightarrow>
    find_list env b base p = Some (base \<in> set xs)"
proof (induction xs arbitrary: p)
  case Nil
  then show ?case by (simp add: find_list.simps)
next
  case (Cons x xs)
  then obtain nxt where "read_next_ptr env b x = Some nxt" "chain env (bmem b) nxt xs"
    using read_next_chain [OF env, of b x xs] by auto
  with Cons show ?case by (subst find_list.simps) auto
qed

lemma unat_and_not_mask:
  assumes "ord \<le> MAX_ORDER"
  shows "unat (addr AND NOT (block_size ord - 1)) = unat addr - unat addr mod (4096 * 2 ^ ord)"
proof -
  have m: "block_size ord - 1 = mask (ord + 12)" by (simp add: block_size_exp mask_eq_exp_minus_1)
  let ?hi = "addr AND NOT (mask (ord + 12))" and ?lo = "take_bit (ord + 12) addr"
  have "?hi AND ?lo = 0" by (intro bit_word_eqI) (auto simp: bit_simps)
  moreover have "?hi OR ?lo = addr" by (intro bit_word_eqI) (auto simp: bit_simps)
  ultimately have "?hi + ?lo = addr" by (simp add: disjunctive_add_eq_or)
  then have "?hi = addr - ?lo" by (simp add: eq_diff_eq)
  moreover have lo: "unat ?lo = unat addr mod (4096 * 2 ^ ord)"
    by (subst unsigned_take_bit_eq) (simp add: take_bit_eq_mod power_add mult.commute)
  moreover have "?lo \<le> addr" unfolding word_le_nat_alt lo by simp
  ultimately show ?thesis unfolding m by (simp add: unat_sub)
qed

lemma in_aligned_block:
  fixes d x n :: nat
  assumes "0 < d" and "d dvd n"
  shows "n \<le> x \<and> x < n + d \<longleftrightarrow> n = x - x mod d"
proof -
  obtain q where q: "n = d * q" using assms(2) by blast
  have "x - x mod d = d * (x div d)" by (simp add: minus_mod_eq_mult_div)
  moreover have "x div d = q" if "d * q \<le> x" "x < d * q + d"
    using that by (intro div_nat_eqI) simp_all
  moreover have "d * (x div d) \<le> x" and "x < d * (x div d) + d"
    using dividend_less_times_div [OF assms(1), of x] by simp_all
  ultimately show ?thesis unfolding q by metis
qed

lemma block_base:
  assumes "blk_ok lim a ord"
  shows "x \<in> blk a ord \<and> x = unat addr \<longleftrightarrow> a = addr AND NOT (block_size ord - 1) \<and> x = unat addr"
proof -
  have "unat addr \<in> blk a ord \<longleftrightarrow> unat a = unat addr - unat addr mod (4096 * 2 ^ ord)"
    using in_aligned_block [of "4096 * 2 ^ ord" "unat a" "unat addr"] assms by (simp add: blk_def blk_ok_def)
  then show ?thesis
    using unat_and_not_mask [of ord addr] assms by (auto simp: word_unat_eq_iff blk_ok_def)
qed

lemma find_orders_rep:
  assumes env: "phys_env_ok env lim" and rep: "buddy_rep env lim b L" and addr: "unat addr < 2 ^ 52"
  shows "\<forall>ord\<in>set ords. ord \<le> MAX_ORDER \<Longrightarrow>
    find_orders env b addr ords = Some (\<exists>ord\<in>set ords. addr AND NOT (block_size ord - 1) \<in> set (L ord))"
proof (induction ords)
  case (Cons ord ords)
  let ?base = "addr AND NOT (block_size ord - 1)"
  have ord: "ord \<le> MAX_ORDER" using Cons.prems by simp
  have "unat ?base \<le> unat addr" unfolding unat_and_not_mask [OF ord] by simp
  then have "pa_new env ?base = Some ?base" using env addr by (simp add: phys_env_ok_def)
  moreover have "find_list env b ?base (free_lists b ! ord) = Some (?base \<in> set (L ord))"
    using find_list_chain [OF env buddy_repD(2) [OF rep ord]] rep_less [OF rep] by blast
  ultimately show ?case using Cons by (cases "?base \<in> set (L ord)") simp_all
qed simp

lemma in_free_bytes_iff:
  assumes "blocks_ok lim L"
  shows "unat addr \<in> free_bytes L \<longleftrightarrow> (\<exists>ord\<le>MAX_ORDER. addr AND NOT (block_size ord - 1) \<in> set (L ord))"
proof -
  have "unat addr \<in> free_bytes L \<longleftrightarrow> (\<exists>ord. \<exists>a\<in>set (L ord). a = addr AND NOT (block_size ord - 1))"
    unfolding free_bytes_def using block_base [OF blocks_okD(2) [OF assms]] by fastforce
  also have "\<dots> \<longleftrightarrow> (\<exists>ord\<le>MAX_ORDER. addr AND NOT (block_size ord - 1) \<in> set (L ord))"
    using blocks_okD(2) [OF assms] by (auto simp: blk_ok_def)
  finally show ?thesis .
qed

section \<open>The allocator implements the contract\<close>

definition buddy_wf :: "phys_env \<Rightarrow> nat \<Rightarrow> buddy \<Rightarrow> bool" where
  "buddy_wf env lim b \<longleftrightarrow> phys_env_ok env lim \<and> (\<exists>L. buddy_rep env lim b L)"

definition free_of :: "phys_env \<Rightarrow> nat \<Rightarrow> buddy \<Rightarrow> nat set" where
  "free_of env lim b = {x. \<exists>L. buddy_rep env lim b L \<and> x \<in> free_bytes L}"

lemma buddy_rep_unique:
  assumes "buddy_rep env lim b L" and "buddy_rep env lim b L'"
  shows "L = L'"
proof
  fix ord
  show "L ord = L' ord"
  proof (cases "ord \<le> MAX_ORDER")
    case True
    then show ?thesis using chain_same buddy_repD(2) assms by metis
  next
    case False
    then show ?thesis
      using assms [THEN buddy_repD(3), THEN blocks_ok_high, of ord] by simp
  qed
qed

lemma free_of_rep: "buddy_rep env lim b L \<Longrightarrow> free_of env lim b = free_bytes L"
  unfolding free_of_def using buddy_rep_unique by blast

interpretation ba: frame_allocator "buddy_wf env lim" "free_of env lim" "blk_ok lim" blk
  "allocate_at_order env" "deallocate_at_order env" for env lim
proof
  fix s n r s' a
  assume wf: "buddy_wf env lim s"
  then obtain L where env: "phys_env_ok env lim" and rep: "buddy_rep env lim s L" by (auto simp: buddy_wf_def)
  note A = allocate_rep [OF env rep, of n]
  show "allocate_at_order env s n \<noteq> None" using A by auto
  show "allocate_at_order env s n = Some (r, s') \<Longrightarrow> buddy_wf env lim s'"
    using A env by (auto simp: buddy_wf_def)
  show "allocate_at_order env s n = Some (None, s') \<Longrightarrow> free_of env lim s' = free_of env lim s"
    using A by auto
  show "allocate_at_order env s n = Some (Some a, s') \<Longrightarrow>
      blk_ok lim a n \<and> free_of env lim s = free_of env lim s' \<union> blk a n \<and> free_of env lim s' \<inter> blk a n = {}"
    using A free_of_rep [OF rep] free_of_rep by fastforce
  show "blk_ok lim a n \<Longrightarrow> blk a n \<inter> free_of env lim s = {} \<Longrightarrow>
      \<exists>s'. deallocate_at_order env s a n = Some s' \<and> buddy_wf env lim s' \<and> free_of env lim s' = free_of env lim s \<union> blk a n"
    using deallocate_rep [OF env rep, of a n] free_of_rep [OF rep] free_of_rep env unfolding buddy_wf_def by metis
qed

section \<open>Allocation succeeds whenever it can\<close>

lemma blk_nested:
  assumes "4096 * 2 ^ m dvd unat a" and "4096 * 2 ^ n dvd unat c" and "m \<le> n"
    and "x \<in> blk a m" and "x \<in> blk c n"
  shows "blk a m \<subseteq> blk c n"
proof -
  let ?dm = "4096 * 2 ^ m :: nat" and ?dn = "4096 * 2 ^ n :: nat"
  have dd: "?dm dvd ?dn" using assms(3) by (simp add: le_imp_power_dvd)
  then have dc: "?dm dvd unat c" using assms(2) by (rule dvd_trans)
  have in_x: "unat a \<le> x" "x < unat a + ?dm" "unat c \<le> x" "x < unat c + ?dn" using assms(4,5) by (auto simp: blk_def)
  have "unat c \<le> unat a"
  proof (rule ccontr)
    assume "\<not> unat c \<le> unat a"
    then have "unat a + ?dm \<le> unat c" using dvd_room [OF assms(1) dc] by simp
    then show False using in_x by simp
  qed
  moreover have "unat a + ?dm \<le> unat c + ?dn"
    using in_x by (intro dvd_room assms(1) dvd_add dc dd) simp
  ultimately show ?thesis by (auto simp: blk_def)
qed

lemma coalesced_covers:
  assumes ok: "blocks_ok lim L" and co: "coalesced L" and ord: "ord \<le> MAX_ORDER"
    and al: "4096 * 2 ^ ord dvd unat a" and free: "blk a ord \<subseteq> free_bytes L"
  shows "\<exists>n\<ge>ord. L n \<noteq> []"
proof (rule ccontr)
  assume "\<not> (\<exists>n\<ge>ord. L n \<noteq> [])"
  then have low: "n < ord" if "c \<in> set (L n)" for c n using that by (metis empty_iff empty_set not_le)
  let ?S = "\<lambda>m. \<exists>c\<in>set (L m). blk c m \<inter> blk a ord \<noteq> {}"
  have hit: "\<exists>n. \<exists>e\<in>set (L n). x \<in> blk e n" if "x \<in> blk a ord" for x
    using subsetD [OF free that] unfolding free_bytes_def by blast
  have "\<exists>m. ?S m" using hit [OF mem_blk] mem_blk by blast
  then have "?S (LEAST m. ?S m)" by (rule LeastI_ex)
  have least: "(LEAST m. ?S m) \<le> n" if "?S n" for n using that by (rule Least_le)
  define m where "m = (LEAST m. ?S m)"
  obtain c where c: "c \<in> set (L m)" "blk c m \<inter> blk a ord \<noteq> {}" using \<open>?S (LEAST m. ?S m)\<close> m_def by blast
  have m: "m < ord" "m < MAX_ORDER" using low [OF c(1)] ord by auto
  have cal: "4096 * 2 ^ m dvd unat c" using blocks_okD(2) [OF ok c(1)] by (simp add: blk_ok_def)
  let ?d = "c XOR block_size m"
  let ?lo = "if ?d < c then ?d else c"
  note H = buddy_halves [OF m(2) cal]
  from c(2) obtain x where x: "x \<in> blk c m" "x \<in> blk a ord" by blast
  have "blk ?lo (Suc m) \<subseteq> blk a ord"
    using m(1) x H(2) by (intro blk_nested [OF H(1) al, of x]) auto
  then have dsub: "blk ?d m \<subseteq> blk a ord" using H(2) by blast
  then obtain e n where e: "e \<in> set (L n)" "unat ?d \<in> blk e n" using hit mem_blk by blast
  have eal: "4096 * 2 ^ n dvd unat e" using blocks_okD(2) [OF ok e(1)] by (simp add: blk_ok_def)
  have "m \<le> n" unfolding m_def by (rule least) (use e dsub mem_blk in blast)
  then consider "n = m" | "Suc m \<le> n" by linarith
  then show False
  proof cases
    case 1
    have "blk ?d m \<subseteq> blk e m" "blk e m \<subseteq> blk ?d m"
      using blk_nested [OF H(4) _ order_refl mem_blk] blk_nested [OF _ H(4) order_refl _ mem_blk] eal e(2) 1 by blast+
    then have "unat ?d = unat e"
      using mem_blk [of e m] mem_blk [of ?d m] by (auto simp: blk_def intro!: antisym)
    then have "?d = e" by (simp add: word_unat_eq_iff)
    then show False using co m(2) c(1) e(1) 1 by (auto simp: coalesced_def)
  next
    case 2
    have "unat ?d \<in> blk ?lo (Suc m)" using H(2) mem_blk by blast
    then have "blk ?lo (Suc m) \<subseteq> blk e n" using blk_nested [OF H(1) eal 2 _ e(2)] by blast
    then have "unat c \<in> blk e n" using H(2) mem_blk [of c m] by blast
    moreover have "blk c m \<inter> blk e n = {}" using 2 by (intro blocks_okD(3) [OF ok c(1) e(1)]) auto
    ultimately show False using mem_blk [of c m] by blast
  qed
qed

section \<open>Properties\<close>

definition demo_env :: phys_env where
  "demo_env = \<lparr>pa_new = (\<lambda>a. if a < 0x10000000000000 then Some a else None),
               va_new = (\<lambda>v. if v < 0x800000000000 \<or> 0xFFFF800000000000 \<le> v then Some v else None),
               phys_off = 0xFFFF800000000000\<rparr>"

definition demo_buddy :: buddy where
  "demo_buddy = \<lparr>free_lists = [Some 0x100000, None, None, None, None, None, None, None, None, None, None, None],
                 bmem = (\<lambda>_. - 1)\<rparr>"

lemma demo_env_ok: "phys_env_ok demo_env 0x200000"
proof -
  have "va_new demo_env (a + phys_off demo_env) = Some (a + phys_off demo_env)" if "unat a < 0x200000" for a
  proof -
    have "unat (a + 0xFFFF800000000000) = unat a + 0xFFFF800000000000"
      using that by (subst unat_add_exact) simp_all
    then have "0xFFFF800000000000 \<le> a + 0xFFFF800000000000" by (simp add: word_le_nat_alt)
    then show ?thesis by (simp add: demo_env_def)
  qed
  then show ?thesis by (simp add: phys_env_ok_def demo_env_def word_less_nat_alt)
qed

lemma demo_buddy_rep: "buddy_rep demo_env 0x200000 demo_buddy (\<lambda>ord. if ord = 0 then [0x100000] else [])"
  by (auto simp: buddy_rep_def demo_buddy_def MAX_ORDER_def blocks_ok_def blk_ok_def next_of_def nth_Cons'
      split: if_splits)

lemma demo_buddy_wf: "buddy_wf demo_env 0x200000 demo_buddy"
  using demo_env_ok demo_buddy_rep by (auto simp: buddy_wf_def)

lemma demo_free: "free_of demo_env 0x200000 demo_buddy = {0x100000 ..< 0x101000}"
  unfolding free_of_rep [OF demo_buddy_rep] by (auto simp: free_bytes_def blk_def split: if_splits)

text \<open>
  C1. Whatever a client allocates and frees, no call panics or fails to return, no two blocks it
  holds overlap, none overlaps free memory, and the free memory and the held blocks together
  are exactly the memory that was free at the start.
\<close>

theorem buddy_client_safe:
  assumes "buddy_wf env lim b"
  shows "\<exists>b' live.
    run_frames (allocate_at_order env) (deallocate_at_order env) b [] ops = Some (b', live)
    \<and> buddy_wf env lim b' \<and> blocks_apart blk live
    \<and> free_of env lim b' \<inter> live_bytes blk live = {}
    \<and> free_of env lim b' \<union> live_bytes blk live = free_of env lim b"
  using ba.run_safe [of env lim b "[]" "free_of env lim b" ops] assms
  by (auto simp: client_ok_def)

theorem buddy_client_safe_witness:
  "\<exists>b'. run_frames (allocate_at_order demo_env) (deallocate_at_order demo_env) demo_buddy []
          [Alloc 0, Alloc 3] = Some (b', [(0x100000, 0)])
        \<and> free_of demo_env 0x200000 b' = {}"
proof -
  have run: "run_frames (allocate_at_order demo_env) (deallocate_at_order demo_env) demo_buddy []
      [Alloc 0, Alloc 3] = Some (demo_buddy\<lparr>free_lists :=
        [None, None, None, None, None, None, None, None, None, None, None, None]\<rparr>, [(0x100000, 0)])"
    by (simp add: allocate_at_order.simps demo_buddy_def demo_env_def MAX_ORDER_def read_next_ptr_def)
  obtain b' live where b': "run_frames (allocate_at_order demo_env) (deallocate_at_order demo_env) demo_buddy []
      [Alloc 0, Alloc 3] = Some (b', live)"
    "free_of demo_env 0x200000 b' \<inter> live_bytes blk live = {}"
    "free_of demo_env 0x200000 b' \<union> live_bytes blk live = {0x100000 ..< 0x101000}"
    using buddy_client_safe [OF demo_buddy_wf, of "[Alloc 0, Alloc 3]"] unfolding demo_free by blast
  moreover have "live = [(0x100000, 0)]" using run b'(1) by simp
  moreover have "live_bytes blk [(0x100000, 0)] = {0x100000 ..< 0x101000}" by (simp add: blk_def)
  ultimately show ?thesis by (metis Int_absorb2 sup_ge1)
qed



text \<open>
  C16. Adding a page-aligned region that holds no free memory yet ends, and makes exactly the bytes
  of the region free.
\<close>

theorem buddy_add_region_exact:
  assumes "buddy_wf env lim b" and "4096 dvd unat start" and "4096 dvd unat fin"
    and "unat start \<le> unat fin" and "unat fin \<le> lim"
    and "{unat start ..< unat fin} \<inter> free_of env lim b = {}"
  shows "\<exists>b'. add_region env b start fin = Some b' \<and> buddy_wf env lim b'
           \<and> free_of env lim b' = free_of env lim b \<union> {unat start ..< unat fin}"
proof -
  obtain L where env: "phys_env_ok env lim" and rep: "buddy_rep env lim b L"
    using assms(1) by (auto simp: buddy_wf_def)
  show ?thesis
    using region_loop_rep [OF env rep assms(2,3,5,4)] assms(6) free_of_rep env
    unfolding free_of_rep [OF rep] add_region_def buddy_wf_def by metis
qed

theorem buddy_add_region_exact_witness:
  "\<exists>b'. add_region demo_env demo_buddy 0x102000 0x200000 = Some b'
        \<and> free_of demo_env 0x200000 b' = {0x100000 ..< 0x101000} \<union> {0x102000 ..< 0x200000}"
  using buddy_add_region_exact [OF demo_buddy_wf, of "0x102000" "0x200000"]
  unfolding demo_free by auto

text \<open>
  C17. \<open>count_free_pages\<close> returns the number of free frames (modulo the word size) and \<open>is_free\<close>
  tells exactly whether an address lies in free memory; both walks end.
\<close>

theorem buddy_queries_exact:
  assumes "buddy_wf env lim b"
  shows "count_free_pages env b = Some (of_nat (card (free_of env lim b) div 4096))
    \<and> finite (free_of env lim b)
    \<and> (\<forall>addr. unat addr < 2 ^ 52 \<longrightarrow> is_free env b addr = Some (unat addr \<in> free_of env lim b))"
proof -
  obtain L where env: "phys_env_ok env lim" and rep: "buddy_rep env lim b L"
    using assms(1) by (auto simp: buddy_wf_def)
  note ok = buddy_repD(3) [OF rep]
  have set: "set [0..<MAX_ORDER + 1] = {..MAX_ORDER}" by auto
  have "(\<Sum>ord\<leftarrow>[0..<MAX_ORDER + 1]. length (L ord) * 2 ^ ord) = (\<Sum>ord\<le>MAX_ORDER. length (L ord) * 2 ^ ord)"
    unfolding interv_sum_list_conv_sum_set_nat set ..
  then have "count_free_pages env b = Some (of_nat (card (free_of env lim b) div 4096))"
    using count_orders_chain [OF env rep, of "[0..<MAX_ORDER + 1]" 0]
    unfolding count_free_pages_def free_of_rep [OF rep] card_free_bytes(2) [OF ok] by simp
  moreover have "is_free env b addr = Some (unat addr \<in> free_of env lim b)" if "unat addr < 2 ^ 52" for addr
    using find_orders_rep [OF env rep that, of "[0..<MAX_ORDER + 1]"]
    unfolding is_free_def free_of_rep [OF rep] in_free_bytes_iff [OF ok] set by auto
  ultimately show ?thesis using card_free_bytes(1) [OF ok] free_of_rep [OF rep] by simp
qed

theorem buddy_queries_exact_witness:
  "count_free_pages demo_env demo_buddy = Some 1 \<and> is_free demo_env demo_buddy 0x100FFF = Some True
   \<and> is_free demo_env demo_buddy 0x101000 = Some False"
  using buddy_queries_exact [OF demo_buddy_wf] unfolding demo_free by simp

end
