(* ===== verification/FrameInfo.thy ===== *)
theory FrameInfo
  imports BuddyCorrect
begin

text \<open>
  Reference counts and statistics of physical frames, \<^verbatim>\<open>crates/memory/src/frame_info.rs\<close>, and
  the frame-sized entry points of \<^verbatim>\<open>buddy.rs\<close> that use them. Counts are 16-bit words that wrap.
  A frame whose count drops from one to zero goes to the deferred queue, which
  \<open>drain_deferred\<close> returns to the buddy allocator. \<^verbatim>\<open>try_evict_one_page\<close> of \<^verbatim>\<open>swap.rs\<close> always
  answers \<open>False\<close>, so the retry of \<open>allocate_frame\<close> is never taken. \<^verbatim>\<open>containing_address\<close>
  of the x86_64 crate is the parameter \<open>frame_of\<close>.
\<close>

unbundle bit_operations_syntax

record rc_table =
  rc_counts :: "16 word list"
  rc_deferred :: "u64 list"

record frame_state =
  refcounts :: "rc_table option"
  allocated_frames :: u64
  high_water_mark :: u64
  fs_buddy :: buddy

definition div_ceil :: "u64 \<Rightarrow> u64 \<Rightarrow> u64" where
  "div_ceil n d = (if n mod d = 0 then n div d else n div d + 1)"

definition fi_init :: "frame_state \<Rightarrow> u64 \<Rightarrow> frame_state" where
  "fi_init s max_phys =
     s\<lparr>refcounts := Some \<lparr>rc_counts = replicate (unat (div_ceil max_phys 4096)) 0, rc_deferred = []\<rparr>\<rparr>"

definition frame_index :: "u64 \<Rightarrow> nat" where
  "frame_index phys = unat (drop_bit 12 phys)"

definition fi_increment :: "frame_state \<Rightarrow> u64 \<Rightarrow> frame_state" where
  "fi_increment s phys =
     (case refcounts s of
        None \<Rightarrow> s
      | Some tbl \<Rightarrow>
          (let i = frame_index phys in
           if i < length (rc_counts tbl)
           then s\<lparr>refcounts := Some (tbl\<lparr>rc_counts := (rc_counts tbl)[i := rc_counts tbl ! i + 1]\<rparr>)\<rparr>
           else s))"

definition fi_decrement :: "frame_state \<Rightarrow> u64 \<Rightarrow> 16 word \<times> frame_state" where
  "fi_decrement s phys =
     (case refcounts s of
        None \<Rightarrow> (0, s)
      | Some tbl \<Rightarrow>
          (let i = frame_index phys in
           if i < length (rc_counts tbl) then
             (let prev = rc_counts tbl ! i;
                  tbl' = tbl\<lparr>rc_counts := (rc_counts tbl)[i := prev - 1]\<rparr>
              in if prev = 1
                 then (0, s\<lparr>refcounts := Some (tbl'\<lparr>rc_deferred := rc_deferred tbl' @ [phys]\<rparr>)\<rparr>)
                 else (prev - 1, s\<lparr>refcounts := Some tbl'\<rparr>))
           else (0, s)))"

definition fi_count :: "frame_state \<Rightarrow> u64 \<Rightarrow> 16 word" where
  "fi_count s phys =
     (case refcounts s of
        None \<Rightarrow> 1
      | Some tbl \<Rightarrow>
          (let i = frame_index phys in if i < length (rc_counts tbl) then rc_counts tbl ! i else 1))"

definition track_alloc :: "frame_state \<Rightarrow> frame_state" where
  "track_alloc s =
     (let cur = allocated_frames s + 1;
          s' = s\<lparr>allocated_frames := cur\<rparr>
      in if cur \<le> high_water_mark s' then s' else s'\<lparr>high_water_mark := cur\<rparr>)"

definition track_dealloc :: "frame_state \<Rightarrow> frame_state" where
  "track_dealloc s = s\<lparr>allocated_frames := allocated_frames s - 1\<rparr>"

definition frame_stats :: "frame_state \<Rightarrow> u64 \<times> u64" where
  "frame_stats s = (allocated_frames s, high_water_mark s)"

definition try_evict_one_page :: bool where
  "try_evict_one_page = False"

definition allocate_frame ::
  "phys_env \<Rightarrow> (u64 \<Rightarrow> u64) \<Rightarrow> bool \<Rightarrow> frame_state \<Rightarrow> (u64 option \<times> frame_state) option" where
  "allocate_frame env frame_of swap_devices_empty s =
     (case allocate_contiguous env (fs_buddy s) 0 of
        None \<Rightarrow> None
      | Some (Some addr, b) \<Rightarrow> Some (Some (frame_of addr), track_alloc (s\<lparr>fs_buddy := b\<rparr>))
      | Some (None, b) \<Rightarrow>
          (if \<not> swap_devices_empty \<and> try_evict_one_page then
             (case allocate_contiguous env b 0 of
                None \<Rightarrow> None
              | Some (None, b') \<Rightarrow> Some (None, s\<lparr>fs_buddy := b'\<rparr>)
              | Some (Some addr, b') \<Rightarrow> Some (Some (frame_of addr), track_alloc (s\<lparr>fs_buddy := b'\<rparr>)))
           else Some (None, s\<lparr>fs_buddy := b\<rparr>)))"

definition deallocate_frame :: "phys_env \<Rightarrow> frame_state \<Rightarrow> u64 \<Rightarrow> frame_state option" where
  "deallocate_frame env s frame =
     (let s' = track_dealloc s in
      map_option (\<lambda>b. s'\<lparr>fs_buddy := b\<rparr>) (deallocate_at_order env (fs_buddy s') frame 0))"

fun free_frames :: "phys_env \<Rightarrow> (u64 \<Rightarrow> u64) \<Rightarrow> frame_state \<Rightarrow> u64 list \<Rightarrow> frame_state option" where
  "free_frames env frame_of s [] = Some s"
| "free_frames env frame_of s (phys # frames) =
     (case deallocate_frame env s (frame_of phys) of
        None \<Rightarrow> None
      | Some s' \<Rightarrow> free_frames env frame_of s' frames)"

definition drain_deferred :: "phys_env \<Rightarrow> (u64 \<Rightarrow> u64) \<Rightarrow> frame_state \<Rightarrow> frame_state option" where
  "drain_deferred env frame_of s =
     (case refcounts s of
        None \<Rightarrow> free_frames env frame_of s []
      | Some tbl \<Rightarrow>
          free_frames env frame_of (s\<lparr>refcounts := Some (tbl\<lparr>rc_deferred := []\<rparr>)\<rparr>) (rc_deferred tbl))"

section \<open>Reference counts\<close>

datatype ref_op = Inc u64 | Dec u64

fun run_refs :: "frame_state \<Rightarrow> ref_op list \<Rightarrow> frame_state" where
  "run_refs s [] = s"
| "run_refs s (Inc p # ops) = run_refs (fi_increment s p) ops"
| "run_refs s (Dec p # ops) = run_refs (snd (fi_decrement s p)) ops"

text \<open>References taken minus references dropped, per frame.\<close>

fun refs_held :: "ref_op list \<Rightarrow> nat \<Rightarrow> int" where
  "refs_held [] i = 0"
| "refs_held (Inc p # ops) i = (if frame_index p = i then 1 else 0) + refs_held ops i"
| "refs_held (Dec p # ops) i = (if frame_index p = i then - 1 else 0) + refs_held ops i"

definition counts_of :: "frame_state \<Rightarrow> 16 word list" where
  "counts_of s = (case refcounts s of None \<Rightarrow> [] | Some tbl \<Rightarrow> rc_counts tbl)"

definition deferred_of :: "frame_state \<Rightarrow> u64 list" where
  "deferred_of s = (case refcounts s of None \<Rightarrow> [] | Some tbl \<Rightarrow> rc_deferred tbl)"

lemma length_counts_inc [simp]: "length (counts_of (fi_increment s p)) = length (counts_of s)"
  by (auto simp: counts_of_def fi_increment_def Let_def split: option.splits)

lemma length_counts_dec [simp]: "length (counts_of (snd (fi_decrement s p))) = length (counts_of s)"
  by (auto simp: counts_of_def fi_decrement_def Let_def split: option.splits)

lemma counts_inc:
  "i < length (counts_of s) \<Longrightarrow>
   counts_of (fi_increment s p) ! i = counts_of s ! i + (if frame_index p = i then 1 else 0)"
  by (auto simp: counts_of_def fi_increment_def Let_def split: option.splits)

lemma counts_dec:
  "i < length (counts_of s) \<Longrightarrow>
   counts_of (snd (fi_decrement s p)) ! i = counts_of s ! i - (if frame_index p = i then 1 else 0)"
  by (auto simp: counts_of_def fi_decrement_def Let_def split: option.splits)

lemma deferred_inc [simp]: "deferred_of (fi_increment s p) = deferred_of s"
  by (simp add: deferred_of_def fi_increment_def Let_def split: option.split)

lemma deferred_dec:
  "deferred_of (snd (fi_decrement s p)) =
     (if frame_index p < length (counts_of s) \<and> counts_of s ! frame_index p = 1
      then deferred_of s @ [p] else deferred_of s)"
  by (simp add: deferred_of_def counts_of_def fi_decrement_def Let_def split: option.split)

lemma length_counts_run [simp]: "length (counts_of (run_refs s ops)) = length (counts_of s)"
  by (induction s ops rule: run_refs.induct) simp_all

lemma run_refs_counts:
  "i < length (counts_of s) \<Longrightarrow>
   counts_of (run_refs s ops) ! i = counts_of s ! i + of_int (refs_held ops i)"
  by (induction s ops rule: run_refs.induct) (simp_all add: counts_inc counts_dec)

lemma run_refs_append: "run_refs s (xs @ ys) = run_refs (run_refs s xs) ys"
  by (induction s xs rule: run_refs.induct) simp_all

lemma refs_held_append: "refs_held (xs @ ys) i = refs_held xs i + refs_held ys i"
  by (induction xs i rule: refs_held.induct) simp_all

lemma counts_init:
  "length (counts_of (fi_init s mx)) = unat (div_ceil mx 4096)"
  "i < unat (div_ceil mx 4096) \<Longrightarrow> counts_of (fi_init s mx) ! i = 0"
  "deferred_of (fi_init s mx) = []"
  by (simp_all add: fi_init_def counts_of_def deferred_of_def)

lemma fi_count_eq:
  "frame_index p < length (counts_of s) \<Longrightarrow> fi_count s p = counts_of s ! frame_index p"
  by (auto simp: fi_count_def counts_of_def split: option.splits)

lemma replicate_held: "refs_held (replicate n (Inc p)) (frame_index p) = int n"
  by (induction n) simp_all

text \<open>
  C19. As long as a frame has between 0 and 65535 references, its count is exactly the number of
  references taken and not dropped, and dropping one queues the frame for release exactly when
  it was the last.
\<close>

theorem refcount_exact:
  assumes "frame_index p < unat (div_ceil mx 4096)"
    and "0 \<le> refs_held ops (frame_index p)" and "refs_held ops (frame_index p) < 65536"
  shows "uint (fi_count (run_refs (fi_init s mx) ops) p) = refs_held ops (frame_index p)
    \<and> (deferred_of (snd (fi_decrement (run_refs (fi_init s mx) ops) p)) =
         (if refs_held ops (frame_index p) = 1
          then deferred_of (run_refs (fi_init s mx) ops) @ [p]
          else deferred_of (run_refs (fi_init s mx) ops)))"
proof -
  let ?h = "refs_held ops (frame_index p)" and ?s = "run_refs (fi_init s mx) ops"
  have c: "counts_of ?s ! frame_index p = of_int ?h" and len: "frame_index p < length (counts_of ?s)"
    using assms(1) run_refs_counts [of "frame_index p" "fi_init s mx" ops] by (simp_all add: counts_init)
  have u: "uint (of_int ?h :: 16 word) = ?h"
    using assms(2,3) by (simp add: uint_word_of_int take_bit_int_eq_self)
  then have "(of_int ?h :: 16 word) = 1 \<longleftrightarrow> ?h = 1" by (metis of_int_1 uint_1)
  with u show ?thesis using len c by (simp add: fi_count_eq deferred_dec)
qed

text \<open>
  C20. The 16-bit count wraps: a frame with 65537 references counts one, and dropping a single
  reference then queues it for release while 65536 references remain.
\<close>

theorem refcount_wraps:
  assumes "frame_index p < unat (div_ceil mx 4096)"
  shows "fi_count (run_refs (fi_init s mx) (replicate 65537 (Inc p))) p = 1
    \<and> deferred_of (run_refs (fi_init s mx) (replicate 65537 (Inc p) @ [Dec p])) = [p]
    \<and> refs_held (replicate 65537 (Inc p) @ [Dec p]) (frame_index p) = 65536"
proof -
  let ?s = "run_refs (fi_init s mx) (replicate 65537 (Inc p))"
  have "counts_of ?s ! frame_index p = of_int (int 65537)"
    using assms run_refs_counts [of "frame_index p" "fi_init s mx"] by (simp add: counts_init replicate_held)
  then have c: "counts_of ?s ! frame_index p = 1" by simp
  have len: "frame_index p < length (counts_of ?s)" using assms by (simp add: counts_init)
  have "deferred_of (run_refs t (replicate n (Inc p))) = deferred_of t" for t n
    by (induction n arbitrary: t) simp_all
  then have "deferred_of ?s = []" by (simp add: counts_init)
  with c len show ?thesis
    by (simp add: fi_count_eq run_refs_append deferred_dec refs_held_append replicate_held)
qed

definition demo_frames :: frame_state where
  "demo_frames = \<lparr>refcounts = None, allocated_frames = 0, high_water_mark = 0, fs_buddy = demo_buddy\<rparr>"

lemma demo_index: "frame_index 0x3000 = 3" "unat (div_ceil 0x10000 4096) = 16"
  by (simp_all add: frame_index_def div_ceil_def)

theorem refcount_exact_witness:
  "uint (fi_count (run_refs (fi_init demo_frames 0x10000) [Inc 0x3000, Inc 0x3008, Dec 0x3000]) 0x3000) = 1
   \<and> deferred_of (snd (fi_decrement
       (run_refs (fi_init demo_frames 0x10000) [Inc 0x3000, Inc 0x3008, Dec 0x3000]) 0x3000)) = [0x3000]"
proof -
  let ?ops = "[Inc 0x3000, Inc 0x3008, Dec 0x3000]"
  have held: "refs_held ?ops (frame_index 0x3000) = 1" by (simp add: frame_index_def)
  have "deferred_of (run_refs (fi_init demo_frames 0x10000) ?ops) = []"
    by (simp add: deferred_dec counts_inc counts_init frame_index_def div_ceil_def)
  then show ?thesis
    using refcount_exact [of "0x3000" "0x10000" ?ops demo_frames] held by (simp add: demo_index)
qed

theorem refcount_wraps_witness:
  "fi_count (run_refs (fi_init demo_frames 0x10000) (replicate 65537 (Inc 0x3000))) 0x3000 = 1"
  using refcount_wraps [of "0x3000" "0x10000" demo_frames] by (simp add: demo_index)

section \<open>Returning frames\<close>

lemma page_blocks_apart:
  assumes "blk_ok lim p 0" and "blk_ok lim q 0" and "p \<noteq> q"
  shows "blk p 0 \<inter> blk q 0 = {}"
proof (rule ccontr)
  assume "blk p 0 \<inter> blk q 0 \<noteq> {}"
  then obtain x where x: "x \<in> blk p 0" "x \<in> blk q 0" by blast
  have "blk p 0 \<subseteq> blk q 0" "blk q 0 \<subseteq> blk p 0"
    using assms(1,2) x blk_nested [of 0 p 0 q x] blk_nested [of 0 q 0 p x] by (simp_all add: blk_ok_def)
  then have "unat p = unat q" using mem_blk [of p 0] mem_blk [of q 0] by (auto simp: blk_def)
  then show False using assms(3) by (simp add: word_unat_eq_iff)
qed

lemma deallocate_frame_ok:
  assumes wf: "buddy_wf env lim (fs_buddy s)" and p: "blk_ok lim p 0"
    and apart: "blk p 0 \<inter> free_of env lim (fs_buddy s) = {}"
  shows "\<exists>b. deallocate_frame env s p = Some (s\<lparr>allocated_frames := allocated_frames s - 1, fs_buddy := b\<rparr>)
    \<and> buddy_wf env lim b \<and> free_of env lim b = free_of env lim (fs_buddy s) \<union> blk p 0"
  using ba.dealloc_total [OF wf p apart] by (auto simp: deallocate_frame_def track_dealloc_def)

lemma free_frames_ok:
  assumes "buddy_wf env lim (fs_buddy s)" and "distinct ps" and "\<forall>p\<in>set ps. blk_ok lim p 0 \<and> frame_of p = p"
    and "\<forall>p\<in>set ps. blk p 0 \<inter> free_of env lim (fs_buddy s) = {}"
  shows "\<exists>b. free_frames env frame_of s ps =
      Some (s\<lparr>allocated_frames := allocated_frames s - of_nat (length ps), fs_buddy := b\<rparr>)
    \<and> buddy_wf env lim b
    \<and> free_of env lim b = free_of env lim (fs_buddy s) \<union> (\<Union>p\<in>set ps. blk p 0)"
  using assms
proof (induction ps arbitrary: s)
  case Nil
  then show ?case by (auto intro!: exI [of _ "fs_buddy s"])
next
  case (Cons p ps)
  obtain b where b: "deallocate_frame env s p = Some (s\<lparr>allocated_frames := allocated_frames s - 1, fs_buddy := b\<rparr>)"
    "buddy_wf env lim b" "free_of env lim b = free_of env lim (fs_buddy s) \<union> blk p 0"
    using deallocate_frame_ok [of env lim s p] Cons.prems by auto
  let ?s = "s\<lparr>allocated_frames := allocated_frames s - 1, fs_buddy := b\<rparr>"
  have "blk q 0 \<inter> free_of env lim b = {}" if "q \<in> set ps" for q
  proof -
    have "blk q 0 \<inter> blk p 0 = {}" using Cons.prems that by (intro page_blocks_apart) auto
    then show ?thesis unfolding b(3) using Cons.prems(4) that by auto
  qed
  with Cons.IH [of ?s] Cons.prems b show ?case by (auto simp: Un_assoc diff_diff_eq)
qed

text \<open>
  C18. Draining the deferred queue gives exactly the queued frames back to the buddy allocator,
  empties the queue, and lowers the allocation count by their number.
\<close>

theorem drain_deferred_exact:
  assumes "buddy_wf env lim (fs_buddy s)" and "refcounts s = Some tbl" and "distinct (rc_deferred tbl)"
    and "\<forall>p\<in>set (rc_deferred tbl). blk_ok lim p 0 \<and> frame_of p = p"
    and "\<forall>p\<in>set (rc_deferred tbl). blk p 0 \<inter> free_of env lim (fs_buddy s) = {}"
  shows "\<exists>s'. drain_deferred env frame_of s = Some s' \<and> deferred_of s' = [] \<and> counts_of s' = rc_counts tbl
    \<and> allocated_frames s' = allocated_frames s - of_nat (length (rc_deferred tbl))
    \<and> buddy_wf env lim (fs_buddy s')
    \<and> free_of env lim (fs_buddy s') = free_of env lim (fs_buddy s) \<union> (\<Union>p\<in>set (rc_deferred tbl). blk p 0)"
  using free_frames_ok [of env lim "s\<lparr>refcounts := Some (tbl\<lparr>rc_deferred := []\<rparr>)\<rparr>" "rc_deferred tbl" frame_of] assms
  by (auto simp: drain_deferred_def deferred_of_def counts_of_def)

theorem drain_deferred_exact_witness:
  "\<exists>s'. drain_deferred demo_env (\<lambda>a. a)
       (demo_frames\<lparr>refcounts := Some \<lparr>rc_counts = replicate 16 0, rc_deferred = [0x3000, 0x8000]\<rparr>\<rparr>) = Some s'
     \<and> deferred_of s' = []
     \<and> free_of demo_env 0x200000 (fs_buddy s') =
         {0x100000 ..< 0x101000} \<union> ({0x3000 ..< 0x4000} \<union> {0x8000 ..< 0x9000})"
proof -
  let ?tbl = "\<lparr>rc_counts = replicate 16 0, rc_deferred = [0x3000, 0x8000]\<rparr>"
  have b: "fs_buddy (demo_frames\<lparr>refcounts := Some ?tbl\<rparr>) = demo_buddy" by (simp add: demo_frames_def)
  show ?thesis
    using drain_deferred_exact [of demo_env "0x200000" "demo_frames\<lparr>refcounts := Some ?tbl\<rparr>" ?tbl "\<lambda>a. a"]
    unfolding b demo_free using demo_buddy_wf by (auto simp: blk_ok_def blk_def)
qed

end
