(* ===== verification/Swap.thy ===== *)
theory Swap
  imports FrameInfo
begin

text \<open>
  Swapping pages to devices, \<^verbatim>\<open>crates/memory/src/swap.rs\<close>. A device's read and write callbacks
  are parameters: \<open>rd d n\<close> is what device \<open>d\<close> returns for a read of at most \<open>n\<close> bytes
  (\<open>None\<close> for an error) and \<open>wr d buf\<close> whether the write succeeds. The content of a physical
  page is a list of bytes.
\<close>

record swap_device =
  slot_count :: nat
  slots :: "bool list"
  page_count :: u64

record swap_state =
  swap_devices :: "swap_device list"
  swap_page_map :: "u64 \<Rightarrow> (nat \<times> nat) option"
  sw_frames :: frame_state
  sw_pages :: "u64 \<Rightarrow> u8 list"

definition swap_read :: "(nat \<Rightarrow> nat \<Rightarrow> u8 list option) \<Rightarrow> nat \<Rightarrow> u8 list option" where
  "swap_read rd d =
     (case rd d 4096 of
        None \<Rightarrow> None
      | Some data \<Rightarrow> (let len = min (length data) 4096 in Some (take len data @ replicate (4096 - len) 0)))"

definition set_slot :: "swap_state \<Rightarrow> nat \<Rightarrow> nat \<Rightarrow> bool \<Rightarrow> u64 \<Rightarrow> swap_state" where
  "set_slot st d s used cnt =
     (let dev = swap_devices st ! d in
      st\<lparr>swap_devices := (swap_devices st)[d := dev\<lparr>slots := (slots dev)[s := used],
                                                     page_count := page_count dev + cnt\<rparr>]\<rparr>)"

definition allocate_swap_slot :: "swap_state \<Rightarrow> nat \<Rightarrow> nat option \<times> swap_state" where
  "allocate_swap_slot st d =
     (if d < length (swap_devices st) then
        (case position Not (slots (swap_devices st ! d)) of
           Some i \<Rightarrow> (Some i, set_slot st d i True 1)
         | None \<Rightarrow> (None, st))
      else (None, st))"

definition free_swap_slot :: "swap_state \<Rightarrow> nat \<Rightarrow> nat \<Rightarrow> swap_state" where
  "free_swap_slot st d s =
     (if d < length (swap_devices st) \<and> s < length (slots (swap_devices st ! d))
      then set_slot st d s False (- 1) else st)"

definition slot_free :: "swap_device \<Rightarrow> nat \<Rightarrow> bool" where
  "slot_free dev s \<longleftrightarrow> s < length (slots dev) \<and> \<not> slots dev ! s"

text \<open>The nested loop of \<^verbatim>\<open>swap_out_page\<close>: the first free slot of the first device that has one.\<close>

fun first_free_slot :: "swap_device list \<Rightarrow> nat \<Rightarrow> (nat \<times> nat) option" where
  "first_free_slot [] d = None"
| "first_free_slot (dev # devs) d =
     (case position (slot_free dev) [0..<slot_count dev] of
        Some s \<Rightarrow> Some (d, s)
      | None \<Rightarrow> first_free_slot devs (Suc d))"

definition swap_out_page ::
  "(nat \<Rightarrow> u8 list \<Rightarrow> bool) \<Rightarrow> swap_state \<Rightarrow> u64 \<Rightarrow> u64 \<Rightarrow> bool \<times> swap_state" where
  "swap_out_page wr st virt_page_addr phys_addr =
     (if swap_devices st = [] then (False, st)
      else case first_free_slot (swap_devices st) 0 of
        None \<Rightarrow> (False, st)
      | Some (d, s) \<Rightarrow>
          (let st1 = set_slot st d s True 1;
               buffer = sw_pages st phys_addr
           in if d < length (swap_devices st1) \<and> \<not> wr d buffer then (False, free_swap_slot st1 d s)
              else (True, st1\<lparr>swap_page_map := (swap_page_map st1)(virt_page_addr \<mapsto> (d, s))\<rparr>)))"

definition swap_in_page ::
  "phys_env \<Rightarrow> (u64 \<Rightarrow> u64) \<Rightarrow> (nat \<Rightarrow> nat \<Rightarrow> u8 list option) \<Rightarrow> swap_state \<Rightarrow> u64
     \<Rightarrow> (u64 option \<times> swap_state) option" where
  "swap_in_page env frame_of rd st virt_page_addr =
     (case swap_page_map st virt_page_addr of
        None \<Rightarrow> Some (None, st)
      | Some (d, s) \<Rightarrow>
          (let st1 = st\<lparr>swap_page_map := (swap_page_map st)(virt_page_addr := None)\<rparr> in
           if \<not> d < length (swap_devices st1) then Some (None, st1)
           else case swap_read rd d of
             None \<Rightarrow> Some (None, st1)
           | Some buffer \<Rightarrow>
               (case allocate_frame env frame_of (swap_devices st1 = []) (sw_frames st1) of
                  None \<Rightarrow> None
                | Some (None, fs) \<Rightarrow> Some (None, st1\<lparr>sw_frames := fs\<rparr>)
                | Some (Some phys, fs) \<Rightarrow>
                    (let st2 = st1\<lparr>sw_frames := fs, sw_pages := (sw_pages st1)(phys := buffer)\<rparr>;
                         st3 = free_swap_slot st2 d s
                     in Some (Some phys, st3\<lparr>sw_frames := fi_increment (sw_frames st3) phys\<rparr>)))))"

section \<open>Slots and the page map\<close>

definition used_slots :: "swap_device \<Rightarrow> nat" where
  "used_slots dev = length (filter id (slots dev))"

definition swap_wf :: "swap_state \<Rightarrow> bool" where
  "swap_wf st \<longleftrightarrow>
     (\<forall>v d s. swap_page_map st v = Some (d, s) \<longrightarrow>
        d < length (swap_devices st) \<and> s < length (slots (swap_devices st ! d)) \<and> slots (swap_devices st ! d) ! s)
     \<and> (\<forall>v w x. swap_page_map st v = Some x \<and> swap_page_map st w = Some x \<longrightarrow> v = w)
     \<and> (\<forall>dev\<in>set (swap_devices st). page_count dev = of_nat (used_slots dev))"

lemma filter_id_set_True:
  "i < length xs \<Longrightarrow> \<not> xs ! i \<Longrightarrow> length (filter id (xs[i := True])) = Suc (length (filter id xs))"
  by (induction xs arbitrary: i) (auto split: nat.split simp: less_Suc_eq_0_disj)

lemma filter_id_set_False:
  "i < length xs \<Longrightarrow> xs ! i \<Longrightarrow> Suc (length (filter id (xs[i := False]))) = length (filter id xs)"
  by (induction xs arbitrary: i) (auto split: nat.split simp: less_Suc_eq_0_disj)

lemma first_free_slot_Some:
  "first_free_slot devs k = Some (d, s) \<Longrightarrow>
   k \<le> d \<and> d - k < length devs \<and> slot_free (devs ! (d - k)) s"
proof (induction devs k rule: first_free_slot.induct)
  case (2 dev devs k)
  show ?case
  proof (cases "position (slot_free dev) [0..<slot_count dev]")
    case None
    with 2 have "Suc k \<le> d \<and> d - Suc k < length devs \<and> slot_free (devs ! (d - Suc k)) s" by simp
    then show ?thesis by (auto simp: nth_Cons' Suc_diff_Suc)
  next
    case (Some t)
    with 2(2) show ?thesis by (auto simp: position_Some_iff)
  qed
qed simp

lemma swap_wfD:
  assumes "swap_wf st"
  shows "swap_page_map st v = Some (d, s) \<Longrightarrow> d < length (swap_devices st)
      \<and> s < length (slots (swap_devices st ! d)) \<and> slots (swap_devices st ! d) ! s"
    and "swap_page_map st v = Some x \<Longrightarrow> swap_page_map st w = Some x \<Longrightarrow> v = w"
    and "dev \<in> set (swap_devices st) \<Longrightarrow> page_count dev = of_nat (used_slots dev)"
  using assms unfolding swap_wf_def by blast+

lemma swap_wfI:
  assumes "\<And>v d s. swap_page_map st v = Some (d, s) \<Longrightarrow> d < length (swap_devices st)
      \<and> s < length (slots (swap_devices st ! d)) \<and> slots (swap_devices st ! d) ! s"
    and "\<And>v w x. swap_page_map st v = Some x \<Longrightarrow> swap_page_map st w = Some x \<Longrightarrow> v = w"
    and "\<And>dev. dev \<in> set (swap_devices st) \<Longrightarrow> page_count dev = of_nat (used_slots dev)"
  shows "swap_wf st"
  using assms unfolding swap_wf_def by blast

lemma set_slot_map [simp]: "swap_page_map (set_slot st d s u c) = swap_page_map st"
  "length (swap_devices (set_slot st d s u c)) = length (swap_devices st)"
  by (simp_all add: set_slot_def Let_def)

lemma set_slot_dev:
  assumes "d' < length (swap_devices st)"
  shows "length (slots (swap_devices (set_slot st d s u c) ! d')) = length (slots (swap_devices st ! d'))"
    and "slots (swap_devices (set_slot st d s u c) ! d') =
          (if d' = d then (slots (swap_devices st ! d))[s := u] else slots (swap_devices st ! d'))"
  using assms by (cases "d' = d"; simp add: set_slot_def Let_def)+

lemma set_slot_counts:
  assumes wf: "\<And>dev. dev \<in> set (swap_devices st) \<Longrightarrow> page_count dev = of_nat (used_slots dev)"
    and new: "page_count (swap_devices st ! d) + c =
        of_nat (length (filter id ((slots (swap_devices st ! d))[s := u])))"
    and mem: "dev \<in> set (swap_devices (set_slot st d s u c))"
  shows "page_count dev = of_nat (used_slots dev)"
proof -
  let ?dev = "swap_devices st ! d"
  have "dev = ?dev\<lparr>slots := (slots ?dev)[s := u], page_count := page_count ?dev + c\<rparr> \<or> dev \<in> set (swap_devices st)"
    using mem set_update_subset_insert [of "swap_devices st" d] by (auto simp: set_slot_def Let_def)
  then show ?thesis using wf new by (auto simp: used_slots_def)
qed

lemma swap_mark_wf:
  assumes wf: "swap_wf st" and d: "d < length (swap_devices st)" and free: "slot_free (swap_devices st ! d) s"
  shows "swap_wf (set_slot st d s True 1)" and "swap_page_map st v \<noteq> Some (d, s)"
proof -
  note W = swap_wfD [OF wf]
  show "swap_page_map st v \<noteq> Some (d, s)" using W(1) [of v d s] free by (auto simp: slot_free_def)
  show "swap_wf (set_slot st d s True 1)"
  proof (rule swap_wfI)
    fix v d' s' assume "swap_page_map (set_slot st d s True 1) v = Some (d', s')"
    then have "d' < length (swap_devices st) \<and> s' < length (slots (swap_devices st ! d'))
        \<and> slots (swap_devices st ! d') ! s'" using W(1) by simp
    then show "d' < length (swap_devices (set_slot st d s True 1))
        \<and> s' < length (slots (swap_devices (set_slot st d s True 1) ! d'))
        \<and> slots (swap_devices (set_slot st d s True 1) ! d') ! s'"
      by (cases "s' = s") (auto simp: set_slot_dev)
  next
    fix dev assume "dev \<in> set (swap_devices (set_slot st d s True 1))"
    then show "page_count dev = of_nat (used_slots dev)"
      by (rule set_slot_counts [rotated 2])
        (use W(3) d free in \<open>auto simp: used_slots_def slot_free_def filter_id_set_True\<close>)
  qed (use W(2) in auto)
qed

lemma swap_unmark_wf:
  assumes wf: "swap_wf st" and d: "d < length (swap_devices st)" "s < length (slots (swap_devices st ! d))"
    and used: "slots (swap_devices st ! d) ! s" and unmapped: "\<And>v. swap_page_map st v \<noteq> Some (d, s)"
  shows "swap_wf (free_swap_slot st d s)"
proof -
  note W = swap_wfD [OF wf]
  have eq: "free_swap_slot st d s = set_slot st d s False (- 1)" using d by (simp add: free_swap_slot_def)
  show ?thesis unfolding eq
  proof (rule swap_wfI)
    fix v d' s' assume v: "swap_page_map (set_slot st d s False (- 1)) v = Some (d', s')"
    then have "d' < length (swap_devices st) \<and> s' < length (slots (swap_devices st ! d'))
        \<and> slots (swap_devices st ! d') ! s'" and "(d', s') \<noteq> (d, s)" using W(1) unmapped [of v] by auto
    then show "d' < length (swap_devices (set_slot st d s False (- 1)))
        \<and> s' < length (slots (swap_devices (set_slot st d s False (- 1)) ! d'))
        \<and> slots (swap_devices (set_slot st d s False (- 1)) ! d') ! s'"
      by (auto simp: set_slot_dev)
  next
    fix dev assume dev: "dev \<in> set (swap_devices (set_slot st d s False (- 1)))"
    have k: "used_slots (swap_devices st ! d) = Suc (length (filter id ((slots (swap_devices st ! d))[s := False])))"
      using d(2) used by (simp add: used_slots_def filter_id_set_False)
    have "of_nat (used_slots (swap_devices st ! d)) + - 1
        = (of_nat (length (filter id ((slots (swap_devices st ! d))[s := False]))) :: u64)"
      unfolding k by simp
    then show "page_count dev = of_nat (used_slots dev)"
      using W(3) [of "swap_devices st ! d"] d(1) by (intro set_slot_counts [OF W(3) _ dev]) auto
  qed (use W(2) in auto)
qed

lemma swap_wf_frame [simp]:
  "swap_wf (st\<lparr>sw_frames := f\<rparr>) = swap_wf st" "swap_wf (st\<lparr>sw_pages := p\<rparr>) = swap_wf st"
  by (simp_all add: swap_wf_def)

lemma swap_unmap_wf: "swap_wf st \<Longrightarrow> swap_wf (st\<lparr>swap_page_map := (swap_page_map st)(v := None)\<rparr>)"
  unfolding swap_wf_def by (auto split: if_splits)

lemma swap_map_wf:
  assumes "swap_wf st" and "d < length (swap_devices st)" "s < length (slots (swap_devices st ! d))"
    and "slots (swap_devices st ! d) ! s" and "\<And>v. swap_page_map st v \<noteq> Some (d, s)"
  shows "swap_wf (st\<lparr>swap_page_map := (swap_page_map st)(v \<mapsto> (d, s))\<rparr>)"
  using assms unfolding swap_wf_def by (auto split: if_splits)

text \<open>
  C23. Swapping pages out and in keeps the slot tables sound: every mapped page has its own slot, the
  slot is marked used, and every device's page count is the number of its used slots. A page
  that was swapped out is mapped to a slot that was free before.
\<close>

theorem swap_slots_sound:
  assumes "swap_wf st"
  shows "swap_wf (snd (swap_out_page wr st v phys))
    \<and> (\<forall>r st'. swap_in_page env frame_of rd st v = Some (r, st') \<longrightarrow> swap_wf st')
    \<and> (fst (swap_out_page wr st v phys) \<longrightarrow>
        (\<exists>d s. swap_page_map (snd (swap_out_page wr st v phys)) v = Some (d, s)
              \<and> slot_free (swap_devices st ! d) s \<and> wr d (sw_pages st phys)))"
proof -
  have out: "swap_wf (snd (swap_out_page wr st v phys))
    \<and> (fst (swap_out_page wr st v phys) \<longrightarrow>
        (\<exists>d s. swap_page_map (snd (swap_out_page wr st v phys)) v = Some (d, s)
              \<and> slot_free (swap_devices st ! d) s \<and> wr d (sw_pages st phys)))"
  proof (cases "first_free_slot (swap_devices st) 0")
    case None
    then show ?thesis using assms by (simp add: swap_out_page_def)
  next
    case (Some p)
    obtain d s where p: "p = (d, s)" by fastforce
    with first_free_slot_Some [of "swap_devices st" 0 d s] Some
    have d: "d < length (swap_devices st)" and free: "slot_free (swap_devices st ! d) s" by auto
    let ?st = "set_slot st d s True 1"
    have unmapped: "swap_page_map st w \<noteq> Some (d, s)" for w using swap_mark_wf(2) [OF assms d free] .
    have used: "slots (swap_devices ?st ! d) ! s" and len: "s < length (slots (swap_devices ?st ! d))"
      using free d by (simp_all add: set_slot_dev slot_free_def)
    have wf1: "swap_wf ?st" using swap_mark_wf(1) [OF assms d free] .
    have "swap_wf (free_swap_slot ?st d s)"
      by (rule swap_unmark_wf [OF wf1]) (use d used len unmapped in auto)
    moreover have "swap_wf (?st\<lparr>swap_page_map := (swap_page_map ?st)(v \<mapsto> (d, s))\<rparr>)"
      by (rule swap_map_wf [OF wf1]) (use d used len unmapped in auto)
    moreover have "swap_devices st \<noteq> []" using d by auto
    ultimately show ?thesis using Some p d free by (auto simp: swap_out_page_def Let_def)
  qed
  moreover have "swap_wf st'" if inn: "swap_in_page env frame_of rd st v = Some (r, st')" for r st'
  proof (cases "swap_page_map st v")
    case None
    then show ?thesis using inn assms by (simp add: swap_in_page_def)
  next
    case (Some p)
    obtain d s where p: "p = (d, s)" by fastforce
    note W = swap_wfD [OF assms]
    let ?st = "st\<lparr>swap_page_map := (swap_page_map st)(v := None)\<rparr>"
    have wf1: "swap_wf ?st" using assms by (rule swap_unmap_wf)
    have ds: "d < length (swap_devices st)" "s < length (slots (swap_devices st ! d))"
      "slots (swap_devices st ! d) ! s" using W(1) Some p by auto
    have "swap_page_map ?st w \<noteq> Some (d, s)" for w using W(2) [of v "(d, s)" w] Some p by auto
    then have "swap_wf (free_swap_slot (?st\<lparr>sw_frames := f, sw_pages := g\<rparr>) d s)" for f g
      using wf1 ds by (intro swap_unmark_wf) auto
    with inn Some p wf1 ds show ?thesis
      by (auto simp: swap_in_page_def Let_def split: option.splits if_splits)
  qed
  ultimately show ?thesis by blast
qed

definition demo_swap :: swap_state where
  "demo_swap = \<lparr>swap_devices = [\<lparr>slot_count = 2, slots = [True, False], page_count = 1\<rparr>],
                swap_page_map = (\<lambda>v. if v = 0x7000 then Some (0, 0) else None), sw_frames = demo_frames,
                sw_pages = (\<lambda>_. [])\<rparr>"

lemma demo_swap_wf: "swap_wf demo_swap"
  by (auto simp: swap_wf_def demo_swap_def used_slots_def split: if_splits)

theorem swap_slots_sound_witness:
  "swap_wf (snd (swap_out_page (\<lambda>_ _. True) demo_swap 0x9000 0x3000))
   \<and> swap_page_map (snd (swap_out_page (\<lambda>_ _. True) demo_swap 0x9000 0x3000)) 0x9000 = Some (0, 1)"
  using swap_slots_sound [OF demo_swap_wf, of "\<lambda>_ _. True" "0x9000" "0x3000" demo_env "\<lambda>a. a" "\<lambda>_ _. None"]
  by (simp add: swap_out_page_def demo_swap_def slot_free_def set_slot_def upt_conv_Cons)

text \<open>
  C24. When the device read of a swapped-out page fails, the page's mapping is removed although its
  slot stays in use: the page can never be read again and the slot is never freed.
\<close>

theorem swap_in_failure_loses_page:
  assumes "swap_wf st" and "swap_page_map st v = Some (d, s)" and "rd d 4096 = None"
  shows "\<exists>st'. swap_in_page env frame_of rd st v = Some (None, st') \<and> swap_page_map st' v = None
    \<and> slots (swap_devices st' ! d) ! s \<and> (\<forall>w. swap_page_map st' w \<noteq> Some (d, s))"
proof -
  let ?st = "st\<lparr>swap_page_map := (swap_page_map st)(v := None)\<rparr>"
  have d: "d < length (swap_devices st)" "slots (swap_devices st ! d) ! s"
    using swap_wfD(1) [OF assms(1,2)] by simp_all
  then have "swap_in_page env frame_of rd st v = Some (None, ?st)"
    using assms(2,3) by (simp add: swap_in_page_def swap_read_def)
  moreover have "swap_page_map ?st w \<noteq> Some (d, s)" for w
    using swap_wfD(2) [OF assms(1,2), of w] by auto
  ultimately show ?thesis using d(2) by auto
qed

theorem swap_in_failure_loses_page_witness:
  "\<exists>st'. swap_in_page demo_env (\<lambda>a. a) (\<lambda>_ _. None) demo_swap 0x7000 = Some (None, st')
     \<and> swap_page_map st' 0x7000 = None \<and> slots (swap_devices st' ! 0) ! 0"
  using swap_in_failure_loses_page [OF demo_swap_wf, of "0x7000" 0 0 "\<lambda>_ _. None" demo_env "\<lambda>a. a"]
  by (auto simp: demo_swap_def)

end
