(* ===== verification/Overcommit.thy ===== *)
theory Overcommit
  imports Prelude
begin

text \<open>
  The memory overcommit policy, \<^verbatim>\<open>crates/memory/src/overcommit.rs\<close>. The global atomics are the
  fields of one record and every operation runs to completion: the source reads and updates
  \<^verbatim>\<open>COMMITTED_PAGES\<close> in separate atomic steps, and the theorems are about histories of whole
  operations. Arithmetic is the wrapping 64-bit arithmetic of the release build.
\<close>

datatype overcommit_mode = Heuristic | Always | Strict

definition mode_from_u8 :: "u8 \<Rightarrow> overcommit_mode option" where
  "mode_from_u8 val =
     (if val = 0 then Some Heuristic
      else if val = 1 then Some Always
      else if val = 2 then Some Strict
      else None)"

primrec mode_num :: "overcommit_mode \<Rightarrow> usize" where
  "mode_num Heuristic = 0"
| "mode_num Always = 1"
| "mode_num Strict = 2"

record oc_state =
  oc_mode :: usize
  oc_ratio :: usize
  total_physical_pages :: usize
  committed_pages :: usize
  fault_denials :: usize
  vma_denials :: usize

definition oc_boot :: oc_state where
  "oc_boot = \<lparr>oc_mode = 0, oc_ratio = 50, total_physical_pages = 0, committed_pages = 0,
              fault_denials = 0, vma_denials = 0\<rparr>"

definition oc_init :: "oc_state \<Rightarrow> usize \<Rightarrow> oc_state" where
  "oc_init s total_pages = s\<lparr>total_physical_pages := total_pages\<rparr>"

definition set_mode :: "oc_state \<Rightarrow> u8 \<Rightarrow> (string + oc_state)" where
  "set_mode s mode =
     (case mode_from_u8 mode of
        None \<Rightarrow> Inl ''invalid overcommit mode (0, 1, or 2)''
      | Some m \<Rightarrow> Inr (s\<lparr>oc_mode := mode_num m\<rparr>))"

definition get_mode :: "oc_state \<Rightarrow> u8" where
  "get_mode s = ucast (oc_mode s)"

definition set_ratio :: "oc_state \<Rightarrow> usize \<Rightarrow> (string + oc_state)" where
  "set_ratio s ratio =
     (if ratio > 100 then Inl ''overcommit ratio must be 0..100'' else Inr (s\<lparr>oc_ratio := ratio\<rparr>))"

definition commit_limit :: "oc_state \<Rightarrow> usize" where
  "commit_limit s = (total_physical_pages s * oc_ratio s) div 100"

definition commit_pages :: "oc_state \<Rightarrow> usize \<Rightarrow> (u64 + unit) \<times> oc_state" where
  "commit_pages s pages =
     (let mode = get_mode s in
      if mode = 0 then
        (let tot = total_physical_pages s; current = committed_pages s; margin = tot div 2 in
         if saturating_add current pages > saturating_add tot margin
         then (Inl 12, s\<lparr>vma_denials := vma_denials s + 1\<rparr>)
         else (Inr (), s\<lparr>committed_pages := committed_pages s + pages\<rparr>))
      else if mode = 1 then (Inr (), s\<lparr>committed_pages := committed_pages s + pages\<rparr>)
      else if mode = 2 then
        (let limit = commit_limit s; current = committed_pages s in
         if saturating_add current pages > limit
         then (Inl 12, s\<lparr>vma_denials := vma_denials s + 1\<rparr>)
         else (Inr (), s\<lparr>committed_pages := committed_pages s + pages\<rparr>))
      else (Inl 12, s))"

definition uncommit_pages :: "oc_state \<Rightarrow> usize \<Rightarrow> oc_state" where
  "uncommit_pages s pages =
     (let prev = committed_pages s;
          s' = s\<lparr>committed_pages := prev - min pages prev\<rparr>
      in if prev < pages then s'\<lparr>committed_pages := 0\<rparr> else s')"

definition check_fault_commit :: "oc_state \<Rightarrow> bool \<times> oc_state" where
  "check_fault_commit s =
     (if get_mode s = 2 \<and> committed_pages s \<ge> commit_limit s
      then (False, s\<lparr>fault_denials := fault_denials s + 1\<rparr>)
      else (True, s))"

definition denial_stats :: "oc_state \<Rightarrow> usize \<times> usize" where
  "denial_stats s = (vma_denials s, fault_denials s)"

section \<open>Histories\<close>

datatype oc_op = Commit usize | Uncommit usize | Fault

fun oc_run :: "oc_state \<Rightarrow> oc_op list \<Rightarrow> oc_state" where
  "oc_run s [] = s"
| "oc_run s (Commit n # ops) = oc_run (snd (commit_pages s n)) ops"
| "oc_run s (Uncommit n # ops) = oc_run (uncommit_pages s n) ops"
| "oc_run s (Fault # ops) = oc_run (snd (check_fault_commit s)) ops"

lemma oc_config_kept [simp]:
  "oc_mode (snd (commit_pages s n)) = oc_mode s" "commit_limit (snd (commit_pages s n)) = commit_limit s"
  "oc_mode (uncommit_pages s n) = oc_mode s" "commit_limit (uncommit_pages s n) = commit_limit s"
  "oc_mode (snd (check_fault_commit s)) = oc_mode s"
  "commit_limit (snd (check_fault_commit s)) = commit_limit s"
  by (simp_all add: commit_pages_def uncommit_pages_def check_fault_commit_def commit_limit_def Let_def)

lemma committed_fault [simp]: "committed_pages (snd (check_fault_commit s)) = committed_pages s"
  by (simp add: check_fault_commit_def)

lemma committed_uncommit:
  "unat (committed_pages (uncommit_pages s n)) = unat (committed_pages s) - unat n"
  by (auto simp: uncommit_pages_def Let_def min_def word_le_nat_alt word_less_nat_alt unat_sub)

lemma saturating_le_exact:
  fixes a b c :: u64
  assumes "saturating_add a b \<le> c" and "c \<noteq> - 1"
  shows "unat (a + b) = unat a + unat b" and "unat a + unat b \<le> unat c"
proof -
  have "unat c < 2 ^ 64 - 1"
    using assms(2) unat_less_exp [of c] by (auto simp: word_unat_eq_iff unsigned_minus_1_eq_mask mask_eq_exp_minus_1)
  moreover have "min (unat a + unat b) (2 ^ 64 - 1) \<le> unat c"
    using assms(1) by (simp add: word_le_nat_alt unat_saturating_add)
  ultimately show le: "unat a + unat b \<le> unat c" by linarith
  then show "unat (a + b) = unat a + unat b" using unat_less_exp [of c] by (intro unat_add_exact) simp
qed

lemma commit_limit_bound: "commit_limit s \<noteq> - 1"
proof -
  have "unat (total_physical_pages s * oc_ratio s) \<le> 2 ^ 64 - 1"
    using unat_less_exp [of "total_physical_pages s * oc_ratio s"] by simp
  then have "unat (total_physical_pages s * oc_ratio s) div 100 \<le> (2 ^ 64 - 1) div 100"
    by (rule div_le_mono)
  then have "unat (commit_limit s) \<le> (2 ^ 64 - 1) div 100" by (simp add: commit_limit_def unat_div)
  then show ?thesis by (auto simp: unsigned_minus_1_eq_mask mask_eq_exp_minus_1)
qed

lemma commit_strict:
  assumes "oc_mode s = 2" and "unat (committed_pages s) \<le> unat (commit_limit s)"
  shows "unat (committed_pages (snd (commit_pages s n))) \<le> unat (commit_limit s)"
    and "fst (commit_pages s n) = Inr () \<longleftrightarrow> unat (committed_pages s) + unat n \<le> unat (commit_limit s)"
    and "unat (committed_pages (snd (commit_pages s n))) =
           unat (committed_pages s) + (if fst (commit_pages s n) = Inr () then unat n else 0)"
proof -
  have mode: "get_mode s = 2" using assms(1) by (simp add: get_mode_def)
  note E = saturating_le_exact [OF _ commit_limit_bound, of "committed_pages s" n s]
  have iff: "saturating_add (committed_pages s) n \<le> commit_limit s \<longleftrightarrow>
      unat (committed_pages s) + unat n \<le> unat (commit_limit s)"
  proof
    assume "unat (committed_pages s) + unat n \<le> unat (commit_limit s)"
    then show "saturating_add (committed_pages s) n \<le> commit_limit s"
      by (simp add: word_le_nat_alt unat_saturating_add)
  qed (use E in blast)
  show "unat (committed_pages (snd (commit_pages s n))) \<le> unat (commit_limit s)"
    and "fst (commit_pages s n) = Inr () \<longleftrightarrow> unat (committed_pages s) + unat n \<le> unat (commit_limit s)"
    and "unat (committed_pages (snd (commit_pages s n))) =
           unat (committed_pages s) + (if fst (commit_pages s n) = Inr () then unat n else 0)"
    using assms(2) E iff by (auto simp: commit_pages_def mode Let_def not_less)
qed


definition demo_oc :: oc_state where
  "demo_oc = oc_boot\<lparr>oc_mode := 2, total_physical_pages := 200\<rparr>"


text \<open>
  C22. A process that commits exactly up to the limit, which strict mode grants, is then denied the
  first fault on the pages it was granted: the fault check counts them a second time.
\<close>

theorem oc_granted_pages_fault:
  assumes "oc_mode s = 2" and "unat (committed_pages s) + unat n = unat (commit_limit s)"
  shows "fst (commit_pages s n) = Inr () \<and> \<not> fst (check_fault_commit (snd (commit_pages s n)))"
proof -
  have "get_mode (snd (commit_pages s n)) = 2" using assms(1) by (simp add: get_mode_def)
  moreover have "fst (commit_pages s n) = Inr ()"
    and "unat (committed_pages (snd (commit_pages s n))) = unat (commit_limit s)"
    using commit_strict [OF assms(1), of n] assms(2) by simp_all
  ultimately show ?thesis by (simp add: check_fault_commit_def word_le_nat_alt)
qed

theorem oc_granted_pages_fault_witness:
  "fst (commit_pages demo_oc 100) = Inr () \<and> \<not> fst (check_fault_commit (snd (commit_pages demo_oc 100)))"
  using oc_granted_pages_fault [of demo_oc 100] by (simp add: demo_oc_def oc_boot_def commit_limit_def)

end
