(* ===== verification/Bits.thy ===== *)
theory Bits
  imports Prelude
begin

text \<open>
  Bit-level facts the verifier and the file-system components share: the carry into a
  position of a sum, the number of leading zeros, and words that agree above a position.
\<close>

unbundle bit_operations_syntax

definition leading_zeros :: "'a::len word \<Rightarrow> nat" where
  "leading_zeros w = length (takeWhile (\<lambda>i. \<not> bit w (LENGTH('a) - 1 - i)) [0..<LENGTH('a)])"

lemma leading_zeros_le: "leading_zeros w \<le> LENGTH('a)"
  for w :: "'a::len word"
  using length_takeWhile_le [of "\<lambda>i. \<not> bit w (LENGTH('a) - 1 - i)" "[0..<LENGTH('a)]"]
  by (simp add: leading_zeros_def)

lemma leading_zeros_bit:
  fixes w :: "'a::len word"
  assumes "LENGTH('a) - leading_zeros w \<le> n"
  shows "\<not> bit w n"
proof (cases "n < LENGTH('a)")
  case True
  define P where "P = (\<lambda>i. \<not> bit w (LENGTH('a) - 1 - i))"
  have "LENGTH('a) - 1 - n < length (takeWhile P [0..<LENGTH('a)])"
    using assms True by (simp add: leading_zeros_def P_def)
  then have "P (takeWhile P [0..<LENGTH('a)] ! (LENGTH('a) - 1 - n))"
    by (meson nth_mem set_takeWhileD)
  moreover have "takeWhile P [0..<LENGTH('a)] ! (LENGTH('a) - 1 - n) = LENGTH('a) - 1 - n"
    using \<open>LENGTH('a) - 1 - n < length (takeWhile P [0..<LENGTH('a)])\<close>
    by (metis add_0 diff_less_Suc diff_zero length_greater_0_conv length_upt less_nat_zero_code
        linorder_not_less list.size(3) nth_upt takeWhile_nth order.strict_trans2
        length_takeWhile_le)
  ultimately show ?thesis using True by (simp add: P_def)
next
  case False
  then show ?thesis using bit_imp_le_length by blast
qed

lemma leading_zeros_eq_0: "bit w (LENGTH('a) - 1) \<Longrightarrow> leading_zeros w = 0"
  for w :: "'a::len word"
  by (simp add: leading_zeros_def upt_conv_Cons)

lemma unat_pow2:
  assumes "k < LENGTH('a)"
  shows "unat (2 ^ k :: 'a::len word) = 2 ^ k"
proof -
  have "unat (of_nat (2 ^ k) :: 'a word) = 2 ^ k mod 2 ^ LENGTH('a)"
    by (simp only: unat_of_nat take_bit_eq_mod)
  also have "\<dots> = 2 ^ k" using assms by (intro mod_less power_strict_increasing) simp_all
  finally show ?thesis by simp
qed

section \<open>Carries\<close>

definition carry :: "nat \<Rightarrow> 'a::len word \<Rightarrow> 'a word \<Rightarrow> bool" where
  "carry n a b \<longleftrightarrow> 2 ^ n \<le> unat a mod 2 ^ n + unat b mod 2 ^ n"

lemma odd_sum_div:
  "odd ((x + y) div 2 ^ n) \<longleftrightarrow>
     (odd (x div 2 ^ n) \<noteq> (odd (y div 2 ^ n) \<noteq> (2 ^ n \<le> x mod 2 ^ n + y mod 2 ^ n)))"
  for x y :: nat
proof -
  have lt: "x mod 2 ^ n < 2 ^ n" "y mod 2 ^ n < 2 ^ n" by simp_all
  have "(x + y) div 2 ^ n = x div 2 ^ n + y div 2 ^ n + (x mod 2 ^ n + y mod 2 ^ n) div 2 ^ n"
    by (rule div_add1_eq)
  moreover have "(x mod 2 ^ n + y mod 2 ^ n) div 2 ^ n = of_bool (2 ^ n \<le> x mod 2 ^ n + y mod 2 ^ n)"
  proof (cases "2 ^ n \<le> x mod 2 ^ n + y mod 2 ^ n")
    case True
    then have "(x mod 2 ^ n + y mod 2 ^ n) div 2 ^ n = 1"
      using add_strict_mono [OF lt] by (intro div_nat_eqI) simp_all
    then show ?thesis using True by simp
  qed (use lt in simp)
  ultimately show ?thesis by auto
qed

lemma bit_unsigned_nat: "n < LENGTH('a) \<Longrightarrow> odd (unat a div 2 ^ n) \<longleftrightarrow> bit a n"
  for a :: "'a::len word"
  using bit_iff_odd [of "unat a" n] by (simp add: bit_unsigned_iff)

lemma bit_add_carry:
  fixes a b :: "'a::len word"
  assumes "n < LENGTH('a)"
  shows "bit (a + b) n \<longleftrightarrow> (bit a n \<noteq> (bit b n \<noteq> carry n a b))"
proof -
  have "bit (a + b) n \<longleftrightarrow> bit (unat (a + b)) n"
    using assms by (simp add: bit_unsigned_iff)
  also have "\<dots> \<longleftrightarrow> bit (take_bit LENGTH('a) (unat a + unat b)) n"
    by (simp add: unat_word_ariths take_bit_eq_mod)
  also have "\<dots> \<longleftrightarrow> odd ((unat a + unat b) div 2 ^ n)"
    using assms bit_iff_odd [of "unat a + unat b" n] by (simp only: bit_take_bit_iff simp_thms)
  also have "\<dots> \<longleftrightarrow> (odd (unat a div 2 ^ n) \<noteq> (odd (unat b div 2 ^ n) \<noteq> carry n a b))"
    by (simp add: odd_sum_div carry_def)
  finally show ?thesis
    by (simp add: bit_unsigned_nat assms)
qed

lemma mod_mono_bits:
  fixes a b :: "'a::len word"
  assumes "\<And>i. i < n \<Longrightarrow> bit a i \<Longrightarrow> bit b i"
  shows "unat a mod 2 ^ n \<le> unat b mod 2 ^ n"
proof -
  have "take_bit n a OR take_bit n b = take_bit n b"
    by (rule bit_word_eqI) (auto simp: bit_simps assms)
  then have "take_bit n (unat a) OR take_bit n (unat b) = take_bit n (unat b)"
    by (metis unsigned_or_eq unsigned_take_bit_eq)
  moreover have "take_bit n (unat a) \<le> take_bit n (unat a) OR take_bit n (unat b)"
    by (metis OR_lower int_ops(1) nat_int of_nat_le_iff of_nat_or_eq of_nat_0_le_iff or_greater_eq)
  ultimately show ?thesis by (simp add: take_bit_eq_mod)
qed

lemma bits_le:
  fixes a b :: "'a::len word"
  assumes "\<And>i. bit a i \<Longrightarrow> bit b i"
  shows "a \<le> b"
proof -
  have "unat a mod 2 ^ LENGTH('a) \<le> unat b mod 2 ^ LENGTH('a)"
    by (rule mod_mono_bits) (rule assms)
  then show ?thesis by (simp add: word_le_nat_alt unsigned_less)
qed

lemma carry_mono:
  fixes a a' b b' :: "'a::len word"
  assumes "\<And>i. bit a i \<Longrightarrow> bit a' i" "\<And>i. bit b i \<Longrightarrow> bit b' i" "carry n a b"
  shows "carry n a' b'"
proof -
  have "unat a mod 2 ^ n \<le> unat a' mod 2 ^ n" by (rule mod_mono_bits) (rule assms(1))
  moreover have "unat b mod 2 ^ n \<le> unat b' mod 2 ^ n" by (rule mod_mono_bits) (rule assms(2))
  ultimately show ?thesis using assms(3) by (simp add: carry_def)
qed

lemma drop_bit_eq_bits:
  "drop_bit n a = drop_bit n b \<Longrightarrow> n \<le> i \<Longrightarrow> bit a i \<longleftrightarrow> bit b i"
  for a b :: "'a::len word"
  by (metis bit_drop_bit_eq comp_apply le_add_diff_inverse)

lemma drop_bit_between:
  fixes lo x hi :: "'a::len word"
  assumes "lo \<le> x" "x \<le> hi" "drop_bit n lo = drop_bit n hi"
  shows "drop_bit n x = drop_bit n lo"
proof -
  have "unat lo div 2 ^ n \<le> unat x div 2 ^ n" "unat x div 2 ^ n \<le> unat hi div 2 ^ n"
    using assms(1,2) by (simp_all add: div_le_mono word_le_nat_alt)
  moreover have "unat lo div 2 ^ n = unat hi div 2 ^ n"
    using arg_cong [OF assms(3), of unat]
    by (metis drop_bit_eq_div unat_drop_bit_eq)
  ultimately show ?thesis
    by (metis antisym drop_bit_eq_div unat_drop_bit_eq word_unat_eq_iff)
qed

end
