(* ===== verification/EbpfMaps.thy ===== *)
theory EbpfMaps
  imports Bits
begin

text \<open>
  The maps of the eBPF subsystem, \<^verbatim>\<open>kernel/src/ebpf/maps.rs\<close>: the association-list hash
  table, the array, the perf-event stub, the byte ring buffer with wrapping cursors, and the
  registry that numbers them. A trait object \<^verbatim>\<open>dyn Map\<close> is the datatype \<open>bpf_map\<close>; methods
  that mutate through a lock return the new map. Key and value slices are byte lists.
\<close>

unbundle bit_operations_syntax

type_synonym bytes = "u8 list"

section \<open>Hash table\<close>

record hash_table =
  ht_key_size :: usize
  ht_value_size :: usize
  ht_max_entries :: usize
  ht_entries :: "(bytes \<times> bytes) list"

definition ht_new :: "u32 \<Rightarrow> u32 \<Rightarrow> u32 \<Rightarrow> hash_table" where
  "ht_new key_sz value_sz max_ent =
    \<lparr>ht_key_size = ucast key_sz, ht_value_size = ucast value_sz, ht_max_entries = ucast max_ent,
     ht_entries = []\<rparr>"

definition ht_lookup :: "hash_table \<Rightarrow> bytes \<Rightarrow> bytes option" where
  "ht_lookup t key = map_of (ht_entries t) key"

text \<open>An update of a present key copies the common prefix over the stored value, whose length
  stays what the first insertion made it.\<close>

fun overwrite_first :: "(bytes \<times> bytes) list \<Rightarrow> bytes \<Rightarrow> bytes \<Rightarrow> (bytes \<times> bytes) list option" where
  "overwrite_first [] key val = None"
| "overwrite_first ((k, v) # es) key val =
    (if k = key then
       let copy_len = min (length v) (length val)
       in Some ((k, take copy_len val @ drop copy_len v) # es)
     else map_option (Cons (k, v)) (overwrite_first es key val))"

definition ht_update :: "hash_table \<Rightarrow> bytes \<Rightarrow> bytes \<Rightarrow> bool \<times> hash_table" where
  "ht_update t key val =
    (case overwrite_first (ht_entries t) key val of
       Some es \<Rightarrow> (True, t\<lparr>ht_entries := es\<rparr>)
     | None \<Rightarrow>
         if length (ht_entries t) < unat (ht_max_entries t)
         then (True, t\<lparr>ht_entries := ht_entries t @ [(key, val)]\<rparr>)
         else (False, t))"

definition ht_delete :: "hash_table \<Rightarrow> bytes \<Rightarrow> bool \<times> hash_table" where
  "ht_delete t key =
    (let before = length (ht_entries t); es = filter (\<lambda>(k, _). k \<noteq> key) (ht_entries t)
     in (length es < before, t\<lparr>ht_entries := es\<rparr>))"

definition ht_clear :: "hash_table \<Rightarrow> hash_table" where
  "ht_clear t = t\<lparr>ht_entries := []\<rparr>"

section \<open>Array\<close>

record array_map =
  am_value_size :: usize
  am_max_entries :: usize
  am_entries :: "bytes option list"

definition am_new :: "u32 \<Rightarrow> u32 \<Rightarrow> array_map" where
  "am_new value_sz max_ent =
    \<lparr>am_value_size = ucast value_sz, am_max_entries = ucast max_ent,
     am_entries = replicate (unat max_ent) None\<rparr>"

definition array_index :: "bytes \<Rightarrow> nat" where
  "array_index key = (if 4 \<le> length key then unat (from_ne_bytes (take 4 key) :: u32) else 0)"

definition am_lookup :: "array_map \<Rightarrow> bytes \<Rightarrow> bytes option" where
  "am_lookup t key =
    (let idx = array_index key
     in if idx < length (am_entries t) then am_entries t ! idx else None)"

definition am_update :: "array_map \<Rightarrow> bytes \<Rightarrow> bytes \<Rightarrow> bool \<times> array_map" where
  "am_update t key val =
    (let idx = array_index key
     in if idx < length (am_entries t)
        then (True, t\<lparr>am_entries := (am_entries t)[idx := Some val]\<rparr>) else (False, t))"

definition am_delete :: "array_map \<Rightarrow> bytes \<Rightarrow> bool \<times> array_map" where
  "am_delete t key =
    (let idx = array_index key
     in if idx < length (am_entries t)
        then (True, t\<lparr>am_entries := (am_entries t)[idx := None]\<rparr>) else (False, t))"

definition am_clear :: "array_map \<Rightarrow> array_map" where
  "am_clear t = t\<lparr>am_entries := map (\<lambda>_. None) (am_entries t)\<rparr>"

section \<open>Ring buffer\<close>

record ring_buf =
  rb_buf :: bytes
  rb_capacity :: usize
  rb_producer :: usize
  rb_consumer :: usize
  rb_lost :: u64

definition next_power_of_two :: "usize \<Rightarrow> usize" where
  "next_power_of_two p = (if p \<le> 1 then 0 else drop_bit (leading_zeros (p - 1)) (- 1)) + 1"

definition rb_new :: "usize \<Rightarrow> ring_buf" where
  "rb_new capacity =
    (let cap = max (next_power_of_two capacity) 256
     in \<lparr>rb_buf = replicate (unat cap) 0, rb_capacity = cap, rb_producer = 0, rb_consumer = 0,
         rb_lost = 0\<rparr>)"

text \<open>\<open>copy_at\<close> is \<^verbatim>\<open>buf[off..off + n].copy_from_slice(bs)\<close> for \<open>n = length bs\<close>.\<close>

definition copy_at :: "nat \<Rightarrow> bytes \<Rightarrow> bytes \<Rightarrow> bytes" where
  "copy_at off bs buf = take off buf @ bs @ drop (off + length bs) buf"

definition rb_reserve :: "ring_buf \<Rightarrow> usize \<Rightarrow> usize option \<times> ring_buf" where
  "rb_reserve r len =
    (let used = rb_producer r - rb_consumer r;
         free = rb_capacity r - used
     in if len > free then (None, r\<lparr>rb_lost := rb_lost r + len\<rparr>)
        else (Some (rb_producer r mod rb_capacity r), r\<lparr>rb_producer := rb_producer r + len\<rparr>))"

definition rb_consume :: "ring_buf \<Rightarrow> bytes \<Rightarrow> nat \<times> bytes \<times> ring_buf" where
  "rb_consume r dst =
    (let available = rb_producer r - rb_consumer r;
         to_read = min (length dst) (unat available)
     in if to_read = 0 then (0, dst, r)
        else
          let offset = unat (rb_consumer r mod rb_capacity r);
              first = min to_read (unat (rb_capacity r) - offset);
              dst1 = copy_at 0 (take first (drop offset (rb_buf r))) dst;
              dst2 = (if first < to_read then copy_at first (take (to_read - first) (rb_buf r)) dst1
                      else dst1)
          in (to_read, dst2, r\<lparr>rb_consumer := rb_consumer r + of_nat to_read\<rparr>))"

definition rb_lookup :: "ring_buf \<Rightarrow> bytes option \<times> ring_buf" where
  "rb_lookup r =
    (let (n, output, r') = rb_consume r (replicate 256 0)
     in if n = 0 then (None, r') else (Some (take n output), r'))"

definition rb_update :: "ring_buf \<Rightarrow> bytes \<Rightarrow> bool \<times> ring_buf" where
  "rb_update r val =
    (case rb_reserve r (of_nat (length val)) of
       (Some off, r') \<Rightarrow>
         (let offset = unat off;
              first = min (length val) (unat (rb_capacity r) - offset);
              buf1 = copy_at offset (take first val) (rb_buf r');
              buf2 = (if first < length val then copy_at 0 (drop first val) buf1 else buf1)
          in (True, r'\<lparr>rb_buf := buf2\<rparr>))
     | (None, r') \<Rightarrow> (False, r'))"

definition rb_delete :: "ring_buf \<Rightarrow> bool \<times> ring_buf" where
  "rb_delete r = (True, r\<lparr>rb_consumer := rb_producer r\<rparr>)"

definition rb_clear :: "ring_buf \<Rightarrow> ring_buf" where
  "rb_clear r = r\<lparr>rb_producer := 0, rb_consumer := 0, rb_lost := 0\<rparr>"

section \<open>The trait object and the registry\<close>

datatype bpf_map =
  HashTable hash_table | ArrayMap array_map | PerfEventArray usize | RingBuf ring_buf

fun map_lookup :: "bpf_map \<Rightarrow> bytes \<Rightarrow> bytes option \<times> bpf_map" where
  "map_lookup (HashTable t) key = (ht_lookup t key, HashTable t)"
| "map_lookup (ArrayMap t) key = (am_lookup t key, ArrayMap t)"
| "map_lookup (PerfEventArray n) key = (None, PerfEventArray n)"
| "map_lookup (RingBuf r) key = (let (res, r') = rb_lookup r in (res, RingBuf r'))"

fun map_update :: "bpf_map \<Rightarrow> bytes \<Rightarrow> bytes \<Rightarrow> bool \<times> bpf_map" where
  "map_update (HashTable t) key val = apsnd HashTable (ht_update t key val)"
| "map_update (ArrayMap t) key val = apsnd ArrayMap (am_update t key val)"
| "map_update (PerfEventArray n) key val = (False, PerfEventArray n)"
| "map_update (RingBuf r) key val = apsnd RingBuf (rb_update r val)"

fun map_delete :: "bpf_map \<Rightarrow> bytes \<Rightarrow> bool \<times> bpf_map" where
  "map_delete (HashTable t) key = apsnd HashTable (ht_delete t key)"
| "map_delete (ArrayMap t) key = apsnd ArrayMap (am_delete t key)"
| "map_delete (PerfEventArray n) key = (False, PerfEventArray n)"
| "map_delete (RingBuf r) key = apsnd RingBuf (rb_delete r)"

fun map_key_size :: "bpf_map \<Rightarrow> usize" where
  "map_key_size (HashTable t) = ht_key_size t"
| "map_key_size (ArrayMap t) = 4"
| "map_key_size (PerfEventArray n) = 4"
| "map_key_size (RingBuf r) = 4"

fun map_value_size :: "bpf_map \<Rightarrow> usize" where
  "map_value_size (HashTable t) = ht_value_size t"
| "map_value_size (ArrayMap t) = am_value_size t"
| "map_value_size (PerfEventArray n) = 4"
| "map_value_size (RingBuf r) = 64"

fun map_max_entries :: "bpf_map \<Rightarrow> usize" where
  "map_max_entries (HashTable t) = ht_max_entries t"
| "map_max_entries (ArrayMap t) = am_max_entries t"
| "map_max_entries (PerfEventArray n) = n"
| "map_max_entries (RingBuf r) = rb_capacity r div 64"

fun map_clear :: "bpf_map \<Rightarrow> bpf_map" where
  "map_clear (HashTable t) = HashTable (ht_clear t)"
| "map_clear (ArrayMap t) = ArrayMap (am_clear t)"
| "map_clear (PerfEventArray n) = PerfEventArray n"
| "map_clear (RingBuf r) = RingBuf (rb_clear r)"

type_synonym map_registry = "(usize \<times> bpf_map) list"

definition register_map :: "map_registry \<Rightarrow> bpf_map \<Rightarrow> usize \<times> map_registry" where
  "register_map reg m = (let mid = of_nat (length reg) + 1 in (mid, reg @ [(mid, m)]))"

definition get_map :: "map_registry \<Rightarrow> usize \<Rightarrow> bpf_map option" where
  "get_map reg mid = map_of reg mid"

text \<open>A lookup through the shared reference changes the registered map itself.\<close>

fun put_map :: "map_registry \<Rightarrow> usize \<Rightarrow> bpf_map \<Rightarrow> map_registry" where
  "put_map [] mid m = []"
| "put_map ((i, m') # reg) mid m = (if i = mid then (i, m) # reg else (i, m') # put_map reg mid m)"

section \<open>Key-value maps\<close>

text \<open>What a client of a key-value map relies on: the map stands for a partial function on the
  classes \<open>kc\<close> of keys, updates and deletions are the function updates, and an update says
  whether it took effect.\<close>

locale kv_map =
  fixes kv_inv :: "'m \<Rightarrow> bool"
    and kv_abs :: "'m \<Rightarrow> 'c \<Rightarrow> 'v option"
    and kc :: "'k \<Rightarrow> 'c"
    and val_ok :: "'m \<Rightarrow> 'v \<Rightarrow> bool"
    and lkp :: "'m \<Rightarrow> 'k \<Rightarrow> 'v option"
    and upd :: "'m \<Rightarrow> 'k \<Rightarrow> 'v \<Rightarrow> bool \<times> 'm"
    and del :: "'m \<Rightarrow> 'k \<Rightarrow> bool \<times> 'm"
  assumes lkp_abs: "kv_inv m \<Longrightarrow> lkp m k = kv_abs m (kc k)"
    and upd_law: "kv_inv m \<Longrightarrow> val_ok m v \<Longrightarrow> upd m k v = (b, m') \<Longrightarrow>
      kv_inv m' \<and> val_ok m' = val_ok m
        \<and> kv_abs m' = (if b then (kv_abs m)(kc k \<mapsto> v) else kv_abs m)"
    and upd_present: "kv_inv m \<Longrightarrow> val_ok m v \<Longrightarrow> kv_abs m (kc k) \<noteq> None \<Longrightarrow> fst (upd m k v)"
    and del_law: "kv_inv m \<Longrightarrow> del m k = (b, m') \<Longrightarrow>
      kv_inv m' \<and> val_ok m' = val_ok m \<and> kv_abs m' = (kv_abs m)(kc k := None)"
begin

fun run_kv :: "'m \<Rightarrow> ('k \<times> 'v option) list \<Rightarrow> 'm" where
  "run_kv m [] = m"
| "run_kv m ((k, Some v) # ops) = run_kv (snd (upd m k v)) ops"
| "run_kv m ((k, None) # ops) = run_kv (snd (del m k)) ops"

fun granted :: "'m \<Rightarrow> ('k \<times> 'v option) list \<Rightarrow> bool" where
  "granted m [] = True"
| "granted m ((k, Some v) # ops) = (val_ok m v \<and> fst (upd m k v) \<and> granted (snd (upd m k v)) ops)"
| "granted m ((k, None) # ops) = granted (snd (del m k)) ops"

definition spec_kv :: "('c \<Rightarrow> 'v option) \<Rightarrow> ('k \<times> 'v option) list \<Rightarrow> 'c \<Rightarrow> 'v option" where
  "spec_kv f ops = foldl (\<lambda>g (k, w). g(kc k := w)) f ops"

lemma run_kv_abs:
  assumes "kv_inv m" "granted m ops"
  shows "kv_inv (run_kv m ops) \<and> kv_abs (run_kv m ops) = spec_kv (kv_abs m) ops"
  using assms
proof (induction m ops rule: run_kv.induct)
  case (1 m)
  then show ?case by (simp add: spec_kv_def)
next
  case (2 m k v ops)
  then show ?case using upd_law [of m v k True "snd (upd m k v)"]
    by (cases "upd m k v") (simp add: spec_kv_def)
next
  case (3 m k ops)
  then show ?case using del_law [of m k "fst (del m k)" "snd (del m k)"]
    by (simp add: spec_kv_def fun_upd_def)
qed

lemma lookup_after_run:
  assumes "kv_inv m" "granted m ops"
  shows "lkp (run_kv m ops) k = spec_kv (kv_abs m) ops (kc k)"
  using run_kv_abs [OF assms] by (simp add: lkp_abs)

end

definition ht_val_ok :: "hash_table \<Rightarrow> bytes \<Rightarrow> bool" where
  "ht_val_ok t v \<longleftrightarrow> length v = unat (ht_value_size t)"

definition ht_inv :: "hash_table \<Rightarrow> bool" where
  "ht_inv t \<longleftrightarrow> distinct (map fst (ht_entries t)) \<and> length (ht_entries t) \<le> unat (ht_max_entries t)
    \<and> (\<forall>v \<in> snd ` set (ht_entries t). ht_val_ok t v)"

definition ht_abs :: "hash_table \<Rightarrow> bytes \<Rightarrow> bytes option" where
  "ht_abs t = map_of (ht_entries t)"

lemma overwrite_first_None: "overwrite_first es k v = None \<longleftrightarrow> k \<notin> fst ` set es"
  by (induction es k v rule: overwrite_first.induct) (auto simp: Let_def)

lemma overwrite_first_Some:
  assumes "overwrite_first es k v = Some es'" "\<forall>w \<in> snd ` set es. length w = length v"
  shows "map fst es' = map fst es \<and> map_of es' = (map_of es)(k \<mapsto> v)
    \<and> (\<forall>w \<in> snd ` set es'. length w = length v)"
  using assms
proof (induction es k v arbitrary: es' rule: overwrite_first.induct)
  case (2 k w es key val)
  show ?case
  proof (cases "k = key")
    case True
    then show ?thesis using 2(2,3) by auto
  next
    case False
    then obtain es'' where es'': "overwrite_first es key val = Some es''" "es' = (k, w) # es''"
      using 2(2) by auto
    then have "map fst es'' = map fst es \<and> map_of es'' = (map_of es)(key \<mapsto> val)
        \<and> (\<forall>w \<in> snd ` set es''. length w = length val)"
      using 2(1) [OF False es''(1)] 2(3) by (simp add: fun_upd_def)
    with False es''(2) 2(3) show ?thesis by auto
  qed
qed simp

lemma map_of_filter_ne: "map_of (filter (\<lambda>(k, _). k \<noteq> key) es) = (map_of es)(key := None)"
  by (induction es) (auto simp: fun_eq_iff)

interpretation hash: kv_map ht_inv ht_abs id ht_val_ok ht_lookup ht_update ht_delete
proof (unfold_locales, goal_cases)
  case (1 m k)
  then show ?case by (simp add: ht_lookup_def ht_abs_def)
next
  case (2 m v k b m')
  show ?case
  proof (cases "overwrite_first (ht_entries m) k v")
    case None
    then have "map_of (ht_entries m) k = None"
      by (simp add: overwrite_first_None map_of_eq_None_iff)
    then have "map_of (ht_entries m @ [(k, v)]) = (map_of (ht_entries m))(k \<mapsto> v)"
      by (auto simp: fun_eq_iff map_add_def split: option.split)
    moreover have "k \<notin> fst ` set (ht_entries m)" using None by (simp add: overwrite_first_None)
    ultimately show ?thesis using None 2
      by (auto simp: ht_update_def ht_inv_def ht_abs_def ht_val_ok_def [abs_def] split: if_splits)
        (metis snd_conv)
  next
    case (Some es)
    have all: "\<forall>w \<in> snd ` set (ht_entries m). length w = length v"
      using 2 by (simp add: ht_inv_def ht_val_ok_def)
    have len: "length es = length (ht_entries m)"
      using overwrite_first_Some [OF Some all] by (metis length_map)
    show ?thesis
      using 2 Some overwrite_first_Some [OF Some all] len
      by (auto simp: ht_update_def ht_inv_def ht_abs_def ht_val_ok_def [abs_def]) (metis snd_conv)
  qed
next
  case (3 m v k)
  then have "overwrite_first (ht_entries m) k v \<noteq> None"
    by (metis ht_abs_def id_apply map_of_eq_None_iff overwrite_first_None)
  then show ?case by (auto simp: ht_update_def)
next
  case (4 m k b m')
  then show ?case
    by (auto simp: ht_delete_def Let_def ht_inv_def ht_abs_def ht_val_ok_def [abs_def]
        map_of_filter_ne distinct_map_filter intro: le_trans [OF length_filter_le])
      (metis snd_conv)+
qed

definition am_abs :: "array_map \<Rightarrow> nat \<Rightarrow> bytes option" where
  "am_abs t i = (if i < length (am_entries t) then am_entries t ! i else None)"

interpretation arr: kv_map "\<lambda>_. True" am_abs array_index "\<lambda>_ _. True" am_lookup am_update am_delete
  by unfold_locales
    (auto simp: am_lookup_def am_update_def am_delete_def am_abs_def Let_def fun_eq_iff
      split: if_splits)

section \<open>The ring buffer is a bounded byte queue\<close>

definition rb_inv :: "ring_buf \<Rightarrow> bool" where
  "rb_inv r \<longleftrightarrow> length (rb_buf r) = unat (rb_capacity r) \<and> 256 \<le> rb_capacity r
     \<and> unat (rb_capacity r) dvd 2 ^ 64 \<and> rb_producer r - rb_consumer r \<le> rb_capacity r"

definition rb_used :: "ring_buf \<Rightarrow> nat" where
  "rb_used r = unat (rb_producer r - rb_consumer r)"

definition ring_slice :: "bytes \<Rightarrow> nat \<Rightarrow> nat \<Rightarrow> bytes" where
  "ring_slice buf off n = map (\<lambda>i. buf ! ((off + i) mod length buf)) [0..<n]"

definition rb_content :: "ring_buf \<Rightarrow> bytes" where
  "rb_content r = ring_slice (rb_buf r) (unat (rb_consumer r)) (rb_used r)"

lemma length_ring_slice [simp]: "length (ring_slice buf off n) = n"
  by (simp add: ring_slice_def)

lemma nth_ring_slice [simp]: "i < n \<Longrightarrow> ring_slice buf off n ! i = buf ! ((off + i) mod length buf)"
  by (simp add: ring_slice_def)

lemma length_copy_at [simp]: "off + length bs \<le> length buf \<Longrightarrow> length (copy_at off bs buf) = length buf"
  by (simp add: copy_at_def)

lemma nth_copy_at:
  "off + length bs \<le> length buf \<Longrightarrow> j < length buf \<Longrightarrow>
    copy_at off bs buf ! j = (if off \<le> j \<and> j < off + length bs then bs ! (j - off) else buf ! j)"
  by (auto simp: copy_at_def nth_append)

text \<open>The two-part copies at the end of the buffer, as the sources write them.\<close>

definition ring_write :: "bytes \<Rightarrow> nat \<Rightarrow> bytes \<Rightarrow> bytes" where
  "ring_write buf off v =
    (let first = min (length v) (length buf - off);
         buf1 = copy_at off (take first v) buf
     in if first < length v then copy_at 0 (drop first v) buf1 else buf1)"

lemma mod_wrap: "a < c \<Longrightarrow> b \<le> c \<Longrightarrow> (a + b) mod c = (if a + b < c then a + b else a + b - c)"
  for a b c :: nat
  by (simp add: mod_if)

lemma length_ring_write [simp]:
  "off < length buf \<Longrightarrow> length v \<le> length buf \<Longrightarrow> length (ring_write buf off v) = length buf"
  by (simp add: ring_write_def Let_def min_def)

lemma nth_ring_write:
  assumes "off < length buf" "length v \<le> length buf" "i < length buf"
  shows "ring_write buf off v ! ((off + i) mod length buf)
    = (if i < length v then v ! i else buf ! ((off + i) mod length buf))"
proof -
  have "(off + i) mod length buf < length buf" using assms(1) by (intro mod_less_divisor) linarith
  moreover define j where "j = (off + i) mod length buf"
  ultimately have j: "j < length buf" "j = (if off + i < length buf then off + i else off + i - length buf)"
    using assms by (simp_all add: mod_wrap)
  have "ring_write buf off v ! j = (if i < length v then v ! i else buf ! j)"
  proof (cases "off + length v \<le> length buf")
    case True
    then have "length v \<le> length buf - off" using assms(1) by linarith
    then have "ring_write buf off v = copy_at off v buf"
      by (simp add: ring_write_def Let_def)
    then show ?thesis using j True assms by (simp add: nth_copy_at) linarith
  next
    case False
    then have "min (length v) (length buf - off) = length buf - off" "length buf - off < length v"
      using assms(1) by linarith+
    then have "ring_write buf off v
        = copy_at 0 (drop (length buf - off) v) (copy_at off (take (length buf - off) v) buf)"
      by (simp only: ring_write_def Let_def if_True)
    moreover have "length (copy_at off (take (length buf - off) v) buf) = length buf"
      using False assms by simp
    ultimately show ?thesis using j False assms by (simp add: nth_copy_at) linarith
  qed
  then show ?thesis by (simp add: j_def)
qed

lemma ring_read_eq:
  assumes "off < length buf" "n \<le> length buf"
  shows "take (min n (length buf - off)) (drop off buf) @ take (n - (length buf - off)) buf
    = ring_slice buf off n"
proof (rule nth_equalityI, goal_cases)
  case (2 i)
  then have "i < n" using assms by auto
  then show ?case using assms by (auto simp: nth_append mod_wrap add.commute)
qed (use assms in auto)

lemma ring_copy_out:
  assumes "off < length buf" "n \<le> length buf" "n \<le> length dst"
  shows "take n
     (if min n (length buf - off) < n
      then copy_at (min n (length buf - off)) (take (n - min n (length buf - off)) buf)
        (copy_at 0 (take (min n (length buf - off)) (drop off buf)) dst)
      else copy_at 0 (take (min n (length buf - off)) (drop off buf)) dst)
    = ring_slice buf off n"
proof (cases "n \<le> length buf - off")
  case True
  then show ?thesis
    using ring_read_eq [OF assms(1,2)] assms by (simp add: copy_at_def min_def)
next
  case False
  then have m: "min n (length buf - off) = length buf - off" "length buf - off < n" by simp_all
  show ?thesis
    using ring_read_eq [OF assms(1,2)] assms m(2) unfolding m(1) by (simp add: copy_at_def)
qed

lemma unat_cursor_mod:
  fixes c cap :: usize
  assumes "unat cap dvd 2 ^ 64"
  shows "unat (c + of_nat n) mod unat cap = (unat c + n) mod unat cap"
proof -
  have "unat (c + of_nat n) = (unat c + n) mod 2 ^ 64"
    by (simp add: unat_word_ariths unat_of_nat mod_add_right_eq)
  then show ?thesis using assms by (simp only: mod_mod_cancel)
qed

lemma rb_invD:
  assumes "rb_inv r"
  shows "length (rb_buf r) = unat (rb_capacity r)" "256 \<le> unat (rb_capacity r)"
    "unat (rb_capacity r) dvd 2 ^ 64" "rb_used r \<le> unat (rb_capacity r)"
    "rb_producer r = rb_consumer r + of_nat (rb_used r)"
  using assms by (simp_all add: rb_inv_def rb_used_def word_le_nat_alt)

lemma ring_slice_mod: "ring_slice buf (off mod length buf) n = ring_slice buf off n"
  by (simp add: ring_slice_def mod_add_left_eq)

lemma ring_slice_cong:
  "length buf = length buf' \<Longrightarrow>
   (\<And>i. i < n \<Longrightarrow> buf ! ((off + i) mod length buf) = buf' ! ((off + i) mod length buf)) \<Longrightarrow>
   ring_slice buf off n = ring_slice buf' off n"
  by (simp add: ring_slice_def)

lemma ring_slice_add: "ring_slice buf off (m + n) = ring_slice buf off m @ ring_slice buf (off + m) n"
  by (rule nth_equalityI) (auto simp: nth_append add.assoc)

lemma ring_slice_write:
  assumes "u + length v \<le> length buf" "off < length buf"
  shows "ring_slice (ring_write buf ((off + u) mod length buf) v) off (u + length v)
    = ring_slice buf off u @ v"
proof (rule nth_equalityI)
  define w where "w = ring_write buf ((off + u) mod length buf) v"
  have pos: "(off + u) mod length buf < length buf" using assms(2) by (intro mod_less_divisor) linarith
  have len: "length w = length buf" using pos assms by (simp add: w_def)
  have at: "w ! (((off + u) mod length buf + i) mod length buf)
      = (if i < length v then v ! i else buf ! (((off + u) mod length buf + i) mod length buf))"
    if "i < length buf" for i
    unfolding w_def using nth_ring_write [OF pos _ that, of v] assms(1) by simp
  fix j assume "j < length (ring_slice (ring_write buf ((off + u) mod length buf) v) off (u + length v))"
  then have j: "j < u + length v" by simp
  have "w ! ((off + j) mod length buf) = (ring_slice buf off u @ v) ! j"
  proof (cases "j < u")
    case True
    define k where "k = length buf - u + j"
    have k: "k < length buf" "\<not> k < length v" "off + u + k = off + j + length buf"
      using True assms by (simp_all add: k_def)
    have "((off + u) mod length buf + k) mod length buf = (off + j + length buf) mod length buf"
      by (simp only: mod_add_left_eq k(3))
    then have "((off + u) mod length buf + k) mod length buf = (off + j) mod length buf"
      by simp
    then show ?thesis using at [OF k(1)] k(2) True by (simp add: nth_append)
  next
    case False
    then have k: "j - u < length buf" "j - u < length v" "off + u + (j - u) = off + j"
      using j assms by simp_all
    have "((off + u) mod length buf + (j - u)) mod length buf = (off + j) mod length buf"
      by (simp only: mod_add_left_eq k(3))
    then show ?thesis using at [OF k(1)] k(2) False by (simp add: nth_append)
  qed
  then show "ring_slice (ring_write buf ((off + u) mod length buf) v) off (u + length v) ! j
      = (ring_slice buf off u @ v) ! j"
    using j len by (simp add: w_def)
qed simp

lemma rb_update_eq:
  assumes "rb_inv r" "length val < 2 ^ 64"
  shows "rb_update r val =
    (if rb_used r + length val \<le> unat (rb_capacity r)
     then (True, r\<lparr>rb_producer := rb_producer r + of_nat (length val),
            rb_buf := ring_write (rb_buf r) (unat (rb_producer r) mod unat (rb_capacity r)) val\<rparr>)
     else (False, r\<lparr>rb_lost := rb_lost r + of_nat (length val)\<rparr>))"
proof -
  have "unat (of_nat (length val) :: usize) = length val"
    using assms(2) by (simp add: unat_of_nat)
  moreover have "unat (rb_capacity r - (rb_producer r - rb_consumer r)) = unat (rb_capacity r) - rb_used r"
    using assms(1) by (simp add: rb_inv_def rb_used_def unat_sub)
  ultimately have "of_nat (length val) > rb_capacity r - (rb_producer r - rb_consumer r)
      \<longleftrightarrow> \<not> rb_used r + length val \<le> unat (rb_capacity r)"
    using rb_invD(4) [OF assms(1)] by (simp add: word_less_nat_alt) linarith
  then show ?thesis
    using rb_invD(1) [OF assms(1)]
    by (simp add: rb_update_def rb_reserve_def Let_def ring_write_def unat_mod)
qed

lemma rb_update_refines:
  assumes "rb_inv r" "length val < 2 ^ 64" "rb_update r val = (b, r')"
  shows "rb_inv r' \<and> rb_capacity r' = rb_capacity r
    \<and> (b \<longleftrightarrow> length (rb_content r) + length val \<le> unat (rb_capacity r))
    \<and> rb_content r' = rb_content r @ (if b then val else [])
    \<and> rb_lost r' = rb_lost r + (if b then 0 else of_nat (length val))"
proof -
  note inv = rb_invD [OF assms(1)]
  have len: "length (rb_content r) = rb_used r" by (simp add: rb_content_def)
  show ?thesis
  proof (cases "rb_used r + length val \<le> unat (rb_capacity r)")
    case True
    define buf' where "buf' = ring_write (rb_buf r) (unat (rb_producer r) mod unat (rb_capacity r)) val"
    have r': "b" "r' = r\<lparr>rb_producer := rb_producer r + of_nat (length val), rb_buf := buf'\<rparr>"
      using assms True by (auto simp: rb_update_eq buf'_def)
    have at: "unat (rb_producer r) mod unat (rb_capacity r)
        = (unat (rb_consumer r) mod length (rb_buf r) + rb_used r) mod length (rb_buf r)"
      unfolding inv(1) by (subst inv(5)) (simp only: unat_cursor_mod [OF inv(3)] mod_add_left_eq)
    have pos: "unat (rb_consumer r) mod length (rb_buf r) < length (rb_buf r)"
      using inv(1,2) by (intro mod_less_divisor) simp
    have len': "length buf' = length (rb_buf r)"
      using inv(1,2) True by (simp add: buf'_def)
    have "rb_producer r' - rb_consumer r' = of_nat (rb_used r + length val)"
      by (simp add: r') (subst inv(5), simp)
    moreover have "unat (of_nat (rb_used r + length val) :: usize) = rb_used r + length val"
      using True unat_less_exp [of "rb_capacity r"] by (simp only: unat_of_nat) simp
    ultimately have used: "rb_used r' = rb_used r + length val"
      and le: "rb_producer r' - rb_consumer r' \<le> rb_capacity r"
      using True by (simp_all add: rb_used_def word_le_nat_alt)
    have "ring_slice buf' (unat (rb_consumer r) mod length buf') (rb_used r + length val)
        = ring_slice (rb_buf r) (unat (rb_consumer r) mod length (rb_buf r)) (rb_used r) @ val"
      unfolding len' unfolding buf'_def at
      by (rule ring_slice_write) (use pos True inv(1) in simp_all)
    then have "rb_content r' = rb_content r @ val"
      unfolding rb_content_def used by (simp add: r'(2) ring_slice_mod)
    then show ?thesis
      using True r' le assms(1) len' by (simp add: len rb_inv_def)
  next
    case False
    then have "\<not> b" "r' = r\<lparr>rb_lost := rb_lost r + of_nat (length val)\<rparr>"
      using assms by (auto simp: rb_update_eq)
    then show ?thesis using False assms(1) len
      by (simp add: rb_inv_def rb_content_def rb_used_def)
  qed
qed

lemma rb_lookup_refines:
  assumes "rb_inv r" "rb_lookup r = (res, r')"
  shows "rb_inv r' \<and> rb_capacity r' = rb_capacity r \<and> rb_lost r' = rb_lost r
    \<and> rb_content r' = drop 256 (rb_content r)
    \<and> res = (if rb_content r = [] then None else Some (take 256 (rb_content r)))"
proof -
  note inv = rb_invD [OF assms(1)]
  define n where "n = min 256 (rb_used r)"
  show ?thesis
  proof (cases "rb_used r = 0")
    case True
    then show ?thesis using assms
      by (simp add: rb_lookup_def rb_consume_def rb_used_def rb_content_def ring_slice_def)
  next
    case False
    define off where "off = unat (rb_consumer r) mod length (rb_buf r)"
    have off: "off < length (rb_buf r)"
      using inv(1,2) unfolding off_def by (intro mod_less_divisor) simp
    have n: "n \<noteq> 0" "n \<le> length (rb_buf r)" "n \<le> 256" "n \<le> rb_used r"
      using False inv by (simp_all add: n_def)
    have nn: "min 256 (unat (rb_producer r - rb_consumer r)) = n"
      by (simp add: n_def rb_used_def)
    have r': "res = Some (ring_slice (rb_buf r) off n)"
        "r' = r\<lparr>rb_consumer := rb_consumer r + of_nat n\<rparr>"
      using assms(2) n(1,3) ring_copy_out [OF off n(2), of "replicate 256 0"]
      unfolding rb_lookup_def rb_consume_def Let_def length_replicate nn unat_mod inv(1) [symmetric]
        off_def [symmetric] by simp_all
    have "rb_producer r' - rb_consumer r' = of_nat (rb_used r - n)"
      using n(4) by (simp add: r' of_nat_diff) (subst inv(5), simp)
    then have used: "rb_used r' = rb_used r - n"
      using unat_less_exp [of "rb_producer r - rb_consumer r"]
      by (simp add: rb_used_def unat_of_nat)
    have split: "rb_content r = ring_slice (rb_buf r) (unat (rb_consumer r)) n
        @ ring_slice (rb_buf r) (unat (rb_consumer r) + n) (rb_used r - n)"
      using ring_slice_add [of "rb_buf r" "unat (rb_consumer r)" n "rb_used r - n"] n(4)
      by (simp add: rb_content_def)
    have "rb_content r' = ring_slice (rb_buf r) (unat (rb_consumer r) + n) (rb_used r - n)"
      unfolding rb_content_def used
      using ring_slice_mod [of "rb_buf r" "unat (rb_consumer r + of_nat n)" "rb_used r - n"]
        ring_slice_mod [of "rb_buf r" "unat (rb_consumer r) + n" "rb_used r - n"]
        unat_cursor_mod [OF inv(3), of "rb_consumer r" n]
      by (simp add: r'(2) inv(1))
    moreover have "drop 256 (rb_content r) = drop n (rb_content r)"
        "take 256 (rb_content r) = take n (rb_content r)"
      by (simp_all add: rb_content_def n_def min_def)
    moreover have "rb_content r \<noteq> []"
      using False by (metis length_ring_slice list.size(3) rb_content_def)
    moreover have "rb_producer r' - rb_consumer r' \<le> rb_capacity r"
      using used inv(4) by (simp add: rb_used_def word_le_nat_alt)
    ultimately show ?thesis
      using r' assms(1) ring_slice_mod [of "rb_buf r" "unat (rb_consumer r)" n]
      by (simp add: split rb_inv_def off_def)
  qed
qed

subsection \<open>A new ring\<close>

lemma unat_next_power_of_two:
  assumes "unat p \<le> 2 ^ 63"
  shows "\<exists>k\<le>63. unat (next_power_of_two p) = 2 ^ k \<and> unat p \<le> 2 ^ k"
proof (cases "p \<le> 1")
  case True
  then have "unat p \<le> 1" by (simp add: word_le_nat_alt)
  with True show ?thesis by (intro exI [of _ 0]) (simp add: next_power_of_two_def)
next
  case False
  define k where "k = 64 - leading_zeros (p - 1)"
  have lz: "leading_zeros (p - 1) \<le> 64" using leading_zeros_le [of "p - 1"] by simp
  have p1: "unat (p - 1) = unat p - 1" using False by (simp add: unat_sub word_le_nat_alt)
  have "drop_bit k (p - 1) = 0"
    by (rule bit_word_eqI) (use leading_zeros_bit [of "p - 1"] in \<open>simp add: bit_simps k_def\<close>)
  then have "drop_bit k (unat (p - 1)) = 0"
    by (metis unat_drop_bit_eq unsigned_0)
  then have le: "unat p \<le> 2 ^ k"
    by (simp add: p1 drop_bit_eq_div div_eq_0_iff)
  have "leading_zeros (p - 1) \<noteq> 0"
  proof
    assume "leading_zeros (p - 1) = 0"
    then have "bit (p - 1) 63" by (simp add: leading_zeros_def upt_conv_Cons split: if_splits)
    then have "odd (unat (p - 1) div 2 ^ 63)" using bit_unsigned_nat [of 63 "p - 1"] by simp
    then have "2 ^ 63 \<le> unat (p - 1)" by (metis div_less even_zero linorder_not_le)
    with p1 assms False show False by (simp add: word_le_nat_alt)
  qed
  then have k: "k \<le> 63" by (simp add: k_def)
  have "drop_bit (64 - k) (- 1 :: u64) = mask k"
    by (rule bit_word_eqI) (use k in \<open>auto simp: bit_simps\<close>)
  then have "next_power_of_two p = mask k + 1"
    using False lz by (simp add: next_power_of_two_def k_def)
  then have "next_power_of_two p = 2 ^ k" by (simp add: mask_eq_exp_minus_1)
  moreover have "unat (2 ^ k :: u64) = 2 ^ k"
    using k by (intro unat_pow2) simp
  ultimately show ?thesis using k le by auto
qed

lemma rb_new_inv:
  assumes "unat c \<le> 2 ^ 63"
  shows "rb_inv (rb_new c) \<and> rb_content (rb_new c) = [] \<and> rb_lost (rb_new c) = 0
    \<and> unat c \<le> unat (rb_capacity (rb_new c))"
proof -
  obtain k where k: "k \<le> 63" "unat (next_power_of_two c) = 2 ^ k" "unat c \<le> 2 ^ k"
    using unat_next_power_of_two [OF assms] by blast
  have "(2 :: nat) ^ max k 8 dvd 2 ^ 64" using k(1) by (intro le_imp_power_dvd) simp
  moreover have "unat (max (next_power_of_two c) 256) = 2 ^ max k 8"
    using k(2) power_increasing_iff [of "2 :: nat" 8 k]
    by (auto simp: max_def word_le_nat_alt)
  ultimately show ?thesis
    using k(3) order_trans [OF k(3), of "2 ^ max k 8"]
    by (auto simp: rb_new_def Let_def rb_inv_def rb_content_def rb_used_def ring_slice_def)
qed

subsection \<open>Runs of the ring and of the queue\<close>

datatype ring_op = Push bytes | Pop | Discard | Clear
datatype ring_out = Pushed bool | Popped "bytes option" | Ack

fun ring_exec :: "ring_buf \<Rightarrow> ring_op \<Rightarrow> ring_out \<times> ring_buf" where
  "ring_exec r (Push v) = apfst Pushed (rb_update r v)"
| "ring_exec r Pop = apfst Popped (rb_lookup r)"
| "ring_exec r Discard = apfst (\<lambda>_. Ack) (rb_delete r)"
| "ring_exec r Clear = (Ack, rb_clear r)"

text \<open>The specification: a byte queue of bounded length and the count of rejected bytes.\<close>

fun queue_exec :: "nat \<Rightarrow> bytes \<times> u64 \<Rightarrow> ring_op \<Rightarrow> ring_out \<times> bytes \<times> u64" where
  "queue_exec c (q, lost) (Push v) =
    (if length q + length v \<le> c then (Pushed True, q @ v, lost)
     else (Pushed False, q, lost + of_nat (length v)))"
| "queue_exec c (q, lost) Pop =
    (Popped (if q = [] then None else Some (take 256 q)), drop 256 q, lost)"
| "queue_exec c (q, lost) Discard = (Ack, [], lost)"
| "queue_exec c (q, lost) Clear = (Ack, [], 0)"

fun run_ops :: "('s \<Rightarrow> 'o \<Rightarrow> 'r \<times> 's) \<Rightarrow> 's \<Rightarrow> 'o list \<Rightarrow> 'r list \<times> 's" where
  "run_ops f s [] = ([], s)"
| "run_ops f s (x # xs) = (let (r, s') = f s x; (rs, s'') = run_ops f s' xs in (r # rs, s''))"

definition push_fits :: "ring_op \<Rightarrow> bool" where
  "push_fits x = (case x of Push v \<Rightarrow> length v < 2 ^ 64 | _ \<Rightarrow> True)"

definition rb_queue :: "ring_buf \<Rightarrow> bytes \<times> u64" where
  "rb_queue r = (rb_content r, rb_lost r)"

lemma ring_exec_refines:
  assumes "rb_inv r" "push_fits x" "ring_exec r x = (y, r')"
  shows "rb_inv r' \<and> rb_capacity r' = rb_capacity r
    \<and> queue_exec (unat (rb_capacity r)) (rb_queue r) x = (y, rb_queue r')"
proof (cases x)
  case (Push v)
  obtain b where b: "rb_update r v = (b, r')" "y = Pushed b"
    using assms(3) Push by (cases "rb_update r v") auto
  then show ?thesis
    using rb_update_refines [OF assms(1) _ b(1)] assms(2) Push
    by (auto simp: push_fits_def rb_queue_def)
next
  case Pop
  obtain res where res: "rb_lookup r = (res, r')" "y = Popped res"
    using assms(3) Pop by (cases "rb_lookup r") auto
  then show ?thesis using rb_lookup_refines [OF assms(1) res(1)] Pop by (simp add: rb_queue_def)
next
  case Discard
  then show ?thesis using assms
    by (auto simp: rb_delete_def rb_inv_def rb_queue_def rb_content_def rb_used_def ring_slice_def)
next
  case Clear
  then show ?thesis using assms
    by (auto simp: rb_clear_def rb_inv_def rb_queue_def rb_content_def rb_used_def ring_slice_def)
qed

lemma run_ops_refines:
  assumes "rb_inv r" "list_all push_fits ops" "run_ops ring_exec r ops = (ys, r')"
  shows "rb_inv r' \<and> run_ops (queue_exec (unat (rb_capacity r))) (rb_queue r) ops = (ys, rb_queue r')"
  using assms
proof (induction ops arbitrary: r ys)
  case (Cons x ops)
  obtain y r1 where s: "ring_exec r x = (y, r1)" by force
  obtain ys1 where t: "run_ops ring_exec r1 ops = (ys1, r')" "ys = y # ys1"
    using Cons.prems(3) s by (cases "run_ops ring_exec r1 ops") auto
  have "rb_inv r1" "rb_capacity r1 = rb_capacity r"
    "queue_exec (unat (rb_capacity r)) (rb_queue r) x = (y, rb_queue r1)"
    using ring_exec_refines [OF Cons.prems(1) _ s] Cons.prems(2) by auto
  then show ?case using Cons.IH [OF _ _ t(1)] Cons.prems(2) t(2) by simp
qed simp


lemma next_power_of_two_1: "rb_capacity (rb_new 1) = 256"
  by (simp add: rb_new_def next_power_of_two_def Let_def max_def)




end
