(* ===== verification/EbpfVm.thy ===== *)
theory EbpfVm
  imports EbpfMaps UserAccess
begin

text \<open>
  The eBPF interpreter and its helpers, \<^verbatim>\<open>kernel/src/ebpf/vm.rs\<close> and
  \<^verbatim>\<open>kernel/src/ebpf/helpers.rs\<close>. One iteration of the interpreter's loop is \<open>vm_step\<close>; the loop
  \<open>exec_raw\<close> is partial, since a program may run forever. A dereference outside the 512-byte
  stack, which the sources perform through a raw pointer, is the outcome \<open>OutOfBounds\<close>; the
  overflow of a signed division, which panics, is \<open>Panic\<close>; a busy-wait that cannot end is \<open>Spin\<close>.
  What the helpers read from the rest of the kernel (current process, clock, processor) is part
  of the state \<open>vm_host\<close>.
\<close>

unbundle bit_operations_syntax

section \<open>Instructions and registers\<close>

abbreviation STACK_SIZE :: nat where "STACK_SIZE \<equiv> 512"

record ebpf_insn =
  icode :: u8
  dst_reg :: u8
  src_reg :: u8
  ioff :: i16
  iimm :: i32

definition insn_new :: "u8 \<Rightarrow> u8 \<Rightarrow> u8 \<Rightarrow> i16 \<Rightarrow> i32 \<Rightarrow> ebpf_insn" where
  "insn_new code dst src off imm =
    \<lparr>icode = code, dst_reg = dst, src_reg = src, ioff = off, iimm = imm\<rparr>"

type_synonym ebpf_regs = "u64 list"

definition regs_new :: ebpf_regs where
  "regs_new = replicate 11 0"

definition reg_r :: "ebpf_regs \<Rightarrow> nat \<Rightarrow> u64" where
  "reg_r rs i = (if i < 11 then rs ! i else 0)"

definition set_r :: "ebpf_regs \<Rightarrow> nat \<Rightarrow> u64 \<Rightarrow> ebpf_regs" where
  "set_r rs i v = (if i < 11 then rs[i := v] else rs)"

abbreviation BPF_LD :: u8 where "BPF_LD \<equiv> 0x00"
abbreviation BPF_LDX :: u8 where "BPF_LDX \<equiv> 0x01"
abbreviation BPF_ST :: u8 where "BPF_ST \<equiv> 0x02"
abbreviation BPF_STX :: u8 where "BPF_STX \<equiv> 0x03"
abbreviation BPF_ALU :: u8 where "BPF_ALU \<equiv> 0x04"
abbreviation BPF_JMP :: u8 where "BPF_JMP \<equiv> 0x05"
abbreviation BPF_JMP32 :: u8 where "BPF_JMP32 \<equiv> 0x06"
abbreviation BPF_ALU64 :: u8 where "BPF_ALU64 \<equiv> 0x07"
abbreviation BPF_DW :: u8 where "BPF_DW \<equiv> 0x18"
abbreviation BPF_ADD :: u8 where "BPF_ADD \<equiv> 0x00"
abbreviation BPF_SUB :: u8 where "BPF_SUB \<equiv> 0x10"
abbreviation BPF_MUL :: u8 where "BPF_MUL \<equiv> 0x20"
abbreviation BPF_DIV :: u8 where "BPF_DIV \<equiv> 0x30"
abbreviation BPF_OR :: u8 where "BPF_OR \<equiv> 0x40"
abbreviation BPF_AND :: u8 where "BPF_AND \<equiv> 0x50"
abbreviation BPF_LSH :: u8 where "BPF_LSH \<equiv> 0x60"
abbreviation BPF_RSH :: u8 where "BPF_RSH \<equiv> 0x70"
abbreviation BPF_NEG :: u8 where "BPF_NEG \<equiv> 0x80"
abbreviation BPF_MOD :: u8 where "BPF_MOD \<equiv> 0x90"
abbreviation BPF_XOR :: u8 where "BPF_XOR \<equiv> 0xa0"
abbreviation BPF_MOV :: u8 where "BPF_MOV \<equiv> 0xb0"
abbreviation BPF_ARSH :: u8 where "BPF_ARSH \<equiv> 0xc0"
abbreviation BPF_JA :: u8 where "BPF_JA \<equiv> 0x00"
abbreviation BPF_JEQ :: u8 where "BPF_JEQ \<equiv> 0x10"
abbreviation BPF_JGT :: u8 where "BPF_JGT \<equiv> 0x20"
abbreviation BPF_JGE :: u8 where "BPF_JGE \<equiv> 0x30"
abbreviation BPF_JSET :: u8 where "BPF_JSET \<equiv> 0x40"
abbreviation BPF_JNE :: u8 where "BPF_JNE \<equiv> 0x50"
abbreviation BPF_JSGT :: u8 where "BPF_JSGT \<equiv> 0x60"
abbreviation BPF_JSGE :: u8 where "BPF_JSGE \<equiv> 0x70"
abbreviation BPF_CALL :: u8 where "BPF_CALL \<equiv> 0x80"
abbreviation BPF_EXIT :: u8 where "BPF_EXIT \<equiv> 0x90"
abbreviation BPF_SIZE_MASK :: u8 where "BPF_SIZE_MASK \<equiv> 0x18"
abbreviation BPF_IMM :: u8 where "BPF_IMM \<equiv> 0x00"

abbreviation cls_of :: "ebpf_insn \<Rightarrow> u8" where "cls_of i \<equiv> icode i AND 0x07"
abbreviation op_of :: "ebpf_insn \<Rightarrow> u8" where "op_of i \<equiv> icode i AND 0xf0"

definition size_bytes :: "u8 \<Rightarrow> nat" where
  "size_bytes sz =
    (if sz = 0x00 then 8 else if sz = 0x08 then 4 else if sz = 0x10 then 2
     else if sz = 0x18 then 1 else 0)"

section \<open>State\<close>

record vm_host =
  host_maps :: map_registry
  host_pid :: "u64 option"
  host_clock :: "nat \<Rightarrow> u64"
  clock_reads :: nat
  host_cpu :: usize
  prandom_seed :: u32
  tail_call_progs :: "u32 list"
  console :: "bytes list"

record vm_state =
  vm_pc :: usize
  vm_regs :: ebpf_regs
  vm_stack :: bytes
  vm_host :: vm_host

datatype vm_next =
    Step (next_state: vm_state)
  | Ret u64 vm_state
  | OutOfBounds
  | Panic
  | Spin

section \<open>Memory\<close>

definition in_stack :: "usize \<Rightarrow> nat \<Rightarrow> bool" where
  "in_stack addr n \<longleftrightarrow> unat addr + n \<le> STACK_SIZE"

definition load_ne :: "bytes \<Rightarrow> usize \<Rightarrow> nat \<Rightarrow> u64" where
  "load_ne s addr n = from_ne_bytes (take n (drop (unat addr) s))"

definition store_ne :: "bytes \<Rightarrow> usize \<Rightarrow> nat \<Rightarrow> u64 \<Rightarrow> bytes" where
  "store_ne s addr n v = copy_at (unat addr) (to_ne_bytes n v) s"

section \<open>Helpers\<close>

definition bpf_helper_map_lookup_elem ::
  "map_registry \<Rightarrow> bytes \<Rightarrow> u64 \<Rightarrow> usize \<Rightarrow> usize \<Rightarrow> i64 \<times> bytes \<times> map_registry" where
  "bpf_helper_map_lookup_elem reg s map_fd key_off val_off =
    (case get_map reg map_fd of
       None \<Rightarrow> (- 2, s, reg)
     | Some m \<Rightarrow>
         let ksz = map_key_size m; vsz = map_value_size m
         in if (case checked_add key_off ksz of None \<Rightarrow> True | Some e \<Rightarrow> unat e > STACK_SIZE)
            then (- 1, s, reg)
            else if (case checked_add val_off vsz of None \<Rightarrow> True | Some e \<Rightarrow> unat e > STACK_SIZE)
            then (- 1, s, reg)
            else
              let key = take (unat ksz) (drop (unat key_off) s)
              in (case map_lookup m key of
                    (Some v, m') \<Rightarrow>
                      let copy_len = min (length v) (unat vsz)
                      in (0, copy_at (unat val_off) (take copy_len v) s, put_map reg map_fd m')
                  | (None, m') \<Rightarrow> (- 1, s, put_map reg map_fd m')))"

definition bpf_helper_get_current_pid :: "vm_host \<Rightarrow> u64" where
  "bpf_helper_get_current_pid h = (case host_pid h of Some p \<Rightarrow> p | None \<Rightarrow> 0)"

definition bpf_helper_get_ticks :: "vm_host \<Rightarrow> u64 \<times> vm_host" where
  "bpf_helper_get_ticks h = (host_clock h (clock_reads h), h\<lparr>clock_reads := Suc (clock_reads h)\<rparr>)"

definition bpf_helper_debug_print :: "vm_host \<Rightarrow> bytes \<Rightarrow> usize \<Rightarrow> usize \<Rightarrow> vm_host" where
  "bpf_helper_debug_print h s msg_off len =
    (if (case checked_add msg_off len of None \<Rightarrow> True | Some e \<Rightarrow> unat e > STACK_SIZE) then h
     else let m = take (unat len) (drop (unat msg_off) s)
          in if valid_utf8 m then h\<lparr>console := console h @ [m]\<rparr> else h)"

definition bpf_helper_ktime_get_ns :: "vm_host \<Rightarrow> u64 \<times> vm_host" where
  "bpf_helper_ktime_get_ns h = apfst (\<lambda>t. t * 10000000) (bpf_helper_get_ticks h)"

definition bpf_helper_get_prandom_u32 :: "vm_host \<Rightarrow> u32 \<times> vm_host" where
  "bpf_helper_get_prandom_u32 h =
    (let x = prandom_seed h;
         x = x XOR push_bit 13 x;
         x = x XOR drop_bit 17 x;
         x = x XOR push_bit 5 x
     in (x, h\<lparr>prandom_seed := x\<rparr>))"

definition bpf_helper_get_smp_processor_id :: "vm_host \<Rightarrow> u64" where
  "bpf_helper_get_smp_processor_id h = host_cpu h"

text \<open>The stack belongs to the running program alone, so a lock word that is not zero stays so
  and the busy-wait never ends.\<close>

definition bpf_helper_spin_lock :: "vm_state \<Rightarrow> usize \<Rightarrow> vm_next" where
  "bpf_helper_spin_lock st lock_off =
    (if unat (lock_off + 8) \<le> STACK_SIZE then
       if \<not> in_stack lock_off 8 then OutOfBounds
       else if load_ne (vm_stack st) lock_off 8 = 0
       then Step (st\<lparr>vm_stack := store_ne (vm_stack st) lock_off 8 1\<rparr>)
       else Spin
     else Step st)"

definition bpf_helper_spin_unlock :: "vm_state \<Rightarrow> usize \<Rightarrow> vm_next" where
  "bpf_helper_spin_unlock st lock_off =
    (if unat (lock_off + 8) \<le> STACK_SIZE then
       if \<not> in_stack lock_off 8 then OutOfBounds
       else Step (st\<lparr>vm_stack := store_ne (vm_stack st) lock_off 8 0\<rparr>)
     else Step st)"

definition bpf_helper_tail_call :: "vm_host \<Rightarrow> u32 \<Rightarrow> vm_host" where
  "bpf_helper_tail_call h prog_idx = h\<lparr>tail_call_progs := tail_call_progs h @ [prog_idx]\<rparr>"

section \<open>One instruction\<close>

text \<open>Rust's signed division truncates towards zero; the caller has excluded a zero divisor, and
  the one quotient that does not fit panics.\<close>

definition i64_overflows :: "i64 \<Rightarrow> i64 \<Rightarrow> bool" where
  "i64_overflows a b \<longleftrightarrow> sint a = - (2 ^ 63) \<and> sint b = - 1"

definition i64_div :: "i64 \<Rightarrow> i64 \<Rightarrow> i64" where
  "i64_div a b = word_of_int (sgn (sint a) * sgn (sint b) * (\<bar>sint a\<bar> div \<bar>sint b\<bar>))"

definition i64_rem :: "i64 \<Rightarrow> i64 \<Rightarrow> i64" where
  "i64_rem a b = word_of_int (sgn (sint a) * (\<bar>sint a\<bar> mod \<bar>sint b\<bar>))"

definition wrapping_amount :: "i64 \<Rightarrow> nat" where
  "wrapping_amount n = unat (ucast n :: u32) mod 64"

definition alu_result :: "u8 \<Rightarrow> i64 \<Rightarrow> i64 \<Rightarrow> i64 option" where
  "alu_result op dst_val src_val =
    (if op = BPF_ADD then Some (dst_val + src_val)
     else if op = BPF_SUB then Some (dst_val - src_val)
     else if op = BPF_MUL then Some (dst_val * src_val)
     else if op = BPF_DIV then
       (if src_val = 0 then Some 0
        else if i64_overflows dst_val src_val then None else Some (i64_div dst_val src_val))
     else if op = BPF_OR then Some (dst_val OR src_val)
     else if op = BPF_AND then Some (dst_val AND src_val)
     else if op = BPF_LSH then Some (push_bit (wrapping_amount src_val) dst_val)
     else if op = BPF_RSH then Some (drop_bit (wrapping_amount src_val) dst_val)
     else if op = BPF_MOD then
       (if src_val = 0 then Some 0
        else if i64_overflows dst_val src_val then None else Some (i64_rem dst_val src_val))
     else if op = BPF_XOR then Some (dst_val XOR src_val)
     else if op = BPF_MOV then Some src_val
     else if op = BPF_ARSH then Some (drop_bit (wrapping_amount src_val) dst_val)
     else if op = BPF_NEG then Some (- dst_val)
     else Some 0)"

definition sext32 :: "u64 \<Rightarrow> i64" where
  "sext32 v = scast (ucast v :: i32)"

definition vm_alu :: "ebpf_insn \<Rightarrow> vm_state \<Rightarrow> vm_next" where
  "vm_alu insn st =
    (let is64 = (cls_of insn = BPF_ALU64);
         src_val = (if icode insn AND 0x08 \<noteq> 0 then scast (iimm insn)
                    else reg_r (vm_regs st) (unat (src_reg insn)));
         dst_val = reg_r (vm_regs st) (unat (dst_reg insn))
     in case alu_result (op_of insn) dst_val src_val of
          None \<Rightarrow> Panic
        | Some result \<Rightarrow>
            let final_val = (if is64 then result else sext32 result)
            in Step (st\<lparr>vm_regs := set_r (vm_regs st) (unat (dst_reg insn)) final_val,
                        vm_pc := vm_pc st + 1\<rparr>))"

definition vm_call :: "ebpf_insn \<Rightarrow> vm_state \<Rightarrow> vm_next" where
  "vm_call insn st =
    (let r = reg_r (vm_regs st);
         set_r0 = (\<lambda>v s. s\<lparr>vm_regs := set_r (vm_regs s) 0 v\<rparr>);
         h = vm_host st;
         advance = (\<lambda>s. Step (s\<lparr>vm_pc := vm_pc s + 1\<rparr>))
     in if iimm insn = 1 then
          (case bpf_helper_map_lookup_elem (host_maps h) (vm_stack st) (r 1) (r 2) (r 3) of
             (ret, s, reg) \<Rightarrow>
               advance (set_r0 ret (st\<lparr>vm_stack := s, vm_host := h\<lparr>host_maps := reg\<rparr>\<rparr>)))
        else if iimm insn = 2 then advance (set_r0 (bpf_helper_get_current_pid h) st)
        else if iimm insn = 3 then
          (case bpf_helper_get_ticks h of (t, h') \<Rightarrow> advance (set_r0 t (st\<lparr>vm_host := h'\<rparr>)))
        else if iimm insn = 4 then
          advance (st\<lparr>vm_host := bpf_helper_debug_print h (vm_stack st) (r 1) (r 2)\<rparr>)
        else if iimm insn = 5 then
          (case bpf_helper_ktime_get_ns h of (t, h') \<Rightarrow> advance (set_r0 t (st\<lparr>vm_host := h'\<rparr>)))
        else if iimm insn = 6 then
          (case bpf_helper_get_prandom_u32 h of
             (x, h') \<Rightarrow> advance (set_r0 (ucast x) (st\<lparr>vm_host := h'\<rparr>)))
        else if iimm insn = 7 then advance (set_r0 (bpf_helper_get_smp_processor_id h) st)
        else if iimm insn = 8 then
          (case bpf_helper_spin_lock st (r 1) of Step s \<Rightarrow> advance s | x \<Rightarrow> x)
        else if iimm insn = 9 then
          (case bpf_helper_spin_unlock st (r 1) of Step s \<Rightarrow> advance s | x \<Rightarrow> x)
        else if iimm insn = 10 then
          Ret 0 (st\<lparr>vm_host := bpf_helper_tail_call h (ucast (r 1))\<rparr>)
        else advance st)"

definition jump_taken :: "u8 \<Rightarrow> i64 \<Rightarrow> i64 \<Rightarrow> bool" where
  "jump_taken op dst_val src_val =
    (if op = BPF_JA then True
     else if op = BPF_JEQ then dst_val = src_val
     else if op = BPF_JGT then dst_val > src_val
     else if op = BPF_JGE then dst_val \<ge> src_val
     else if op = BPF_JSET then dst_val AND src_val \<noteq> 0
     else if op = BPF_JNE then dst_val \<noteq> src_val
     else if op = BPF_JSGT then sint dst_val > sint src_val
     else if op = BPF_JSGE then sint dst_val \<ge> sint src_val
     else False)"

definition vm_jmp :: "ebpf_insn \<Rightarrow> vm_state \<Rightarrow> vm_next" where
  "vm_jmp insn st =
    (let op = op_of insn;
         rd = (\<lambda>i. if cls_of insn = BPF_JMP32 then sext32 (reg_r (vm_regs st) i)
                   else reg_r (vm_regs st) i);
         src_val = (if op = BPF_JA then 0 else rd (unat (src_reg insn)));
         dst_val = rd (unat (dst_reg insn));
         off = scast (ioff insn) :: i64
     in if op = BPF_CALL then vm_call insn st
        else if op = BPF_EXIT then Ret (reg_r (vm_regs st) 0) st
        else if jump_taken op dst_val src_val then
          if off = - 1 then Ret (reg_r (vm_regs st) 0) st
          else if sint off < 0 then Step (st\<lparr>vm_pc := vm_pc st - (- off)\<rparr>)
          else Step (st\<lparr>vm_pc := vm_pc st + off\<rparr>)
        else Step (st\<lparr>vm_pc := vm_pc st + 1\<rparr>))"

definition ld_imm64 :: "ebpf_insn \<Rightarrow> ebpf_insn \<Rightarrow> u64" where
  "ld_imm64 insn nxt = scast (iimm insn) OR push_bit 32 (scast (iimm nxt))"

definition vm_ld :: "ebpf_insn list \<Rightarrow> ebpf_insn \<Rightarrow> vm_state \<Rightarrow> vm_next" where
  "vm_ld insns insn st =
    (if icode insn AND BPF_SIZE_MASK = BPF_DW \<and> icode insn AND 0xe0 = BPF_IMM then
       let nxt = (if unat (vm_pc st) + 1 < length insns then insns ! (unat (vm_pc st) + 1)
                  else insn_new 0 0 0 0 0)
       in Step (st\<lparr>vm_regs := set_r (vm_regs st) (unat (dst_reg insn)) (ld_imm64 insn nxt),
                   vm_pc := vm_pc st + 2\<rparr>)
     else Step (st\<lparr>vm_pc := vm_pc st + 1\<rparr>))"

definition vm_ldx :: "ebpf_insn \<Rightarrow> vm_state \<Rightarrow> vm_next" where
  "vm_ldx insn st =
    (let n = size_bytes (icode insn AND BPF_SIZE_MASK);
         addr = reg_r (vm_regs st) (unat (src_reg insn)) + scast (ioff insn);
         st' = st\<lparr>vm_pc := vm_pc st + 1\<rparr>
     in if unat (addr + of_nat n) > STACK_SIZE then Step st'
        else if \<not> in_stack addr n then OutOfBounds
        else Step (st'\<lparr>vm_regs := set_r (vm_regs st) (unat (dst_reg insn))
               (load_ne (vm_stack st) addr n)\<rparr>))"

definition vm_st :: "ebpf_insn \<Rightarrow> vm_state \<Rightarrow> vm_next" where
  "vm_st insn st =
    (let addr = reg_r (vm_regs st) (unat (dst_reg insn)) + scast (ioff insn);
         st' = st\<lparr>vm_pc := vm_pc st + 1\<rparr>
     in if unat (addr + 8) > STACK_SIZE then Step st'
        else if \<not> in_stack addr 8 then OutOfBounds
        else Step (st'\<lparr>vm_stack := store_ne (vm_stack st) addr 8 (scast (iimm insn))\<rparr>))"

definition vm_stx :: "ebpf_insn \<Rightarrow> vm_state \<Rightarrow> vm_next" where
  "vm_stx insn st =
    (let n = size_bytes (icode insn AND BPF_SIZE_MASK);
         addr = reg_r (vm_regs st) (unat (dst_reg insn)) + scast (ioff insn);
         st' = st\<lparr>vm_pc := vm_pc st + 1\<rparr>
     in if unat (addr + of_nat n) > STACK_SIZE then Step st'
        else if \<not> in_stack addr n then OutOfBounds
        else Step (st'\<lparr>vm_stack := store_ne (vm_stack st) addr n
               (reg_r (vm_regs st) (unat (src_reg insn)))\<rparr>))"

definition vm_step :: "ebpf_insn list \<Rightarrow> vm_state \<Rightarrow> vm_next" where
  "vm_step insns st =
    (let insn = insns ! unat (vm_pc st); cls = cls_of insn
     in if cls = BPF_ALU \<or> cls = BPF_ALU64 then vm_alu insn st
        else if cls = BPF_JMP \<or> cls = BPF_JMP32 then vm_jmp insn st
        else if cls = BPF_LD then vm_ld insns insn st
        else if cls = BPF_LDX then vm_ldx insn st
        else if cls = BPF_ST then vm_st insn st
        else if cls = BPF_STX then vm_stx insn st
        else Step (st\<lparr>vm_pc := vm_pc st + 1\<rparr>))"

partial_function (option) exec_loop :: "ebpf_insn list \<Rightarrow> vm_state \<Rightarrow> vm_next option" where
  "exec_loop insns st =
    (if unat (vm_pc st) < length insns then
       if is_Step (vm_step insns st) then exec_loop insns (next_state (vm_step insns st))
       else if vm_step insns st = Spin then None
       else Some (vm_step insns st)
     else Some (Ret (reg_r (vm_regs st) 0) st))"

definition exec_raw ::
  "ebpf_insn list \<Rightarrow> ebpf_regs \<Rightarrow> bytes \<Rightarrow> vm_host \<Rightarrow> vm_next option" where
  "exec_raw insns rs s h =
    exec_loop insns \<lparr>vm_pc = 0, vm_regs = rs, vm_stack = s, vm_host = h\<rparr>"

section \<open>Well-formed states\<close>

definition vm_wf :: "vm_state \<Rightarrow> bool" where
  "vm_wf st \<longleftrightarrow> length (vm_regs st) = 11 \<and> length (vm_stack st) = STACK_SIZE"

lemma length_set_r [simp]: "length (set_r rs i v) = length rs"
  by (simp add: set_r_def)

lemma reg_r_set_r: "length rs = 11 \<Longrightarrow> reg_r (set_r rs i v) j = (if i = j \<and> i < 11 then v else reg_r rs j)"
  by (simp add: reg_r_def set_r_def)

lemma length_store_ne [simp]:
  "in_stack addr n \<Longrightarrow> length s = STACK_SIZE \<Longrightarrow> length (store_ne s addr n v) = STACK_SIZE"
  by (simp add: store_ne_def in_stack_def)

lemma to_ne_bytes_take_bit: "to_ne_bytes n (take_bit (8 * n) v) = to_ne_bytes n v"
  for v :: "'a::len word"
  by (rule nth_equalityI, simp, rule bit_word_eqI)
    (auto simp: to_ne_bytes_def bit_simps)

lemma load_store_same:
  assumes "in_stack addr n" "n \<le> 8" "length s = STACK_SIZE"
  shows "load_ne (store_ne s addr n v) addr n = take_bit (8 * n) v"
proof -
  have "take n (drop (unat addr) (store_ne s addr n v)) = to_ne_bytes n (take_bit (8 * n) v)"
    using assms by (simp add: store_ne_def copy_at_def in_stack_def to_ne_bytes_take_bit)
  then show ?thesis
    using from_to_ne_bytes [of n 64 "take_bit (8 * n) v"] by (simp add: load_ne_def)
qed

lemma load_store_apart:
  assumes "in_stack addr n" "in_stack a m" "length s = STACK_SIZE"
    and "unat addr + n \<le> unat a \<or> unat a + m \<le> unat addr"
  shows "load_ne (store_ne s addr n v) a m = load_ne s a m"
proof -
  have "take m (drop (unat a) (store_ne s addr n v)) = take m (drop (unat a) s)"
    using assms
    by (intro nth_equalityI) (auto simp: store_ne_def in_stack_def nth_copy_at)
  then show ?thesis by (simp add: load_ne_def)
qed

lemma length_map_lookup_elem:
  assumes "bpf_helper_map_lookup_elem reg s fd k v = (r, s', reg')" "length s = STACK_SIZE"
  shows "length s' = STACK_SIZE"
  using assms
  by (auto simp: bpf_helper_map_lookup_elem_def Let_def checked_add_Some_iff
      split: option.splits if_splits prod.splits)

lemma vm_call_wf:
  assumes "vm_wf st" "vm_call insn st = Step st'"
  shows "vm_wf st' \<and> vm_pc st' = vm_pc st + 1"
  using assms length_map_lookup_elem
  by (auto simp: vm_wf_def vm_call_def Let_def bpf_helper_spin_lock_def bpf_helper_spin_unlock_def
      split: if_splits prod.splits)

lemma vm_call_lengths:
  assumes "vm_call insn st = Step st'" "length (vm_regs st) = 11" "length (vm_stack st) = STACK_SIZE"
  shows "length (vm_regs st') = 11" "length (vm_stack st') = STACK_SIZE"
  using vm_call_wf [of st insn st'] assms by (simp_all add: vm_wf_def)

lemma vm_step_wf: "vm_wf st \<Longrightarrow> vm_step insns st = Step st' \<Longrightarrow> vm_wf st'"
  by (auto simp: vm_step_def Let_def vm_alu_def vm_jmp_def vm_ld_def vm_ldx_def vm_st_def
      vm_stx_def vm_wf_def split: if_splits option.splits dest: vm_call_lengths)

section \<open>Programs that return\<close>

text \<open>The interpreter adds the offset of a taken jump to the jump's own index, and returns when
  the offset is \<open>-1\<close>; a jump moves forward when its offset is positive.\<close>

definition is_jump :: "ebpf_insn \<Rightarrow> bool" where
  "is_jump i \<longleftrightarrow> (cls_of i = BPF_JMP \<or> cls_of i = BPF_JMP32) \<and> op_of i \<noteq> BPF_CALL \<and> op_of i \<noteq> BPF_EXIT"

definition moves_forward :: "ebpf_insn \<Rightarrow> bool" where
  "moves_forward i \<longleftrightarrow> (is_jump i \<longrightarrow> ioff i = - 1 \<or> 0 < sint (ioff i))
    \<and> ((cls_of i = BPF_JMP \<or> cls_of i = BPF_JMP32) \<and> op_of i = BPF_CALL \<longrightarrow> iimm i \<noteq> 8)"

lemma vm_call_forward:
  assumes "iimm insn \<noteq> 8"
  shows "vm_call insn st \<noteq> Spin" "vm_call insn st = Step st' \<Longrightarrow> vm_pc st' = vm_pc st + 1"
  using assms
  by (auto simp: vm_call_def Let_def bpf_helper_spin_unlock_def split: if_splits prod.splits)

lemma sint_scast_off: "sint (scast (w :: i16) :: i64) = sint w"
  by (simp add: signed_scast_eq signed_take_bit_int_eq_self_iff)
    (use sint_ge [of w] sint_lt [of w] in simp)

lemma scast_off_forward:
  assumes "0 < sint (w :: i16)"
  shows "unat (scast w :: i64) = nat (sint w)" "nat (sint w) < 2 ^ 15" "(scast w :: i64) \<noteq> - 1"
proof -
  have lt: "sint w < 2 ^ 15" using sint_lt [of w] by simp
  have "uint (scast w :: i64) = sint w mod 2 ^ LENGTH(64)"
    by (simp only: scast_eq uint_word_of_int)
  then have "uint (scast w :: i64) = sint w" using assms lt by simp
  then show "unat (scast w :: i64) = nat (sint w)" by (simp only: unat_eq_nat_uint)
  show "nat (sint w) < 2 ^ 15" using assms lt by simp
  show "(scast w :: i64) \<noteq> - 1" using sint_scast_off [of w] assms by auto
qed

lemma vm_step_forward:
  assumes "moves_forward (insns ! unat (vm_pc st))" "unat (vm_pc st) < 2 ^ 62"
  shows "vm_step insns st \<noteq> Spin"
    and "vm_step insns st = Step st' \<Longrightarrow> unat (vm_pc st) < unat (vm_pc st')"
proof -
  define insn where "insn = insns ! unat (vm_pc st)"
  have pos: "0 < sint (ioff insn)" if "is_jump insn" "scast (ioff insn) \<noteq> (- 1 :: i64)"
    using assms(1) that by (auto simp: moves_forward_def insn_def)
  have jump: "vm_jmp insn st \<noteq> Spin"
      "vm_jmp insn st = Step st' \<Longrightarrow> vm_pc st' = vm_pc st + 1
        \<or> (0 < sint (ioff insn) \<and> vm_pc st' = vm_pc st + scast (ioff insn))"
    if c: "cls_of insn = BPF_JMP \<or> cls_of insn = BPF_JMP32"
  proof -
    have "op_of insn = BPF_CALL \<Longrightarrow> iimm insn \<noteq> 8"
      using assms(1) c by (auto simp: moves_forward_def insn_def)
    moreover have "is_jump insn" if "op_of insn \<noteq> BPF_CALL" "op_of insn \<noteq> BPF_EXIT"
      using that c by (simp add: is_jump_def)
    ultimately show "vm_jmp insn st \<noteq> Spin"
        "vm_jmp insn st = Step st' \<Longrightarrow> vm_pc st' = vm_pc st + 1
        \<or> (0 < sint (ioff insn) \<and> vm_pc st' = vm_pc st + scast (ioff insn))"
      using vm_call_forward(1) [of insn st] vm_call_forward(2) [of insn st st'] pos
      by (auto simp: vm_jmp_def Let_def sint_scast_off split: if_splits)
  qed
  have nxt: "vm_step insns st \<noteq> Spin"
      "vm_step insns st = Step st' \<Longrightarrow> vm_pc st' = vm_pc st + 1 \<or> vm_pc st' = vm_pc st + 2
        \<or> (0 < sint (ioff insn) \<and> vm_pc st' = vm_pc st + scast (ioff insn))"
    using jump
    by (auto simp: vm_step_def Let_def insn_def [symmetric] vm_alu_def vm_ld_def vm_ldx_def
        vm_st_def vm_stx_def split: if_splits option.splits)
  show "vm_step insns st \<noteq> Spin" by (rule nxt(1))
  have small: "unat (vm_pc st + k) = unat (vm_pc st) + unat k" if "unat k < 2 ^ 15" for k
    using that assms(2) by (intro unat_add_exact) simp
  assume "vm_step insns st = Step st'"
  from nxt(2) [OF this] show "unat (vm_pc st) < unat (vm_pc st')"
    using small [of 1] small [of 2] small [of "scast (ioff insn)"]
      scast_off_forward [of "ioff insn"] by auto
qed

lemma exec_loop_returns:
  assumes "list_all moves_forward insns" "length insns < 2 ^ 62"
  shows "\<exists>r. exec_loop insns st = Some r"
proof (induction "length insns - unat (vm_pc st)" arbitrary: st rule: less_induct)
  case less
  show ?case
  proof (cases "unat (vm_pc st) < length insns")
    case True
    then have f: "moves_forward (insns ! unat (vm_pc st))" "unat (vm_pc st) < 2 ^ 62"
      using assms by (simp_all add: list_all_length)
    show ?thesis
    proof (cases "vm_step insns st")
      case (Step st')
      then have "length insns - unat (vm_pc st') < length insns - unat (vm_pc st)"
        using vm_step_forward(2) [OF f Step] True by linarith
      from less [OF this] show ?thesis
        using True Step by (simp add: exec_loop.simps [of insns st])
    qed (use True vm_step_forward(1) [OF f] in \<open>simp_all add: exec_loop.simps [of insns st]\<close>)
  qed (simp add: exec_loop.simps)
qed

text \<open>
  C28. Forward programs return. A program whose taken jumps have a positive offset, or the
  offset \<open>-1\<close> that the interpreter treats as a return, and that takes no lock, is executed to an end
  from every state: the interpreter's loop produces a result after at most one iteration per
  instruction, whatever the registers, the stack and the helpers hold.
\<close>

theorem vm_forward_terminates:
  assumes "list_all moves_forward insns" "length insns < 2 ^ 62"
  shows "\<exists>r. exec_raw insns rs s h = Some r"
  unfolding exec_raw_def by (rule exec_loop_returns [OF assms])

definition demo_host :: vm_host where
  "demo_host = \<lparr>host_maps = [], host_pid = None, host_clock = (\<lambda>_. 0), clock_reads = 0,
     host_cpu = 0, prandom_seed = 0xDEADBEEF, tail_call_progs = [], console = []\<rparr>"

theorem vm_forward_terminates_witness:
  "\<exists>r. exec_raw [insn_new 0xbf 0 0 0 7, insn_new 0x15 0 0 2 0, insn_new 0x85 0 0 0 3,
      insn_new 0x95 0 0 0 0] regs_new (replicate 512 0) demo_host = Some r"
  by (rule vm_forward_terminates)
    (simp_all add: moves_forward_def is_jump_def insn_new_def)


definition demo_store :: vm_state where
  "demo_store = \<lparr>vm_pc = 0, vm_regs = [0, 16, 0x1122334455667788, 0, 0, 0, 0, 0, 0, 0, 0],
     vm_stack = replicate 512 0, vm_host = demo_host\<rparr>"


end
