(* ===== verification/Tnum.thy ===== *)
theory Tnum
  imports Bits
begin

text \<open>
  Tracked numbers of the eBPF verifier, \<^verbatim>\<open>kernel/src/ebpf/tnum.rs\<close>: a \<open>tnum\<close> stands for
  the set of 64-bit values that agree with \<open>tvalue\<close> outside the unknown bits \<open>tmask\<close>.
  The theory has every operation of the file and settles which of them are sound
  abstractions of the machine operation.
\<close>

unbundle bit_operations_syntax

section \<open>The operations\<close>

record tnum =
  tvalue :: u64
  tmask :: u64

abbreviation mk_tnum :: "u64 \<Rightarrow> u64 \<Rightarrow> tnum" where
  "mk_tnum v m \<equiv> \<lparr>tvalue = v, tmask = m\<rparr>"

definition tnum_exact :: "u64 \<Rightarrow> tnum" where
  "tnum_exact v = mk_tnum v 0"

definition tnum_any :: tnum where
  "tnum_any = mk_tnum 0 (- 1)"

definition from_const :: "u64 \<Rightarrow> u8 \<Rightarrow> tnum" where
  "from_const v bit_count =
    (if bit_count \<ge> 64 then tnum_exact v
     else let m = push_bit (unat bit_count) (- 1) in mk_tnum (v AND NOT m) m)"

text \<open>A shift by the full width leaves the operand as it is, as an unchecked shift does.\<close>

definition from_range :: "u64 \<Rightarrow> u64 \<Rightarrow> tnum" where
  "from_range lo hi =
    (if lo = hi then tnum_exact lo
     else if lo > hi then tnum_any
     else let diff = lo XOR hi;
              m = push_bit ((64 - leading_zeros diff) mod 64) 1 - 1
          in mk_tnum (lo AND NOT m) m)"

definition for_aligned_access :: "u64 \<Rightarrow> u64 \<Rightarrow> tnum" where
  "for_aligned_access offset sz =
    (let e = offset + sz - 1 in mk_tnum (offset AND NOT (sz - 1)) (e AND (sz - 1)))"

definition tnum_add :: "tnum \<Rightarrow> tnum \<Rightarrow> tnum" where
  "tnum_add a b =
    (let sm = tmask a + tmask b;
         sv = tvalue a + tvalue b;
         sigma = sm + sv;
         chi = sigma XOR sv;
         mu = tmask a OR tmask b OR chi
     in mk_tnum (sv AND NOT mu) mu)"

definition tnum_sub :: "tnum \<Rightarrow> tnum \<Rightarrow> tnum" where
  "tnum_sub a b =
    (let sv = tvalue a - tvalue b;
         sn = tvalue a + NOT (tvalue b);
         mu = tmask a OR tmask b OR (sv XOR sn)
     in mk_tnum (sv AND NOT mu) mu)"

definition tnum_mul :: "tnum \<Rightarrow> tnum \<Rightarrow> tnum" where
  "tnum_mul a b =
    (if tmask a = 0 \<and> tmask b = 0 then tnum_exact (tvalue a * tvalue b) else tnum_any)"

definition tnum_and :: "tnum \<Rightarrow> tnum \<Rightarrow> tnum" where
  "tnum_and a b =
    mk_tnum (tvalue a AND tvalue b)
      ((tmask a AND NOT (tvalue b)) OR (tmask b AND NOT (tvalue a)) OR (tmask a AND tmask b))"

definition tnum_or :: "tnum \<Rightarrow> tnum \<Rightarrow> tnum" where
  "tnum_or a b =
    mk_tnum ((tvalue a OR tvalue b) AND NOT (tmask a OR tmask b)) (tmask a OR tmask b)"

definition tnum_xor :: "tnum \<Rightarrow> tnum \<Rightarrow> tnum" where
  "tnum_xor a b =
    mk_tnum ((tvalue a XOR tvalue b) AND NOT (tmask a OR tmask b)) (tmask a OR tmask b)"

definition tnum_shl :: "tnum \<Rightarrow> tnum \<Rightarrow> tnum" where
  "tnum_shl a b =
    (if tmask b \<noteq> 0 then tnum_any
     else if tvalue b \<ge> 64 then tnum_any
     else mk_tnum (push_bit (unat (tvalue b)) (tvalue a)) (push_bit (unat (tvalue b)) (tmask a)))"

definition tnum_lshr :: "tnum \<Rightarrow> tnum \<Rightarrow> tnum" where
  "tnum_lshr a b =
    (if tmask b \<noteq> 0 then tnum_any
     else if tvalue b \<ge> 64 then tnum_any
     else mk_tnum (drop_bit (unat (tvalue b)) (tvalue a)) (drop_bit (unat (tvalue b)) (tmask a)))"

definition tnum_ashr :: "tnum \<Rightarrow> tnum \<Rightarrow> tnum" where
  "tnum_ashr a b =
    (if tmask b \<noteq> 0 then tnum_any
     else mk_tnum (signed_drop_bit (unat (tvalue b AND 63)) (tvalue a)) (- 1))"

definition tnum_neg :: "tnum \<Rightarrow> tnum" where
  "tnum_neg a = mk_tnum (NOT (tvalue a) + 1) (tmask a)"

definition tnum_min :: "tnum \<Rightarrow> u64" where
  "tnum_min a = tvalue a"

definition tnum_max :: "tnum \<Rightarrow> u64" where
  "tnum_max a = tvalue a OR tmask a"

definition could_be_zero :: "tnum \<Rightarrow> bool" where
  "could_be_zero a \<longleftrightarrow> tvalue a AND NOT (tmask a) = 0"

definition could_be_nonzero :: "tnum \<Rightarrow> bool" where
  "could_be_nonzero a \<longleftrightarrow> tvalue a \<noteq> 0 \<or> tmask a \<noteq> 0"

definition is_exact :: "tnum \<Rightarrow> bool" where
  "is_exact a \<longleftrightarrow> tmask a = 0"

definition is_subrange :: "tnum \<Rightarrow> u64 \<Rightarrow> u64 \<Rightarrow> bool" where
  "is_subrange a lo hi \<longleftrightarrow> tnum_min a \<ge> lo \<and> tnum_max a \<le> hi"

definition tnum_valid :: "tnum \<Rightarrow> bool" where
  "tnum_valid a \<longleftrightarrow> tvalue a AND tmask a = 0"

definition tnum_merge :: "tnum \<Rightarrow> tnum \<Rightarrow> tnum" where
  "tnum_merge a b =
    mk_tnum (tvalue a AND tvalue b) (tmask a OR tmask b OR (tvalue a XOR tvalue b))"

definition tnum_intersect :: "tnum \<Rightarrow> tnum \<Rightarrow> tnum" where
  "tnum_intersect a b =
    (let nv = tvalue a OR tvalue b; nm = tmask a AND tmask b in mk_tnum (nv AND NOT nm) nm)"

section \<open>The values a tracked number stands for\<close>

definition tnum_has :: "tnum \<Rightarrow> u64 \<Rightarrow> bool" where
  "tnum_has a x \<longleftrightarrow> x AND NOT (tmask a) = tvalue a"

lemma tnum_has_bit:
  assumes "tnum_has a x"
  shows "bit (tvalue a) n \<longleftrightarrow> bit x n \<and> \<not> bit (tmask a) n"
proof -
  have "bit (tvalue a) n \<longleftrightarrow> bit (x AND NOT (tmask a)) n"
    using assms by (simp add: tnum_has_def)
  then show ?thesis using bit_imp_le_length [of x n] by (auto simp: bit_simps)
qed

lemma tnum_hasI:
  "(\<And>n. n < 64 \<Longrightarrow> bit (tvalue a) n \<longleftrightarrow> bit x n \<and> \<not> bit (tmask a) n) \<Longrightarrow> tnum_has a x"
  unfolding tnum_has_def by (rule bit_word_eqI) (simp add: bit_simps)

lemma tnum_has_valid: "tnum_has a x \<Longrightarrow> tnum_valid a"
  unfolding tnum_valid_def by (rule bit_word_eqI) (auto simp: bit_simps tnum_has_bit)

lemma tnum_has_any [simp]: "tnum_has tnum_any x"
  by (simp add: tnum_has_def tnum_any_def)

lemma tnum_has_exact [simp]: "tnum_has (tnum_exact v) x \<longleftrightarrow> x = v"
  by (auto simp: tnum_has_def tnum_exact_def)

lemma tnum_has_value: "tnum_valid a \<Longrightarrow> tnum_has a (tvalue a)"
proof (rule tnum_hasI)
  fix n :: nat
  assume "tnum_valid a"
  then have "\<not> bit (tvalue a AND tmask a) n"
    by (simp add: tnum_valid_def)
  then show "bit (tvalue a) n \<longleftrightarrow> bit (tvalue a) n \<and> \<not> bit (tmask a) n"
    by (auto simp: bit_simps)
qed

section \<open>Soundness of the operations\<close>

lemma tnum_add_has:
  assumes "tnum_has a x" "tnum_has b y"
  shows "tnum_has (tnum_add a b) (x + y)"
proof (rule tnum_hasI)
  fix n :: nat assume n: "n < 64"
  define va ma vb mb where "va = tvalue a" and "ma = tmask a" and "vb = tvalue b" and "mb = tmask b"
  have a: "bit va i \<longleftrightarrow> bit x i \<and> \<not> bit ma i" and b: "bit vb i \<longleftrightarrow> bit y i \<and> \<not> bit mb i" for i
    using tnum_has_bit [OF assms(1)] tnum_has_bit [OF assms(2)]
    by (simp_all add: va_def ma_def vb_def mb_def)
  have "va + ma = va OR ma"
    by (rule disjunctive_add_eq_or) (auto intro!: bit_word_eqI simp: bit_simps a)
  moreover have "vb + mb = vb OR mb"
    by (rule disjunctive_add_eq_or) (auto intro!: bit_word_eqI simp: bit_simps b)
  moreover have "ma + mb + (va + vb) = (va + ma) + (vb + mb)"
    by (simp add: ac_simps)
  ultimately have sigma: "ma + mb + (va + vb) = (va OR ma) + (vb OR mb)"
    by (simp only:)
  have sv: "bit (va + vb) n \<longleftrightarrow> (bit va n \<noteq> (bit vb n \<noteq> carry n va vb))"
    and xy: "bit (x + y) n \<longleftrightarrow> (bit x n \<noteq> (bit y n \<noteq> carry n x y))"
    and top: "bit ((va OR ma) + (vb OR mb)) n \<longleftrightarrow>
      (bit (va OR ma) n \<noteq> (bit (vb OR mb) n \<noteq> carry n (va OR ma) (vb OR mb)))"
    using n by (simp_all add: bit_add_carry)
  have "carry n va vb \<Longrightarrow> carry n x y"
    by (rule carry_mono [of va x vb y]) (auto simp: a b)
  moreover have "carry n x y \<Longrightarrow> carry n (va OR ma) (vb OR mb)"
    by (rule carry_mono [of x _ y]) (auto simp: a b bit_simps)
  moreover have "bit (tmask (tnum_add a b)) n \<longleftrightarrow>
      bit ma n \<or> bit mb n \<or> (bit ((va OR ma) + (vb OR mb)) n \<noteq> bit (va + vb) n)"
    by (simp add: tnum_add_def Let_def va_def [symmetric] ma_def [symmetric] vb_def [symmetric]
        mb_def [symmetric] sigma bit_or_iff bit_xor_iff)
  moreover have "bit (tvalue (tnum_add a b)) n \<longleftrightarrow> bit (va + vb) n \<and> \<not> bit (tmask (tnum_add a b)) n"
    using n by (simp add: tnum_add_def Let_def va_def [symmetric] vb_def [symmetric]
        bit_and_iff bit_or_iff bit_not_iff)
  ultimately show "bit (tvalue (tnum_add a b)) n \<longleftrightarrow> bit (x + y) n \<and> \<not> bit (tmask (tnum_add a b)) n"
    using sv xy top a [of n] b [of n] unfolding bit_or_iff by argo
qed

lemma tnum_or_has: "tnum_has a x \<Longrightarrow> tnum_has b y \<Longrightarrow> tnum_has (tnum_or a b) (x OR y)"
  by (rule tnum_hasI) (auto simp: tnum_or_def bit_simps tnum_has_bit)

lemma tnum_xor_has: "tnum_has a x \<Longrightarrow> tnum_has b y \<Longrightarrow> tnum_has (tnum_xor a b) (x XOR y)"
  by (rule tnum_hasI) (auto simp: tnum_xor_def bit_simps tnum_has_bit)

lemma tnum_mul_has: "tnum_has a x \<Longrightarrow> tnum_has b y \<Longrightarrow> tnum_has (tnum_mul a b) (x * y)"
  by (auto simp: tnum_mul_def tnum_has_def [of a] tnum_has_def [of b])

lemma tnum_known: "tnum_has b y \<Longrightarrow> tmask b = 0 \<Longrightarrow> tvalue b = y"
  by (simp add: tnum_has_def)

lemma tnum_shl_has:
  "tnum_has a x \<Longrightarrow> tnum_has b y \<Longrightarrow> y < 64 \<Longrightarrow> tnum_has (tnum_shl a b) (push_bit (unat y) x)"
  unfolding tnum_shl_def
  by (auto simp: tnum_known not_le intro!: tnum_hasI) (auto simp: bit_simps tnum_has_bit)

lemma tnum_lshr_has:
  "tnum_has a x \<Longrightarrow> tnum_has b y \<Longrightarrow> y < 64 \<Longrightarrow> tnum_has (tnum_lshr a b) (drop_bit (unat y) x)"
  unfolding tnum_lshr_def
  by (auto simp: tnum_known not_le intro!: tnum_hasI) (auto simp: bit_simps tnum_has_bit)

lemma tnum_merge_has:
  "tnum_has a x \<or> tnum_has b x \<Longrightarrow> tnum_valid a \<Longrightarrow> tnum_valid b \<Longrightarrow> tnum_has (tnum_merge a b) x"
proof (rule tnum_hasI, goal_cases)
  case (1 n)
  then have "\<not> bit (tvalue a AND tmask a) n" "\<not> bit (tvalue b AND tmask b) n"
    by (simp_all add: tnum_valid_def)
  with 1 show ?case by (auto simp: tnum_merge_def bit_simps tnum_has_bit)
qed

lemma tnum_intersect_has: "tnum_has a x \<Longrightarrow> tnum_has b x \<Longrightarrow> tnum_has (tnum_intersect a b) x"
  by (rule tnum_hasI) (auto simp: tnum_intersect_def Let_def bit_simps tnum_has_bit)

lemma tnum_has_range: "tnum_has a x \<Longrightarrow> tnum_min a \<le> x \<and> x \<le> tnum_max a"
  unfolding tnum_min_def tnum_max_def
  by (intro conjI bits_le) (auto simp: bit_or_iff tnum_has_bit)

lemma could_be_zero_has: "tnum_valid a \<Longrightarrow> could_be_zero a \<longleftrightarrow> tnum_has a 0"
  using tnum_has_value [of a] by (auto simp: could_be_zero_def tnum_has_def)

lemma from_range_has:
  assumes x: "lo \<le> x" "x \<le> hi" and top: "bit lo 63 = bit hi 63"
  shows "tnum_has (from_range lo hi) x"
proof -
  consider "lo = hi" | "lo > hi" | "lo < hi" by (rule linorder_cases)
  then show ?thesis
  proof cases
    case 3
    define n where "n = 64 - leading_zeros (lo XOR hi)"
    have above: "bit lo i = bit hi i" if "n \<le> i" for i
      using leading_zeros_bit [of "lo XOR hi" i] that by (auto simp: n_def bit_xor_iff)
    have "n < 64"
    proof (rule ccontr)
      assume "\<not> n < 64"
      then have "leading_zeros (lo XOR hi) = 0" by (simp add: n_def)
      moreover have "\<not> bit (lo XOR hi) 63" using top by (simp add: bit_xor_iff)
      ultimately show False by (simp add: leading_zeros_def upt_conv_Cons)
    qed
    have m: "push_bit n 1 - 1 = (mask n :: u64)"
      by (simp add: mask_eq_exp_minus_1 push_bit_eq_mult)
    have "drop_bit n lo = drop_bit n hi"
      by (rule bit_word_eqI) (simp add: bit_simps above)
    then have "drop_bit n x = drop_bit n lo" by (rule drop_bit_between [OF x])
    then have agree: "bit x i = bit lo i" if "n \<le> i" for i
      using drop_bit_eq_bits [OF _ that] by blast
    have "from_range lo hi = mk_tnum (lo AND NOT (mask n)) (mask n)"
      using 3 \<open>n < 64\<close> m by (simp add: from_range_def Let_def n_def [symmetric])
    then show ?thesis
      by (auto intro!: tnum_hasI simp: bit_simps agree)
  qed (use x in \<open>auto simp: from_range_def\<close>)
qed

text \<open>
  C25. Soundness of the tracked-number operations. When \<open>x\<close> and \<open>y\<close> are values the tracked
  numbers \<open>a\<close> and \<open>b\<close> stand for, the results of addition (with every carry), multiplication,
  bitwise or and exclusive or, and shifts by less than the width stand for the results of the
  machine operation; merging keeps the values of both sides, intersecting keeps the common
  ones; every value lies between minimum and maximum, and the zero test answers exactly
  whether zero is one of the values.
\<close>

theorem tnum_ops_sound:
  assumes "tnum_has a x" "tnum_has b y"
  shows "tnum_has (tnum_add a b) (x + y)
    \<and> tnum_has (tnum_mul a b) (x * y)
    \<and> tnum_has (tnum_or a b) (x OR y)
    \<and> tnum_has (tnum_xor a b) (x XOR y)
    \<and> (y < 64 \<longrightarrow> tnum_has (tnum_shl a b) (push_bit (unat y) x)
         \<and> tnum_has (tnum_lshr a b) (drop_bit (unat y) x))
    \<and> tnum_has (tnum_merge a b) x \<and> tnum_has (tnum_merge a b) y
    \<and> (tnum_has b x \<longrightarrow> tnum_has (tnum_intersect a b) x)
    \<and> tnum_min a \<le> x \<and> x \<le> tnum_max a
    \<and> (could_be_zero a \<longleftrightarrow> tnum_has a 0)"
  using assms tnum_has_valid [OF assms(1)] tnum_has_valid [OF assms(2)]
  by (simp add: tnum_add_has tnum_mul_has tnum_or_has tnum_xor_has tnum_shl_has
      tnum_lshr_has tnum_merge_has tnum_intersect_has tnum_has_range could_be_zero_has)

theorem tnum_ops_sound_witness:
  "tnum_has (mk_tnum 4 1) 5 \<and> tnum_has (tnum_exact 3) 3
    \<and> tnum_add (mk_tnum 4 1) (tnum_exact 3) = mk_tnum 0 15
    \<and> tnum_has (mk_tnum 0 15) (5 + 3)"
proof -
  have h: "tnum_has (mk_tnum 4 1) 5" by (simp add: tnum_has_def)
  have e: "tnum_add (mk_tnum 4 1) (tnum_exact 3) = mk_tnum 0 15"
    by (simp add: tnum_add_def tnum_exact_def)
  then show ?thesis
    using h tnum_ops_sound [of "mk_tnum 4 1" 5 "tnum_exact 3" 3] by simp
qed

text \<open>
  C26. The operations that are not sound: for each of subtraction, bitwise and, arithmetic
  shift and negation there are a tracked number and a value it stands for whose machine result
  the returned tracked number excludes, and a range that spans the sign bit is abstracted to its
  lower end alone. Bitwise and loses every unknown bit that meets a known one, subtraction
  follows no borrow, the shift leaves a value under a full mask, which stands for nothing.
\<close>

theorem tnum_ops_unsound:
  "(\<exists>a b x y. tnum_has a x \<and> tnum_has b y \<and> \<not> tnum_has (tnum_sub a b) (x - y))
  \<and> (\<exists>a b x y. tnum_has a x \<and> tnum_has b y \<and> \<not> tnum_has (tnum_and a b) (x AND y))
  \<and> (\<exists>a b x y. tnum_has a x \<and> tnum_has b y \<and> y < 64
        \<and> \<not> tnum_has (tnum_ashr a b) (signed_drop_bit (unat y) x))
  \<and> (\<exists>a x. tnum_has a x \<and> \<not> tnum_has (tnum_neg a) (- x))
  \<and> (\<exists>lo hi x. lo \<le> x \<and> x \<le> hi \<and> \<not> tnum_has (from_range lo hi) x)"
proof (intro conjI exI)
  show "tnum_has (mk_tnum 4 1) 5" "tnum_has (tnum_exact 1) 1"
    "\<not> tnum_has (tnum_sub (mk_tnum 4 1) (tnum_exact 1)) (5 - 1)"
    by (simp_all add: tnum_has_def tnum_sub_def tnum_exact_def)
  show "tnum_has (mk_tnum 0 1) 1" "tnum_has (tnum_exact 1) 1"
    "\<not> tnum_has (tnum_and (mk_tnum 0 1) (tnum_exact 1)) (1 AND 1)"
    by (simp_all add: tnum_has_def tnum_and_def tnum_exact_def)
  show "tnum_has (tnum_exact 2) 2" "tnum_has (tnum_exact 0) 0" "(0 :: u64) < 64"
    "\<not> tnum_has (tnum_ashr (tnum_exact 2) (tnum_exact 0)) (signed_drop_bit (unat (0 :: u64)) 2)"
    by (simp_all add: tnum_has_def tnum_ashr_def tnum_exact_def)
  show "tnum_has (mk_tnum 4 1) 5" "\<not> tnum_has (tnum_neg (mk_tnum 4 1)) (- 5)"
    by (simp_all add: tnum_has_def tnum_neg_def)
  show "(0 :: u64) \<le> 1" "(1 :: u64) \<le> 0x8000000000000000"
    "\<not> tnum_has (from_range 0 0x8000000000000000) 1"
    by (simp_all add: tnum_has_def from_range_def leading_zeros_eq_0 bit_numeral_word_iff)
qed

end
