(* ===== verification/EbpfVerifier.thy ===== *)
theory EbpfVerifier
  imports EbpfVm Tnum
begin

text \<open>
  The two passes of the eBPF verifier, \<^verbatim>\<open>kernel/src/ebpf/verifier.rs\<close>: the structural check
  \<open>verify\<close> with its reachability walk, and the data-flow check \<open>tnum_verify\<close>, a worklist iteration
  over tracked numbers. Vectors used as stacks are lists with the top first; index panics of the
  data-flow check are the outcome \<open>TvPanic\<close>. Both walks carry the source's budget of pops.
\<close>

unbundle bit_operations_syntax

section \<open>The structural check\<close>

definition off_in_range :: "ebpf_insn \<Rightarrow> bool" where
  "off_in_range insn \<longleftrightarrow> \<not> (sint (ioff insn) < - 512 \<or> sint (ioff insn) > 512)"

definition insn_ok :: "ebpf_insn list \<Rightarrow> nat \<Rightarrow> bool" where
  "insn_ok insns i =
    (let insn = insns ! i; cls = cls_of insn; dst = dst_reg insn; src = src_reg insn
     in if dst > 10 \<or> src > 10 then False
        else if (cls = BPF_ALU \<or> cls = BPF_ALU64 \<or> cls = BPF_JMP \<or> cls = BPF_JMP32) \<and> dst = 10
        then False
        else if cls = BPF_LD then
          (if icode insn AND 0xe0 \<noteq> 0x00 then False
           else if icode insn AND 0x18 = 0x18 then
             (if i + 1 \<ge> length insns then False else icode (insns ! (i + 1)) = 0)
           else True)
        else if cls = BPF_LDX then off_in_range insn \<and> dst \<noteq> 10
        else if cls = BPF_ST \<or> cls = BPF_STX then off_in_range insn
        else if cls = BPF_ALU \<or> cls = BPF_ALU64 \<or> cls = BPF_JMP \<or> cls = BPF_JMP32 then
          \<not> (op_of insn = BPF_CALL \<and> (sint (iimm insn) < 1 \<or> sint (iimm insn) > 4))
        else False)"

definition is_jmp :: "ebpf_insn \<Rightarrow> bool" where
  "is_jmp insn \<longleftrightarrow> cls_of insn = BPF_JMP \<or> cls_of insn = BPF_JMP32"

definition is_ld_dw :: "ebpf_insn \<Rightarrow> bool" where
  "is_ld_dw insn \<longleftrightarrow> icode insn AND 0x1f = 0x18"

definition jump_target :: "nat \<Rightarrow> ebpf_insn \<Rightarrow> nat" where
  "jump_target i insn = unat (of_nat i + 1 + scast (ioff insn) :: u64)"

text \<open>The targets one instruction adds; \<open>None\<close> is the early rejection of a wild jump.\<close>

definition insn_targets :: "ebpf_insn list \<Rightarrow> nat \<Rightarrow> nat list option" where
  "insn_targets insns i =
    (let insn = insns ! i; op = op_of insn
     in if is_jmp insn then
          if op = BPF_JA \<or> op = BPF_CALL then
            (let target = jump_target i insn
             in if target \<ge> length insns then None
                else Some (target # (if op \<noteq> BPF_JA then [i + 1] else [])))
          else if op \<noteq> BPF_EXIT then
            (let target = jump_target i insn
             in if target \<ge> length insns then None else Some [target, i + 1])
          else Some []
        else if i + 1 < length insns then Some [i + (if is_ld_dw insn then 2 else 1)]
        else Some [])"

fun collect_targets :: "ebpf_insn list \<Rightarrow> nat list \<Rightarrow> nat list option" where
  "collect_targets insns [] = Some []"
| "collect_targets insns (i # is) =
    (case insn_targets insns i of None \<Rightarrow> None
     | Some ts \<Rightarrow> map_option (append ts) (collect_targets insns is))"

definition target_ok :: "ebpf_insn list \<Rightarrow> nat \<Rightarrow> bool" where
  "target_ok insns t \<longleftrightarrow> t < length insns \<and> \<not> (t > 0 \<and> is_ld_dw (insns ! (t - 1)))"

definition walk_succs :: "ebpf_insn list \<Rightarrow> nat \<Rightarrow> nat list" where
  "walk_succs insns cur =
    (let insn = insns ! cur; op = op_of insn;
         jumps = (if is_jmp insn \<and> jump_target cur insn < length insns
                  then [jump_target cur insn] else []);
         nxt = cur + (if is_ld_dw insn then 2 else 1)
     in if is_jmp insn \<and> (op = BPF_JA \<or> op = BPF_EXIT) then jumps
        else (if nxt < length insns then [nxt] else []) @ jumps)"

fun verify_walk :: "ebpf_insn list \<Rightarrow> nat \<Rightarrow> nat list \<Rightarrow> nat set \<Rightarrow> nat set option" where
  "verify_walk insns budget [] visited = Some visited"
| "verify_walk insns 0 (cur # wl) visited = None"
| "verify_walk insns (Suc budget) (cur # wl) visited =
    (if cur \<in> visited then verify_walk insns budget wl visited
     else verify_walk insns budget (walk_succs insns cur @ wl) (insert cur visited))"

definition MAX_TNUM_STEPS_PER_INSN :: u64 where
  "MAX_TNUM_STEPS_PER_INSN = 64"

definition walk_budget :: "ebpf_insn list \<Rightarrow> nat" where
  "walk_budget insns = unat (saturating_mul (of_nat (length insns)) MAX_TNUM_STEPS_PER_INSN)"

definition covered :: "ebpf_insn list \<Rightarrow> nat set \<Rightarrow> bool" where
  "covered insns visited \<longleftrightarrow>
    list_all (\<lambda>i. i \<in> visited \<or> i > 0 \<and> is_ld_dw (insns ! (i - 1))) [0..<length insns]"

definition verify :: "ebpf_insn list \<Rightarrow> bool" where
  "verify insns =
    (if insns = [] \<or> length insns > 4096 then False
     else if \<not> list_all (insn_ok insns) [0..<length insns] then False
     else if op_of (last insns) \<noteq> BPF_EXIT then False
     else case collect_targets insns [0..<length insns] of
            None \<Rightarrow> False
          | Some ts \<Rightarrow>
              if \<not> list_all (target_ok insns) (0 # (length insns - 1) # ts) then False
              else case verify_walk insns (walk_budget insns) [0] {} of
                     None \<Rightarrow> False
                   | Some visited \<Rightarrow> covered insns visited)"

section \<open>The data-flow check\<close>

record vstate =
  vregs :: "tnum list"
  vstack :: "tnum list"

definition vs_new :: vstate where
  "vs_new = \<lparr>vregs = replicate 11 tnum_any, vstack = replicate 64 tnum_any\<rparr>"

definition vs_init :: vstate where
  "vs_init = vs_new\<lparr>vregs := (vregs vs_new)[10 := tnum_exact (of_nat STACK_SIZE)]\<rparr>"

fun write_slots :: "tnum list \<Rightarrow> nat \<Rightarrow> nat \<Rightarrow> tnum \<Rightarrow> tnum list" where
  "write_slots s slot 0 t = s"
| "write_slots s slot (Suc n) t =
    write_slots (if slot < 64 then s[slot := t] else s) (Suc slot) n t"

definition write_stack :: "vstate \<Rightarrow> u64 \<Rightarrow> u64 \<Rightarrow> tnum \<Rightarrow> vstate" where
  "write_stack st off sz t =
    (if off mod 8 \<noteq> 0 \<or> sz mod 8 \<noteq> 0 then st
     else let slot = unat (off div 8); count = max 1 (unat (sz div 8))
          in st\<lparr>vstack := write_slots (vstack st) slot count t\<rparr>)"

definition vs_merge :: "vstate \<Rightarrow> vstate \<Rightarrow> vstate" where
  "vs_merge a b = \<lparr>vregs = map2 tnum_merge (vregs a) (vregs b),
     vstack = map2 tnum_merge (vstack a) (vstack b)\<rparr>"

definition vs_eq :: "vstate \<Rightarrow> vstate \<Rightarrow> bool" where
  "vs_eq a b \<longleftrightarrow> list_all2 (=) (vregs a) (vregs b) \<and> list_all2 (=) (vstack a) (vstack b)"

definition sz_bytes :: "u8 \<Rightarrow> nat" where
  "sz_bytes code = size_bytes (code AND BPF_SIZE_MASK)"

definition check_stack_acc :: "tnum \<Rightarrow> i16 \<Rightarrow> nat \<Rightarrow> bool" where
  "check_stack_acc base off sz =
    (let bm = tnum_max base
     in if bm > of_nat STACK_SIZE * 8 then False
        else let addr = bm + scast off; e = addr + (of_nat sz - 1)
             in sint addr \<ge> 0 \<and> sint e < int STACK_SIZE)"

definition alu_op_tnum :: "u8 \<Rightarrow> tnum \<Rightarrow> tnum \<Rightarrow> bool \<Rightarrow> tnum" where
  "alu_op_tnum op dst src is_alu32 =
    (let r =
       (if op = BPF_ADD then tnum_add dst src
        else if op = BPF_SUB then tnum_sub dst src
        else if op = BPF_MUL then tnum_mul dst src
        else if op = BPF_DIV then tnum_any
        else if op = BPF_OR then tnum_or dst src
        else if op = BPF_AND then tnum_and dst src
        else if op = BPF_LSH then tnum_shl dst src
        else if op = BPF_RSH then tnum_lshr dst src
        else if op = BPF_NEG then tnum_neg dst
        else if op = BPF_MOD then tnum_any
        else if op = BPF_XOR then tnum_xor dst src
        else if op = BPF_MOV then src
        else if op = BPF_ARSH then tnum_ashr dst src
        else tnum_any);
         lo = 0xFFFFFFFF
     in if is_alu32 then mk_tnum (tvalue r AND lo AND NOT (tmask r)) ((tmask r AND lo) OR NOT lo)
        else r)"

definition mask32 :: "tnum \<Rightarrow> tnum" where
  "mask32 t = (let lo = 0xFFFFFFFF in mk_tnum (tvalue t AND lo) ((tmask t AND lo) OR NOT lo))"

text \<open>The immediate as an \<^verbatim>\<open>i64\<close> and as a zero-extended \<^verbatim>\<open>u32\<close>.\<close>

abbreviation imm64 :: "ebpf_insn \<Rightarrow> u64" where "imm64 i \<equiv> scast (iimm i)"
abbreviation imm32 :: "ebpf_insn \<Rightarrow> u64" where "imm32 i \<equiv> ucast (iimm i)"

datatype tv_step = TvPanic | TvReject | TvPush "(nat \<times> vstate) list"

abbreviation push_next :: "ebpf_insn list \<Rightarrow> nat \<Rightarrow> vstate \<Rightarrow> tv_step" where
  "push_next insns nxt post \<equiv> TvPush (if nxt < length insns then [(nxt, post)] else [])"

definition set_vreg :: "vstate \<Rightarrow> u8 \<Rightarrow> tnum \<Rightarrow> vstate" where
  "set_vreg st r t = st\<lparr>vregs := (vregs st)[unat r := t]\<rparr>"

definition tv_alu :: "ebpf_insn list \<Rightarrow> nat \<Rightarrow> vstate \<Rightarrow> tv_step" where
  "tv_alu insns cur pre =
    (let insn = insns ! cur; op = op_of insn; is64 = (cls_of insn = BPF_ALU64);
         use_imm = (icode insn AND 0x08 \<noteq> 0);
         widen = (\<lambda>t. if is64 then t else mask32 t)
     in if (\<not> use_imm \<and> unat (src_reg insn) \<ge> 11) \<or> unat (dst_reg insn) \<ge> 11 then TvPanic
        else
          let src_tnum = (if use_imm then tnum_exact (if is64 then imm64 insn else imm32 insn)
                          else widen (vregs pre ! unat (src_reg insn)));
              dst_tnum = widen (vregs pre ! unat (dst_reg insn))
          in if (op = BPF_DIV \<or> op = BPF_MOD) \<and> could_be_zero src_tnum then TvReject
             else push_next insns (cur + 1)
               (set_vreg pre (dst_reg insn) (alu_op_tnum op dst_tnum src_tnum (\<not> is64))))"

definition tv_ldx :: "ebpf_insn list \<Rightarrow> nat \<Rightarrow> vstate \<Rightarrow> tv_step" where
  "tv_ldx insns cur pre =
    (let insn = insns ! cur
     in if unat (src_reg insn) \<ge> 11 then TvPanic
        else if \<not> check_stack_acc (vregs pre ! unat (src_reg insn)) (ioff insn) (sz_bytes (icode insn))
        then TvReject
        else if unat (dst_reg insn) \<ge> 11 then TvPanic
        else push_next insns (cur + 1) (set_vreg pre (dst_reg insn) tnum_any))"

definition tv_st :: "ebpf_insn list \<Rightarrow> nat \<Rightarrow> vstate \<Rightarrow> tv_step" where
  "tv_st insns cur pre =
    (let insn = insns ! cur; sz = (if icode insn AND BPF_SIZE_MASK = 0x00 then 8 else 4 :: nat)
     in if unat (dst_reg insn) \<ge> 11 then TvPanic
        else
          let base = vregs pre ! unat (dst_reg insn)
          in if \<not> check_stack_acc base (ioff insn) sz then TvReject
             else push_next insns (cur + 1)
               (write_stack pre (tnum_min base + scast (ioff insn)) (of_nat sz)
                 (tnum_exact (imm64 insn))))"

definition tv_stx :: "ebpf_insn list \<Rightarrow> nat \<Rightarrow> vstate \<Rightarrow> tv_step" where
  "tv_stx insns cur pre =
    (let insn = insns ! cur; sz = sz_bytes (icode insn)
     in if unat (dst_reg insn) \<ge> 11 then TvPanic
        else
          let base = vregs pre ! unat (dst_reg insn)
          in if \<not> check_stack_acc base (ioff insn) sz then TvReject
             else if unat (src_reg insn) \<ge> 11 then TvPanic
             else push_next insns (cur + 1)
               (write_stack pre (tnum_min base + scast (ioff insn)) (of_nat sz)
                 (vregs pre ! unat (src_reg insn))))"

definition refine_cond :: "vstate \<Rightarrow> ebpf_insn \<Rightarrow> bool \<Rightarrow> bool \<Rightarrow> vstate option" where
  "refine_cond pre insn taken is32 =
    (let op = op_of insn; use_imm = (icode insn AND 0x08 \<noteq> 0);
         eq = (op = BPF_JEQ \<and> taken \<or> op = BPF_JNE \<and> \<not> taken)
     in if op = BPF_JEQ \<or> op = BPF_JNE then
          if use_imm \<and> eq then
            (if unat (dst_reg insn) \<ge> 11 then None
             else Some (set_vreg pre (dst_reg insn)
               (tnum_exact (if is32 then imm32 insn else imm64 insn))))
          else if \<not> use_imm \<and> eq \<and> src_reg insn \<noteq> dst_reg insn then
            (if unat (src_reg insn) \<ge> 11 \<or> unat (dst_reg insn) \<ge> 11 then None
             else
               let r = tnum_intersect (vregs pre ! unat (dst_reg insn)) (vregs pre ! unat (src_reg insn))
               in Some (set_vreg (set_vreg pre (dst_reg insn) r) (src_reg insn) r))
          else Some pre
        else Some pre)"

fun clobber :: "vstate \<Rightarrow> u8 list \<Rightarrow> vstate" where
  "clobber st [] = st"
| "clobber st (r # rs) = clobber (set_vreg st r tnum_any) rs"

definition tv_jmp :: "ebpf_insn list \<Rightarrow> nat \<Rightarrow> vstate \<Rightarrow> tv_step" where
  "tv_jmp insns cur pre =
    (let insn = insns ! cur; op = op_of insn; target = jump_target cur insn
     in if op = BPF_EXIT then
          (if vregs pre ! 0 = tnum_any then TvReject else TvPush [])
        else if op = BPF_CALL then
          (if sint (iimm insn) \<ge> 1 \<and> sint (iimm insn) \<le> 3 then
             push_next insns (cur + 1) (clobber (set_vreg pre 0 tnum_any) [1, 2, 3, 4, 5])
           else if iimm insn = 4 then
             push_next insns (cur + 1) (clobber (set_vreg pre 0 (tnum_exact 0)) [1, 2, 3, 4, 5])
           else TvReject)
        else if op = BPF_JA then
          (if target \<ge> length insns then TvReject else TvPush [(target, pre)])
        else if target \<ge> length insns then TvReject
        else
          let is32 = (cls_of insn = BPF_JMP32)
          in case (refine_cond pre insn True is32, refine_cond pre insn False is32) of
               (Some taken, Some fallthru) \<Rightarrow> TvPush [(target, taken), (cur + 1, fallthru)]
             | _ \<Rightarrow> TvPanic)"

definition tv_ld :: "ebpf_insn list \<Rightarrow> nat \<Rightarrow> vstate \<Rightarrow> tv_step" where
  "tv_ld insns cur pre =
    (let insn = insns ! cur
     in if icode insn AND BPF_SIZE_MASK = BPF_DW \<and> icode insn AND 0xe0 = 0x00 then
          if cur + 1 \<ge> length insns then TvReject
          else if unat (dst_reg insn) \<ge> 11 then TvPanic
          else push_next insns (cur + 2)
            (set_vreg pre (dst_reg insn) (tnum_exact (ld_imm64 insn (insns ! (cur + 1)))))
        else TvReject)"

definition tv_insn :: "ebpf_insn list \<Rightarrow> nat \<Rightarrow> vstate \<Rightarrow> tv_step" where
  "tv_insn insns cur pre =
    (if cur \<ge> length insns then TvPanic
     else
       let cls = cls_of (insns ! cur)
       in if cls = BPF_ALU \<or> cls = BPF_ALU64 then tv_alu insns cur pre
          else if cls = BPF_LDX then tv_ldx insns cur pre
          else if cls = BPF_ST then tv_st insns cur pre
          else if cls = BPF_STX then tv_stx insns cur pre
          else if cls = BPF_JMP \<or> cls = BPF_JMP32 then tv_jmp insns cur pre
          else if cls = BPF_LD then tv_ld insns cur pre
          else TvReject)"

type_synonym state_map = "nat \<Rightarrow> vstate option"

definition push_merged :: "state_map \<times> nat list \<Rightarrow> nat \<times> vstate \<Rightarrow> state_map \<times> nat list" where
  "push_merged = (\<lambda>(sm, wl) (target, new_state).
    (case sm target of
       Some existing \<Rightarrow>
         let merged = vs_merge existing new_state
         in if \<not> vs_eq existing merged then (sm(target \<mapsto> merged), target # wl) else (sm, wl)
     | None \<Rightarrow> (sm(target \<mapsto> new_state), target # wl)))"

datatype tv_verdict = Rejected | Paniced | Fixpoint state_map

fun tnum_walk :: "ebpf_insn list \<Rightarrow> nat \<Rightarrow> state_map \<Rightarrow> nat list \<Rightarrow> tv_verdict" where
  "tnum_walk insns budget sm [] = Fixpoint sm"
| "tnum_walk insns 0 sm (cur # wl) = Rejected"
| "tnum_walk insns (Suc budget) sm (cur # wl) =
    (case sm cur of
       None \<Rightarrow> tnum_walk insns budget sm wl
     | Some pre \<Rightarrow>
         (case tv_insn insns cur pre of
            TvPanic \<Rightarrow> Paniced
          | TvReject \<Rightarrow> Rejected
          | TvPush ps \<Rightarrow>
              let (sm', wl') = foldl push_merged (sm, wl) ps in tnum_walk insns budget sm' wl'))"

definition tnum_run :: "ebpf_insn list \<Rightarrow> tv_verdict" where
  "tnum_run insns = tnum_walk insns (walk_budget insns) [0 \<mapsto> vs_init] [0]"

text \<open>\<open>None\<close> is an index panic.\<close>

definition tnum_verify :: "ebpf_insn list \<Rightarrow> bool option" where
  "tnum_verify insns =
    (if insns = [] \<or> length insns > 4096 then Some False
     else case tnum_run insns of
            Rejected \<Rightarrow> Some False
          | Paniced \<Rightarrow> None
          | Fixpoint sm \<Rightarrow>
              (case sm (length insns - 1) of
                 Some st \<Rightarrow> Some (vregs st ! 0 \<noteq> tnum_any)
               | None \<Rightarrow> Some True))"

section \<open>The walk computes reachability\<close>

definition walk_edges :: "ebpf_insn list \<Rightarrow> (nat \<times> nat) set" where
  "walk_edges insns = {(a, b). b \<in> set (walk_succs insns a)}"

lemma walk_succs_bounds: "length (walk_succs insns a) \<le> 2" "set (walk_succs insns a) \<subseteq> {..<length insns}"
  by (auto simp: walk_succs_def Let_def)

lemma verify_walk_spec:
  assumes "set wl \<subseteq> {..<n}" "visited \<subseteq> {..<n}" "n = length insns"
    and "walk_edges insns `` visited \<subseteq> visited \<union> set wl"
    and "2 * card ({..<n} - visited) + length wl \<le> budget"
  shows "\<exists>V. verify_walk insns budget wl visited = Some V \<and> visited \<union> set wl \<subseteq> V
    \<and> walk_edges insns `` V \<subseteq> V \<and> V \<subseteq> visited \<union> (walk_edges insns)\<^sup>* `` set wl"
  using assms
proof (induction insns budget wl visited rule: verify_walk.induct)
  case (1 insns budget visited)
  then show ?case by simp
next
  case (2 insns cur wl visited)
  then show ?case by simp
next
  case (3 insns budget cur wl visited)
  show ?case
  proof (cases "cur \<in> visited")
    case True
    then have *: "visited \<union> set wl = visited \<union> set (cur # wl)" by auto
    have "\<exists>V. verify_walk insns budget wl visited = Some V \<and> visited \<union> set wl \<subseteq> V
        \<and> walk_edges insns `` V \<subseteq> V \<and> V \<subseteq> visited \<union> (walk_edges insns)\<^sup>* `` set wl"
    proof (rule 3(1) [OF True])
      show "set wl \<subseteq> {..<n}" using 3(3) by simp
      show "walk_edges insns `` visited \<subseteq> visited \<union> set wl" using 3(6) by (simp only: *)
      show "2 * card ({..<n} - visited) + length wl \<le> budget" using 3(7) by simp
    qed (rule 3(4) 3(5))+
    then obtain V where V: "verify_walk insns budget wl visited = Some V" "visited \<union> set wl \<subseteq> V"
      "walk_edges insns `` V \<subseteq> V" "V \<subseteq> visited \<union> (walk_edges insns)\<^sup>* `` set wl" by blast
    have "(walk_edges insns)\<^sup>* `` set wl \<subseteq> (walk_edges insns)\<^sup>* `` set (cur # wl)"
      by (rule Image_mono) auto
    with V have "V \<subseteq> visited \<union> (walk_edges insns)\<^sup>* `` set (cur # wl)" by blast
    with V(1-3) True show ?thesis by auto
  next
    case False
    define ss where "ss = walk_succs insns cur"
    have ss: "length ss \<le> 2" "set ss \<subseteq> {..<n}" "walk_edges insns `` {cur} = set ss"
      using walk_succs_bounds [of insns cur] 3(5) by (auto simp: ss_def walk_edges_def)
    have "cur \<in> {..<n} - visited" using 3(3) False by simp
    then have "card ({..<n} - visited) = Suc (card ({..<n} - visited - {cur}))"
      by (intro card.remove) simp_all
    then have "Suc (card ({..<n} - insert cur visited)) = card ({..<n} - visited)"
      using Diff_insert [of "{..<n}" cur visited] by simp
    then have "2 * card ({..<n} - insert cur visited) + length (ss @ wl) \<le> budget"
      using ss(1) 3(7) by simp
    moreover have "walk_edges insns `` insert cur visited \<subseteq> insert cur visited \<union> set (ss @ wl)"
      using 3(6) ss(3) by auto
    ultimately have "\<exists>V. verify_walk insns budget (ss @ wl) (insert cur visited) = Some V
        \<and> insert cur visited \<union> set (ss @ wl) \<subseteq> V \<and> walk_edges insns `` V \<subseteq> V
        \<and> V \<subseteq> insert cur visited \<union> (walk_edges insns)\<^sup>* `` set (ss @ wl)"
      using 3(2) [OF False, folded ss_def] 3(3-5) ss(2) by simp
    then obtain V where V: "verify_walk insns budget (ss @ wl) (insert cur visited) = Some V"
      "insert cur visited \<union> set (ss @ wl) \<subseteq> V" "walk_edges insns `` V \<subseteq> V"
      "V \<subseteq> insert cur visited \<union> (walk_edges insns)\<^sup>* `` set (ss @ wl)" by blast
    have "(walk_edges insns)\<^sup>* `` set ss \<subseteq> (walk_edges insns)\<^sup>* `` {cur}"
      unfolding ss(3) [symmetric] by (auto intro: converse_rtrancl_into_rtrancl)
    moreover have "(walk_edges insns)\<^sup>* `` {cur} \<subseteq> (walk_edges insns)\<^sup>* `` set (cur # wl)"
      "(walk_edges insns)\<^sup>* `` set wl \<subseteq> (walk_edges insns)\<^sup>* `` set (cur # wl)"
      "cur \<in> (walk_edges insns)\<^sup>* `` set (cur # wl)" by auto
    ultimately have "V \<subseteq> visited \<union> (walk_edges insns)\<^sup>* `` set (cur # wl)"
      using V(4) unfolding set_append Image_Un by blast
    then show ?thesis using V False by (simp add: ss_def)
  qed
qed

lemma walk_budget_eq: "length insns \<le> 4096 \<Longrightarrow> walk_budget insns = 64 * length insns"
  by (simp add: walk_budget_def saturating_mul_def MAX_TNUM_STEPS_PER_INSN_def unat_of_nat
      unat_mult_exact take_bit_nat_eq_self)

lemma verify_walk_reach:
  assumes "insns \<noteq> []" "length insns \<le> 4096"
  shows "verify_walk insns (walk_budget insns) [0] {} = Some ((walk_edges insns)\<^sup>* `` {0})"
proof -
  have "1 \<le> length insns" using assms(1) by (cases insns) auto
  then have "\<exists>V. verify_walk insns (walk_budget insns) [0] {} = Some V \<and> {} \<union> set [0] \<subseteq> V
      \<and> walk_edges insns `` V \<subseteq> V \<and> V \<subseteq> {} \<union> (walk_edges insns)\<^sup>* `` set [0]"
    using assms by (intro verify_walk_spec [where n = "length insns"]) (auto simp: walk_budget_eq)
  then obtain V where V: "verify_walk insns (walk_budget insns) [0] {} = Some V" "0 \<in> V"
    "walk_edges insns `` V \<subseteq> V" "V \<subseteq> (walk_edges insns)\<^sup>* `` {0}" by auto
  have "(walk_edges insns)\<^sup>* `` {0} \<subseteq> V"
    using V(2,3) Image_closed_trancl [OF V(3)] by blast
  with V show ?thesis by auto
qed

section \<open>The worklist iteration ends in a fixpoint\<close>

lemma tnum_eqI: "tvalue a = tvalue b \<Longrightarrow> tmask a = tmask b \<Longrightarrow> a = b"
  for a b :: tnum
  by (cases a; cases b) simp

lemma tnum_merge_idem: "tnum_merge a a = a"
  by (rule tnum_eqI) (simp_all add: tnum_merge_def)

lemma tnum_merge_assoc: "tnum_merge (tnum_merge a b) c = tnum_merge a (tnum_merge b c)"
  by (rule tnum_eqI; rule bit_word_eqI) (auto simp: tnum_merge_def bit_simps)

lemma tnum_merge_commute: "tnum_merge a b = tnum_merge b a"
  by (rule tnum_eqI; rule bit_word_eqI) (auto simp: tnum_merge_def bit_simps)

definition vs_ok :: "vstate \<Rightarrow> bool" where
  "vs_ok st \<longleftrightarrow> length (vregs st) = 11 \<and> length (vstack st) = 64"

definition vs_le :: "vstate \<Rightarrow> vstate \<Rightarrow> bool" where
  "vs_le a b \<longleftrightarrow> vs_merge b a = b"

lemma vs_eq_iff [simp]: "vs_eq a b \<longleftrightarrow> a = b"
  by (cases a; cases b) (simp add: vs_eq_def list.rel_eq)

lemma map2_merge_idem: "map2 tnum_merge xs xs = xs"
  by (induction xs) (simp_all add: tnum_merge_idem)

lemma map2_merge_assoc:
  "map2 tnum_merge (map2 tnum_merge xs ys) zs = map2 tnum_merge xs (map2 tnum_merge ys zs)"
  by (induction xs arbitrary: ys zs) (simp_all add: zip_Cons zip_Cons1 tnum_merge_assoc split: list.split)

lemma map2_merge_commute: "map2 tnum_merge xs ys = map2 tnum_merge ys xs"
  by (induction xs arbitrary: ys) (simp_all add: zip_Cons1 tnum_merge_commute split: list.split)

lemma vs_merge_ok: "vs_ok a \<Longrightarrow> vs_ok b \<Longrightarrow> vs_ok (vs_merge a b)"
  by (simp add: vs_ok_def vs_merge_def)

lemma vs_merge_assoc: "vs_merge (vs_merge a b) c = vs_merge a (vs_merge b c)"
  by (simp add: vs_merge_def map2_merge_assoc)

lemma vs_merge_commute: "vs_merge a b = vs_merge b a"
  by (simp add: vs_merge_def map2_merge_commute)

lemma vs_merge_idem: "vs_merge a a = a"
  by (cases a) (simp add: vs_merge_def map2_merge_idem)

lemma vs_le_refl: "vs_le a a"
  by (simp add: vs_le_def vs_merge_idem)

lemma vs_le_trans: "vs_le a b \<Longrightarrow> vs_le b c \<Longrightarrow> vs_le a c"
  unfolding vs_le_def by (metis vs_merge_assoc)

lemma vs_le_merge: "vs_le a (vs_merge a b)" "vs_le b (vs_merge a b)"
  unfolding vs_le_def by (metis vs_merge_assoc vs_merge_commute vs_merge_idem)+

definition sm_le :: "state_map \<Rightarrow> state_map \<Rightarrow> bool" where
  "sm_le sm sm' \<longleftrightarrow> (\<forall>q st. sm q = Some st \<longrightarrow> (\<exists>st'. sm' q = Some st' \<and> vs_le st st'))"

definition holds_in :: "state_map \<Rightarrow> nat \<times> vstate \<Rightarrow> bool" where
  "holds_in sm = (\<lambda>(t, s). \<exists>s'. sm t = Some s' \<and> vs_le s s')"

definition tv_stable :: "ebpf_insn list \<Rightarrow> state_map \<Rightarrow> nat \<Rightarrow> bool" where
  "tv_stable insns sm q \<longleftrightarrow> (\<exists>st ps. sm q = Some st \<and> tv_insn insns q st = TvPush ps
     \<and> (\<forall>p \<in> set ps. holds_in sm p))"

lemma sm_le_refl: "sm_le sm sm"
  by (simp add: sm_le_def vs_le_refl)

lemma sm_le_trans: "sm_le a b \<Longrightarrow> sm_le b c \<Longrightarrow> sm_le a c"
  unfolding sm_le_def by (meson vs_le_trans)

lemma holds_in_mono: "holds_in sm p \<Longrightarrow> sm_le sm sm' \<Longrightarrow> holds_in sm' p"
  unfolding holds_in_def sm_le_def by (auto split: prod.splits) (meson vs_le_trans)

definition sm_ok :: "state_map \<Rightarrow> bool" where
  "sm_ok sm \<longleftrightarrow> (\<forall>q st. sm q = Some st \<longrightarrow> vs_ok st)"

lemma push_merged_spec:
  assumes "push_merged (sm, wl) p = (sm', wl')" "sm_ok sm" "vs_ok (snd p)"
  shows "sm_le sm sm' \<and> holds_in sm' p \<and> sm_ok sm' \<and> set wl \<subseteq> set wl'
    \<and> (\<forall>q. sm' q \<noteq> sm q \<longrightarrow> q \<in> set wl')"
proof (cases p)
  case (Pair t s)
  show ?thesis
  proof (cases "sm t")
    case None
    then show ?thesis using assms Pair
      by (auto simp: push_merged_def sm_le_def holds_in_def sm_ok_def vs_le_refl
          split: if_splits)
  next
    case (Some e)
    then have "vs_ok e" using assms(2) by (auto simp: sm_ok_def)
    show ?thesis
    proof (cases "e = vs_merge e s")
      case True
      then have "vs_le s e" by (simp add: vs_le_def)
      then show ?thesis using assms Pair Some True
        by (auto simp: push_merged_def Let_def sm_le_refl holds_in_def)
    next
      case False
      then show ?thesis using assms Pair Some \<open>vs_ok e\<close> vs_le_merge(1) [of e s] vs_le_merge(2) [of s e] vs_merge_ok [of e s]
        by (auto simp: push_merged_def Let_def sm_le_def holds_in_def sm_ok_def vs_le_refl
            split: if_splits)
    qed
  qed
qed

lemma push_all_spec:
  assumes "foldl push_merged (sm, wl) ps = (sm', wl')" "sm_ok sm" "\<forall>p \<in> set ps. vs_ok (snd p)"
  shows "sm_le sm sm' \<and> (\<forall>p \<in> set ps. holds_in sm' p) \<and> sm_ok sm' \<and> set wl \<subseteq> set wl'
    \<and> (\<forall>q. sm' q \<noteq> sm q \<longrightarrow> q \<in> set wl')"
  using assms
proof (induction ps arbitrary: sm wl)
  case Nil
  then show ?case by (simp add: sm_le_refl)
next
  case (Cons p ps)
  obtain sm1 wl1 where p: "push_merged (sm, wl) p = (sm1, wl1)" by force
  have 1: "sm_le sm sm1" "holds_in sm1 p" "sm_ok sm1" "set wl \<subseteq> set wl1" "\<forall>q. sm1 q \<noteq> sm q \<longrightarrow> q \<in> set wl1"
    using push_merged_spec [OF p] Cons.prems by auto
  have 2: "sm_le sm1 sm'" "\<forall>p \<in> set ps. holds_in sm' p" "sm_ok sm'" "set wl1 \<subseteq> set wl'"
    "\<forall>q. sm' q \<noteq> sm1 q \<longrightarrow> q \<in> set wl'"
    using Cons.IH [of sm1 wl1] Cons.prems p 1(3) by auto
  have "q \<in> set wl'" if "sm' q \<noteq> sm q" for q
    using that 1(5) 2(4,5) by (cases "sm1 q = sm q") auto
  then show ?case
    using 1 2 sm_le_trans [OF 1(1) 2(1)] holds_in_mono [OF 1(2) 2(1)] by auto
qed

lemma length_write_slots [simp]: "length (write_slots s k n t) = length s"
  by (induction s k n t rule: write_slots.induct) auto

lemma vs_ok_simps [simp]:
  "vs_ok (set_vreg st r t) = vs_ok st" "vs_ok (write_stack st off sz t) = vs_ok st"
  "vs_ok (clobber st rs) = vs_ok st"
  by (simp add: vs_ok_def set_vreg_def)
    (simp add: vs_ok_def write_stack_def Let_def,
     induction st rs rule: clobber.induct, simp_all add: vs_ok_def set_vreg_def)

lemma refine_cond_ok: "vs_ok pre \<Longrightarrow> refine_cond pre insn b c = Some st \<Longrightarrow> vs_ok st"
  by (auto simp: refine_cond_def Let_def split: if_splits)

lemma tv_insn_ok:
  assumes "vs_ok pre" "tv_insn insns cur pre = TvPush ps"
  shows "\<forall>p \<in> set ps. vs_ok (snd p)"
proof -
  have "tv_jmp insns cur pre = TvPush ps \<Longrightarrow> \<forall>p \<in> set ps. vs_ok (snd p)"
    using assms(1) refine_cond_ok
    by (auto simp: tv_jmp_def Let_def split: if_splits option.splits)
  then show ?thesis using assms
    by (auto simp: tv_insn_def Let_def tv_alu_def tv_ldx_def tv_st_def tv_stx_def tv_ld_def
        split: if_splits)
qed

lemma tnum_walk_fixpoint:
  assumes "tnum_walk insns budget sm wl = Fixpoint sm'" "sm_ok sm"
    and "\<forall>q \<in> dom sm - set wl. tv_stable insns sm q"
  shows "sm_le sm sm' \<and> sm_ok sm' \<and> (\<forall>q \<in> dom sm'. tv_stable insns sm' q)"
  using assms
proof (induction insns budget sm wl rule: tnum_walk.induct)
  case (1 insns budget sm)
  then show ?case by (simp add: sm_le_refl)
next
  case (2 insns sm cur wl)
  then show ?case by simp
next
  case (3 insns budget sm cur wl)
  show ?case
  proof (cases "sm cur")
    case None
    then have "dom sm - set wl = dom sm - set (cur # wl)" by auto
    then show ?thesis using 3(1) [OF None] 3(3-5) None by simp
  next
    case (Some pre)
    obtain ps where ps: "tv_insn insns cur pre = TvPush ps"
      using 3(3) Some by (cases "tv_insn insns cur pre") auto
    obtain sm1 wl1 where f: "foldl push_merged (sm, wl) ps = (sm1, wl1)" by force
    have "vs_ok pre" using 3(4) Some by (auto simp: sm_ok_def)
    then have push: "sm_le sm sm1" "\<forall>p \<in> set ps. holds_in sm1 p" "sm_ok sm1" "set wl \<subseteq> set wl1"
        "\<forall>q. sm1 q \<noteq> sm q \<longrightarrow> q \<in> set wl1"
      using push_all_spec [OF f 3(4) tv_insn_ok [OF _ ps]] by auto
    have "tv_stable insns sm1 q" if q: "q \<in> dom sm1 - set wl1" for q
    proof -
      have same: "sm1 q = sm q" using push(5) q by auto
      show ?thesis
      proof (cases "q = cur")
        case True
        then show ?thesis using Some ps push(2) same unfolding tv_stable_def by auto
      next
        case False
        then have "q \<in> dom sm - set (cur # wl)" using q same push(4) by (auto simp: domIff)
        then have "tv_stable insns sm q" using 3(5) by blast
        then show ?thesis
          using same holds_in_mono [OF _ push(1)] unfolding tv_stable_def by metis
      qed
    qed
    then have "sm_le sm1 sm' \<and> sm_ok sm' \<and> (\<forall>q \<in> dom sm'. tv_stable insns sm' q)"
      using 3(2) [OF Some ps] f 3(3) Some ps push(3) by auto
    then show ?thesis using sm_le_trans [OF push(1)] by blast
  qed
qed

lemma verify_iff:
  "verify insns \<longleftrightarrow>
    insns \<noteq> [] \<and> length insns \<le> 4096
    \<and> (\<forall>i < length insns. insn_ok insns i)
    \<and> op_of (last insns) = BPF_EXIT
    \<and> target_ok insns 0 \<and> target_ok insns (length insns - 1)
    \<and> (\<forall>i < length insns. \<exists>ts. insn_targets insns i = Some ts \<and> (\<forall>t \<in> set ts. target_ok insns t))
    \<and> (\<forall>i < length insns. (0, i) \<in> (walk_edges insns)\<^sup>* \<or> i > 0 \<and> is_ld_dw (insns ! (i - 1)))"
proof (cases "insns \<noteq> [] \<and> length insns \<le> 4096")
  case True
  have collect: "(\<exists>ts. collect_targets insns is = Some ts \<and> list_all (target_ok insns) ts)
      \<longleftrightarrow> (\<forall>i \<in> set is. \<exists>ts. insn_targets insns i = Some ts \<and> (\<forall>t \<in> set ts. target_ok insns t))" for "is"
    by (induction "is") (auto simp: list_all_iff split: option.splits)
  show ?thesis
    using True collect [of "[0..<length insns]"] verify_walk_reach [of insns]
    by (auto simp: verify_def covered_def list_all_iff Ball_def split: option.splits)
qed (auto simp: verify_def)


definition store_prog :: "ebpf_insn list" where
  "store_prog = [insn_new 0xbf 0 0 0 0, insn_new 0x63 10 0 (- 8) 0, insn_new 0x95 0 0 0 0]"

definition loop_prog :: "ebpf_insn list" where
  "loop_prog = [insn_new 0xbf 0 0 0 0, insn_new 0x05 0 0 0 0, insn_new 0x95 0 0 0 0]"

lemma verify_walk_mono:
  "verify_walk insns b wl vis = Some V \<Longrightarrow> b \<le> b' \<Longrightarrow> verify_walk insns b' wl vis = Some V"
proof (induction insns b wl vis arbitrary: b' rule: verify_walk.induct)
  case (3 insns budget cur wl visited)
  then show ?case by (cases b') (auto split: if_splits)
qed simp_all

lemma tnum_walk_mono:
  "tnum_walk insns b sm wl = Fixpoint sm' \<Longrightarrow> b \<le> b' \<Longrightarrow> tnum_walk insns b' sm wl = Fixpoint sm'"
proof (induction insns b sm wl arbitrary: b' rule: tnum_walk.induct)
  case (3 insns budget sm cur wl)
  obtain c where c: "b' = Suc c" "budget \<le> c" using 3(4) by (cases b') auto
  show ?case
  proof (cases "sm cur")
    case None
    then show ?thesis using 3(1) [OF None _ c(2)] 3(3) c(1) by simp
  next
    case (Some pre)
    obtain ps where ps: "tv_insn insns cur pre = TvPush ps"
      using 3(3) Some by (cases "tv_insn insns cur pre") auto
    obtain sm1 wl1 where f: "foldl push_merged (sm, wl) ps = (sm1, wl1)" by force
    then show ?thesis using 3(2) [OF Some ps f [symmetric] refl _ c(2)] 3(3) c(1) Some ps by simp
  qed
qed simp_all

lemmas prog_eval = insn_new_def is_jmp_def is_ld_dw_def jump_target_def Let_def

lemma verifyI:
  assumes "insns \<noteq> []" "length insns \<le> 4096" "list_all (insn_ok insns) [0..<length insns]"
    "op_of (last insns) = BPF_EXIT" "collect_targets insns [0..<length insns] = Some ts"
    "list_all (target_ok insns) (0 # (length insns - 1) # ts)"
    "verify_walk insns b [0] {} = Some V" "b \<le> length insns" "covered insns V"
  shows "verify insns"
proof -
  have "verify_walk insns (walk_budget insns) [0] {} = Some V"
    using assms(2,8) by (intro verify_walk_mono [OF assms(7)]) (simp add: walk_budget_eq)
  with assms show ?thesis by (simp add: verify_def)
qed

lemma upt_3: "[0..<3] = [0, 1, 2 :: nat]"
  by (simp add: upt_conv_Cons)

lemma store_prog_simps:
  "length store_prog = 3" "store_prog \<noteq> []" "last store_prog = insn_new 0x95 0 0 0 0"
  "store_prog ! 0 = insn_new 0xbf 0 0 0 0" "store_prog ! Suc 0 = insn_new 0x63 10 0 (- 8) 0"
  "store_prog ! 2 = insn_new 0x95 0 0 0 0"
  by (simp_all add: store_prog_def)

lemma store_ok: "insn_ok store_prog 0" "insn_ok store_prog (Suc 0)" "insn_ok store_prog 2"
  by (simp_all add: insn_ok_def store_prog_simps prog_eval off_in_range_def)

lemma store_targets: "insn_targets store_prog 0 = Some [1]"
   "insn_targets store_prog (Suc 0) = Some [2]"
   "insn_targets store_prog 2 = Some []"
  by (simp_all add: insn_targets_def store_prog_simps prog_eval)

lemma store_succs: "walk_succs store_prog 0 = [1]"
   "walk_succs store_prog (Suc 0) = [2]"
   "walk_succs store_prog 2 = []"
  by (simp_all add: walk_succs_def store_prog_simps prog_eval)

lemma store_verify: "verify store_prog"
  by (rule verifyI [where ts = "[1, 2]" and V = "{2, 1, 0}" and b = "Suc (Suc (Suc 0))"])
   (simp_all add: store_prog_simps upt_3 store_ok store_targets store_succs
      prog_eval target_ok_def covered_def)

lemma loop_prog_simps:
  "length loop_prog = 3" "loop_prog \<noteq> []" "last loop_prog = insn_new 0x95 0 0 0 0"
  "loop_prog ! 0 = insn_new 0xbf 0 0 0 0" "loop_prog ! Suc 0 = insn_new 0x05 0 0 0 0"
  "loop_prog ! 2 = insn_new 0x95 0 0 0 0"
  by (simp_all add: loop_prog_def)

lemma loop_verify: "verify loop_prog"
proof -
  have "insn_ok loop_prog 0" "insn_ok loop_prog (Suc 0)" "insn_ok loop_prog 2"
    by (simp_all add: insn_ok_def loop_prog_simps prog_eval off_in_range_def)
  moreover have "insn_targets loop_prog 0 = Some [1]" "insn_targets loop_prog (Suc 0) = Some [2]"
    "insn_targets loop_prog 2 = Some []"
    by (simp_all add: insn_targets_def loop_prog_simps prog_eval)
  moreover have "walk_succs loop_prog 0 = [1]" "walk_succs loop_prog (Suc 0) = [2]"
    "walk_succs loop_prog 2 = []"
    by (simp_all add: walk_succs_def loop_prog_simps prog_eval)
  ultimately show ?thesis
    by (intro verifyI [where ts = "[1, 2]" and V = "{2, 1, 0}" and b = "Suc (Suc (Suc 0))"])
      (simp_all add: loop_prog_simps upt_3 prog_eval target_ok_def covered_def)
qed

definition mov_state :: vstate where
  "mov_state = set_vreg vs_init 0 (tnum_exact 0)"

lemma mov_state_regs: "vregs mov_state ! 0 = tnum_exact 0" "vregs mov_state ! 10 = tnum_exact 512"
  by (simp_all add: mov_state_def set_vreg_def vs_init_def vs_new_def)

lemma exact_not_any: "tnum_exact v \<noteq> tnum_any"
  by (simp add: tnum_exact_def tnum_any_def)

lemma tnum_verifyI:
  assumes "insns \<noteq> []" "length insns \<le> 4096"
    "tnum_walk insns b [0 \<mapsto> vs_init] [0] = Fixpoint sm" "b \<le> length insns"
    "sm (length insns - 1) = Some st" "vregs st ! 0 \<noteq> tnum_any"
  shows "tnum_verify insns = Some True"
proof -
  have "tnum_run insns = Fixpoint sm"
    using assms(2,4) unfolding tnum_run_def
    by (intro tnum_walk_mono [OF assms(3)]) (simp add: walk_budget_eq)
  with assms show ?thesis by (simp add: tnum_verify_def)
qed

lemma mov_insn:
  "insns ! 0 = insn_new 0xbf 0 0 0 0 \<Longrightarrow> length insns = 3 \<Longrightarrow>
    tv_insn insns 0 vs_init = TvPush [(Suc 0, mov_state)]"
  by (simp add: tv_insn_def tv_alu_def prog_eval alu_op_tnum_def mov_state_def)

lemma exit_insn:
  "insns ! 2 = insn_new 0x95 0 0 0 0 \<Longrightarrow> length insns = 3 \<Longrightarrow> vregs st ! 0 = tnum_exact v \<Longrightarrow>
    tv_insn insns 2 st = TvPush []"
  by (simp add: tv_insn_def tv_jmp_def prog_eval exact_not_any)

lemma store_tnum: "tnum_verify store_prog = Some True"
proof -
  define st where "st = write_stack mov_state 504 8 (tnum_exact 0)"
  have st: "vregs st ! 0 = tnum_exact 0"
    by (simp add: st_def write_stack_def mov_state_regs Let_def)
  have 1: "tv_insn store_prog (Suc 0) mov_state = TvPush [(2, st)]"
    by (simp add: tv_insn_def tv_stx_def store_prog_simps prog_eval mov_state_regs check_stack_acc_def
        sz_bytes_def size_bytes_def tnum_max_def tnum_min_def tnum_exact_def st_def)
  show ?thesis
    using mov_insn [of store_prog] exit_insn [of store_prog st] st 1
    by (intro tnum_verifyI [where b = "Suc (Suc (Suc 0))" and sm = "[0 \<mapsto> vs_init, 1 \<mapsto> mov_state, 2 \<mapsto> st]"
          and st = st])
      (simp_all add: store_prog_simps push_merged_def exact_not_any)
qed

lemma loop_tnum: "tnum_verify loop_prog = Some True"
proof -
  have 1: "tv_insn loop_prog (Suc 0) mov_state = TvPush [(2, mov_state)]"
    by (simp add: tv_insn_def tv_jmp_def loop_prog_simps prog_eval)
  show ?thesis
    using mov_insn [of loop_prog] exit_insn [of loop_prog mov_state 0] 1
    by (intro tnum_verifyI [where b = "Suc (Suc (Suc 0))"
          and sm = "[0 \<mapsto> vs_init, 1 \<mapsto> mov_state, 2 \<mapsto> mov_state]" and st = mov_state])
      (simp_all add: loop_prog_simps push_merged_def exact_not_any mov_state_regs)
qed


text \<open>
  C7. An accepted data-flow analysis is a fixpoint. When the data-flow check accepts a program
  it has computed states for a set of instructions that contains the first one with a state
  above the initial one and that is closed: at each of them the transfer function neither rejects
  nor panics, and every state it passes on is below the state recorded at the successor, in the
  order of the merge operation. The budget ends the iteration, but an acceptance is never the
  effect of stopping early.
\<close>

theorem tnum_fixpoint:
  assumes "tnum_verify insns = Some True"
  shows "\<exists>sm. tnum_run insns = Fixpoint sm
    \<and> (\<exists>s0. sm 0 = Some s0 \<and> vs_le vs_init s0)
    \<and> (\<forall>q st. sm q = Some st \<longrightarrow>
         (\<exists>ps. tv_insn insns q st = TvPush ps
            \<and> (\<forall>t s. (t, s) \<in> set ps \<longrightarrow> (\<exists>s'. sm t = Some s' \<and> vs_le s s'))))"
proof -
  obtain sm where sm: "tnum_run insns = Fixpoint sm"
    using assms by (cases "tnum_run insns") (auto simp: tnum_verify_def split: if_splits)
  have "sm_le [0 \<mapsto> vs_init] sm \<and> sm_ok sm \<and> (\<forall>q \<in> dom sm. tv_stable insns sm q)"
    by (rule tnum_walk_fixpoint [OF sm [unfolded tnum_run_def]])
      (simp_all add: sm_ok_def vs_ok_def vs_init_def vs_new_def)
  then show ?thesis
    using sm by (auto simp: sm_le_def tv_stable_def holds_in_def dom_def Ball_def)
qed

theorem tnum_fixpoint_witness:
  "tnum_verify store_prog = Some True \<and> (\<exists>sm. tnum_run store_prog = Fixpoint sm
    \<and> (\<exists>s0. sm 0 = Some s0 \<and> vs_le vs_init s0))"
  using tnum_fixpoint [OF store_tnum] store_tnum by blast

end
