(* ===== verification/Ash.thy ===== *)
theory Ash
  imports EbpfVerifier SortedMap Errno
begin

text \<open>
  Application-specific handlers, \<^verbatim>\<open>kernel/src/ash/\<close>: eBPF programs a process attaches to a hook
  point. Registration decodes and verifies the bytecode (\<open>verify_handler\<close>), the manager keeps the
  handlers by id, a hook runs the matching handlers through the interpreter. The process that
  makes a system call, its user memory and the manager are the state \<open>ash_sys\<close>; the compiled
  path is never taken, since no handler carries compiled code, and is an argument of
  \<open>execute_handler\<close>.
\<close>

unbundle bit_operations_syntax

section \<open>Hook points, handlers and results\<close>

datatype protocol = Tcp | Udp | Icmp | Raw

fun protocol_to_u8 :: "protocol \<Rightarrow> u8" where
  "protocol_to_u8 Tcp = 6"
| "protocol_to_u8 Udp = 17"
| "protocol_to_u8 Icmp = 1"
| "protocol_to_u8 Raw = 0"

definition protocol_from_u8 :: "u8 \<Rightarrow> protocol option" where
  "protocol_from_u8 v =
    (if v = 6 then Some Tcp else if v = 17 then Some Udp else if v = 1 then Some Icmp
     else if v = 0 then Some Raw else None)"

datatype hook_point =
    NetReceive u8 u16 protocol
  | NetTransmit u8 u16 protocol
  | SyscallEntry u64
  | SyscallExit u64
  | TimerFired u64
  | SignalDelivery u32
  | MessageReceive u64

datatype ash_error =
  MemoryViolation | CycleLimitExceeded | InvalidInstruction | VerifierRejected | NotFound | Unknown

datatype ash_result = Continue | Handled | DropPacket | Modified | Error ash_error

record ash_handler =
  ah_id :: u64
  ah_pid :: u64
  ah_bytecode :: bytes
  ah_hook :: hook_point
  ah_context_mask :: u32
  ah_max_insns :: u32
  ah_expiry :: "u64 option"

record verified_ash =
  va_bytecode :: bytes
  va_insns :: "ebpf_insn list"
  va_jited :: bytes
  va_max_cycles :: u32
  va_context_size :: nat
  va_memory_budget :: nat

section \<open>Verification of a handler\<close>

abbreviation ASH_MAX_INSNS :: nat where "ASH_MAX_INSNS \<equiv> 512"
abbreviation ASH_MAX_MEMORY_BUDGET :: nat where "ASH_MAX_MEMORY_BUDGET \<equiv> 512"

text \<open>The instruction record has C layout: three bytes, one byte of padding, the offset, two
  bytes of padding, the immediate; twelve bytes in all.\<close>

abbreviation INSN_SIZE :: nat where "INSN_SIZE \<equiv> 12"

definition decode_insn :: "bytes \<Rightarrow> ebpf_insn" where
  "decode_insn bs =
    insn_new (bs ! 0) (bs ! 1) (bs ! 2) (from_ne_bytes (take 2 (drop 4 bs)))
      (from_ne_bytes (take 4 (drop 8 bs)))"

definition decode_insns :: "bytes \<Rightarrow> nat \<Rightarrow> ebpf_insn list" where
  "decode_insns bs n = map (\<lambda>i. decode_insn (take INSN_SIZE (drop (INSN_SIZE * i) bs))) [0..<n]"

fun hook_context_size :: "hook_point \<Rightarrow> nat" where
  "hook_context_size (NetReceive _ _ _) = 32"
| "hook_context_size (NetTransmit _ _ _) = 32"
| "hook_context_size (SyscallEntry _) = 64"
| "hook_context_size (SyscallExit _) = 64"
| "hook_context_size (TimerFired _) = 16"
| "hook_context_size (SignalDelivery _) = 16"
| "hook_context_size (MessageReceive _) = 32"

definition size_of_load :: "u8 \<Rightarrow> nat" where
  "size_of_load code = size_bytes (code AND 0x18)"

definition is_hook_compatible :: "ebpf_insn list \<Rightarrow> hook_point \<Rightarrow> bool" where
  "is_hook_compatible insns hook \<longleftrightarrow>
    list_all (\<lambda>insn.
      cls_of insn = 0x01 \<and> src_reg insn = 1 \<longrightarrow>
        (let addr = sint (ioff insn); e = addr + int (size_of_load (icode insn))
         in \<not> (addr < 0 \<or> e > int (hook_context_size hook)))) insns"

definition verify_handler :: "ash_handler \<Rightarrow> (ash_result + verified_ash) option" where
  "verify_handler h =
    (let n = length (ah_bytecode h) div INSN_SIZE; insns = decode_insns (ah_bytecode h) n
     in if ah_bytecode h = [] \<or> length (ah_bytecode h) > ASH_MAX_INSNS * INSN_SIZE
        then Some (Inl (Error VerifierRejected))
        else if n > ASH_MAX_INSNS then Some (Inl (Error VerifierRejected))
        else if \<not> verify insns then Some (Inl (Error VerifierRejected))
        else case tnum_verify insns of
               None \<Rightarrow> None
             | Some ok \<Rightarrow>
                 if \<not> ok then Some (Inl (Error VerifierRejected))
                 else if \<not> is_hook_compatible insns (ah_hook h)
                 then Some (Inl (Error VerifierRejected))
                 else Some (Inr
                   \<lparr>va_bytecode = ah_bytecode h, va_insns = insns, va_jited = [],
                    va_max_cycles = min (max (ah_max_insns h) (of_nat ASH_MAX_INSNS)) 100000,
                    va_context_size = hook_context_size (ah_hook h),
                    va_memory_budget = ASH_MAX_MEMORY_BUDGET\<rparr>))"

section \<open>Execution\<close>

definition map_return :: "u64 \<Rightarrow> ash_result" where
  "map_return v =
    (if v = 0 then Continue else if v = 1 then Handled else if v = 2 then DropPacket
     else if v = 3 then Modified else Error Unknown)"

text \<open>A run ends with a result, or it dereferences memory outside the program's stack or
  panics; \<open>None\<close> is a run that never ends.\<close>

datatype ash_run = Finished ash_result vm_host | Wild | Panicked

definition interpret_handler :: "verified_ash \<Rightarrow> u64 \<Rightarrow> u64 \<Rightarrow> u64 \<Rightarrow> vm_host \<Rightarrow> ash_run option" where
  "interpret_handler va ctx payload payload_len h =
    (let rs = set_r (set_r (set_r regs_new 1 ctx) 2 payload) 3 payload_len
     in case exec_raw (va_insns va) rs (replicate STACK_SIZE 0) h of
          None \<Rightarrow> None
        | Some (Ret v st) \<Rightarrow> Some (Finished (map_return v) (vm_host st))
        | Some OutOfBounds \<Rightarrow> Some Wild
        | Some _ \<Rightarrow> Some Panicked)"

definition execute_handler ::
  "(verified_ash \<Rightarrow> u64 \<Rightarrow> u64 \<Rightarrow> u64 \<Rightarrow> u64 option) \<Rightarrow> verified_ash \<Rightarrow> u64 \<Rightarrow> u64 \<Rightarrow> u64
     \<Rightarrow> vm_host \<Rightarrow> ash_run option" where
  "execute_handler jit va ctx payload payload_len h =
    (if va_jited va \<noteq> [] then
       (case jit va ctx payload payload_len of
          Some v \<Rightarrow> Some (Finished (map_return v) h)
        | None \<Rightarrow> interpret_handler va ctx payload payload_len h)
     else interpret_handler va ctx payload payload_len h)"

section \<open>The manager\<close>

record ash_manager =
  am_handlers :: "(u64, ash_handler) btree_map"
  am_verified :: "(u64, verified_ash) btree_map"
  am_next_id :: u64
  am_total_insns :: u64
  am_total_events :: u64
  am_total_dropped :: u64
  am_total_handled :: u64
  am_total_modified :: u64
  am_total_errors :: u64

definition manager_new :: ash_manager where
  "manager_new =
    \<lparr>am_handlers = [], am_verified = [], am_next_id = 1, am_total_insns = 0, am_total_events = 0,
     am_total_dropped = 0, am_total_handled = 0, am_total_modified = 0, am_total_errors = 0\<rparr>"

definition ash_register ::
  "ash_manager \<Rightarrow> u64 \<Rightarrow> bytes \<Rightarrow> hook_point \<Rightarrow> u32 \<Rightarrow> u64 option
     \<Rightarrow> ((ash_result + u64) \<times> ash_manager) option" where
  "ash_register mgr pid bytecode hook max_insns expiry =
    (let ident = am_next_id mgr;
         mgr1 = mgr\<lparr>am_next_id := am_next_id mgr + 1\<rparr>;
         is_dup = list_ex (\<lambda>(_, h). ah_pid h = pid \<and> ah_bytecode h = bytecode \<and> ah_hook h = hook)
           (am_handlers mgr)
     in if is_dup then Some (Inl (Error Unknown), mgr1)
        else
          let handler = \<lparr>ah_id = ident, ah_pid = pid, ah_bytecode = bytecode, ah_hook = hook,
                 ah_context_mask = 0, ah_max_insns = max_insns, ah_expiry = expiry\<rparr>
          in case verify_handler handler of
               None \<Rightarrow> None
             | Some (Inl e) \<Rightarrow> Some (Inl e, mgr1)
             | Some (Inr v) \<Rightarrow>
                 Some (Inr ident, mgr1\<lparr>am_handlers := bm_insert ident handler (am_handlers mgr),
                   am_verified := bm_insert ident v (am_verified mgr)\<rparr>))"

definition remove_handler :: "u64 \<Rightarrow> ash_manager \<Rightarrow> ash_manager" where
  "remove_handler ident mgr = mgr\<lparr>am_handlers := bm_remove ident (am_handlers mgr),
     am_verified := bm_remove ident (am_verified mgr)\<rparr>"

definition ash_unregister :: "ash_manager \<Rightarrow> u64 \<Rightarrow> u64 \<Rightarrow> (ash_result + unit) \<times> ash_manager" where
  "ash_unregister mgr handler_id pid =
    (case map_of (am_handlers mgr) handler_id of
       None \<Rightarrow> (Inl (Error NotFound), mgr)
     | Some h \<Rightarrow>
         if ah_pid h \<noteq> pid then (Inl (Error Unknown), mgr)
         else (Inr (), remove_handler handler_id mgr))"

definition unregister_all :: "ash_manager \<Rightarrow> u64 \<Rightarrow> ash_manager" where
  "unregister_all mgr pid =
    foldl (\<lambda>m ident. remove_handler ident m) mgr
      (map fst (filter (\<lambda>(_, h). ah_pid h = pid) (am_handlers mgr)))"

fun hook_matches :: "hook_point \<Rightarrow> hook_point \<Rightarrow> bool" where
  "hook_matches (NetReceive _ rport rp) (NetReceive _ tport tp) =
    ((rp = tp \<or> rport = 0) \<and> (rport = 0 \<or> rport = tport))"
| "hook_matches (SyscallEntry r) (SyscallEntry t) = (r = t)"
| "hook_matches (SyscallExit r) (SyscallExit t) = (r = t)"
| "hook_matches (TimerFired r) (TimerFired t) = (r = t)"
| "hook_matches (SignalDelivery r) (SignalDelivery t) = (r = t)"
| "hook_matches (MessageReceive r) (MessageReceive t) = (r = t)"
| "hook_matches _ _ = False"

definition lookup_ids :: "ash_manager \<Rightarrow> hook_point \<Rightarrow> u64 list" where
  "lookup_ids mgr hook = map fst (filter (\<lambda>(_, h). hook_matches (ah_hook h) hook) (am_handlers mgr))"

definition get_verified :: "ash_manager \<Rightarrow> u64 \<Rightarrow> verified_ash option" where
  "get_verified mgr ident = map_of (am_verified mgr) ident"

definition record_execution :: "ash_manager \<Rightarrow> ash_result \<Rightarrow> u64 \<Rightarrow> ash_manager" where
  "record_execution mgr result cycles =
    (let m = mgr\<lparr>am_total_events := am_total_events mgr + 1,
                 am_total_insns := am_total_insns mgr + cycles\<rparr>
     in case result of
          DropPacket \<Rightarrow> m\<lparr>am_total_dropped := am_total_dropped m + 1\<rparr>
        | Handled \<Rightarrow> m\<lparr>am_total_handled := am_total_handled m + 1\<rparr>
        | Modified \<Rightarrow> m\<lparr>am_total_modified := am_total_modified m + 1\<rparr>
        | Error _ \<Rightarrow> m\<lparr>am_total_errors := am_total_errors m + 1\<rparr>
        | Continue \<Rightarrow> m)"

text \<open>\<^verbatim>\<open>AshStats\<close> in its field order.\<close>

definition process_stats :: "ash_manager \<Rightarrow> u64 list" where
  "process_stats mgr = [am_total_insns mgr, am_total_events mgr, am_total_dropped mgr,
     am_total_handled mgr, am_total_modified mgr, am_total_errors mgr]"

section \<open>Hooks\<close>

text \<open>The loop shared by the four hooks: run the matching handlers in the order of their ids
  until one handles or drops the event.\<close>

fun run_handlers ::
  "(verified_ash \<Rightarrow> u64 \<Rightarrow> u64 \<Rightarrow> u64 \<Rightarrow> u64 option) \<Rightarrow> ash_manager \<Rightarrow> u64 list \<Rightarrow> u64 \<Rightarrow> u64 \<Rightarrow> u64
     \<Rightarrow> ash_result \<Rightarrow> vm_host \<Rightarrow> ash_run option" where
  "run_handlers jit mgr [] ctx payload payload_len result h = Some (Finished result h)"
| "run_handlers jit mgr (ident # ids) ctx payload payload_len result h =
    (case get_verified mgr ident of
       None \<Rightarrow> run_handlers jit mgr ids ctx payload payload_len result h
     | Some va \<Rightarrow>
         (case execute_handler jit va ctx payload payload_len h of
            Some (Finished r h') \<Rightarrow>
              if r = Handled \<or> r = DropPacket then Some (Finished r h')
              else run_handlers jit mgr ids ctx payload payload_len r h'
          | x \<Rightarrow> x))"

definition run_hook ::
  "(verified_ash \<Rightarrow> u64 \<Rightarrow> u64 \<Rightarrow> u64 \<Rightarrow> u64 option) \<Rightarrow> ash_manager \<Rightarrow> hook_point \<Rightarrow> u64 \<Rightarrow> u64 \<Rightarrow> u64
     \<Rightarrow> vm_host \<Rightarrow> ash_run option" where
  "run_hook jit mgr hook ctx payload payload_len h =
    (let ids = lookup_ids mgr hook
     in if ids = [] then Some (Finished Continue h)
        else run_handlers jit mgr ids ctx payload payload_len Continue h)"

definition net_protocol :: "u8 \<Rightarrow> protocol" where
  "net_protocol p = (case protocol_from_u8 p of Some x \<Rightarrow> x | None \<Rightarrow> Raw)"

text \<open>\<open>ctx\<close> and \<open>pkt\<close> are the addresses of the context record and of the packet.\<close>

definition hook_net_receive where
  "hook_net_receive jit mgr pkt pkt_len interface protocol dst_port ctx h =
    run_hook jit mgr (NetReceive interface dst_port (net_protocol protocol)) ctx pkt pkt_len h"

definition hook_net_transmit where
  "hook_net_transmit jit mgr pkt pkt_len interface protocol dst_port ctx h =
    run_hook jit mgr (NetTransmit interface dst_port (net_protocol protocol)) ctx pkt pkt_len h"

definition hook_syscall_entry where
  "hook_syscall_entry jit mgr num ctx dummy h = run_hook jit mgr (SyscallEntry num) ctx dummy 8 h"

definition hook_syscall_exit where
  "hook_syscall_exit jit mgr num ctx dummy h = run_hook jit mgr (SyscallExit num) ctx dummy 8 h"

section \<open>System calls\<close>

record ash_proc =
  ap_id :: u64
  ap_euid :: u32
  ap_caps :: u64

record ash_sys =
  as_proc :: "ash_proc option"
  as_user :: umem
  as_mgr :: ash_manager

definition ash_check_priv :: "ash_proc option \<Rightarrow> u64" where
  "ash_check_priv proc =
    (case proc of
       None \<Rightarrow> 0
     | Some p \<Rightarrow>
         if ap_euid p = 0 \<or> ap_caps p AND push_bit 13 1 \<noteq> 0 \<or> ap_caps p AND push_bit 21 1 \<noteq> 0 then 0
         else errno_u64 EPERM)"

definition current_pid :: "ash_sys \<Rightarrow> u64" where
  "current_pid s = (case as_proc s of Some p \<Rightarrow> ap_id p | None \<Rightarrow> 0)"

definition parse_hook_info :: "u64 \<Rightarrow> hook_point" where
  "parse_hook_info info =
    (let hook_type = ucast (info AND 0xFF) :: u8;
         protocol = ucast (drop_bit 8 info AND 0xFF) :: u8;
         port = ucast (drop_bit 16 info AND 0xFFFF) :: u16;
         extra = ucast (drop_bit 32 info) :: u32
     in if hook_type = 0 then NetReceive 0 port (net_protocol protocol)
        else if hook_type = 1 then NetTransmit 0 port (net_protocol protocol)
        else if hook_type = 2 then SyscallEntry (ucast port)
        else if hook_type = 3 then SyscallExit (ucast port)
        else if hook_type = 4 then TimerFired (ucast extra)
        else if hook_type = 5 then SignalDelivery (ucast port)
        else if hook_type = 6 then MessageReceive (ucast extra)
        else NetReceive 0 0 Raw)"

definition sys_ash_register :: "ash_sys \<Rightarrow> u64 \<Rightarrow> usize \<Rightarrow> u64 \<Rightarrow> (u64 \<times> ash_sys) option" where
  "sys_ash_register s bytecode_ptr len hook_info =
    (if bytecode_ptr = 0 \<or> len = 0 then Some (errno_u64 EINVAL, s)
     else if ash_check_priv (as_proc s) \<noteq> 0 then Some (ash_check_priv (as_proc s), s)
     else case copy_from_user (as_user s) bytecode_ptr (unat len) of
            None \<Rightarrow> Some (errno_u64 EFAULT, s)
          | Some bytecode \<Rightarrow>
              (case ash_register (as_mgr s) (current_pid s) bytecode (parse_hook_info hook_info)
                      (ucast (len div of_nat INSN_SIZE)) None of
                 None \<Rightarrow> None
               | Some (Inr ident, mgr) \<Rightarrow> Some (ident, s\<lparr>as_mgr := mgr\<rparr>)
               | Some (Inl e, mgr) \<Rightarrow>
                   Some (errno_u64 (if e = Error VerifierRejected then EINVAL else ENOMEM),
                         s\<lparr>as_mgr := mgr\<rparr>)))"

definition sys_ash_unregister :: "ash_sys \<Rightarrow> u64 \<Rightarrow> u64 \<times> ash_sys" where
  "sys_ash_unregister s handler_id =
    (case ash_unregister (as_mgr s) handler_id (current_pid s) of
       (Inr _, mgr) \<Rightarrow> (0, s\<lparr>as_mgr := mgr\<rparr>)
     | (Inl _, mgr) \<Rightarrow> (errno_u64 ENOENT, s\<lparr>as_mgr := mgr\<rparr>))"

definition sys_ash_stats :: "ash_sys \<Rightarrow> u64 \<Rightarrow> u64 \<times> ash_sys" where
  "sys_ash_stats s stats_ptr =
    (if stats_ptr = 0 then (errno_u64 EFAULT, s)
     else case copy_to_user (as_user s) stats_ptr
                 (concat (map (to_ne_bytes 8) (process_stats (as_mgr s)))) of
            (True, m) \<Rightarrow> (0, s\<lparr>as_user := m\<rparr>)
          | (False, m) \<Rightarrow> (errno_u64 EFAULT, s\<lparr>as_user := m\<rparr>))"

definition sys_ash_control :: "ash_sys \<Rightarrow> u64 \<Rightarrow> u64 \<times> ash_sys" where
  "sys_ash_control s enable =
    (0, if enable = 0 then s\<lparr>as_mgr := unregister_all (as_mgr s) (current_pid s)\<rparr> else s)"

section \<open>The structural check excludes the panics of the data-flow check\<close>

lemma insn_okD:
  assumes "insn_ok insns i"
  shows "unat (dst_reg (insns ! i)) < 11" "unat (src_reg (insns ! i)) < 11"
  using assms by (simp_all add: insn_ok_def Let_def word_less_nat_alt not_less split: if_splits)

lemma cond_jump_falls_in:
  assumes "insn_targets insns i = Some ts" "\<forall>t \<in> set ts. target_ok insns t" "is_jmp (insns ! i)"
    "op_of (insns ! i) \<noteq> BPF_JA" "op_of (insns ! i) \<noteq> BPF_EXIT"
  shows "i + 1 < length insns"
  using assms by (auto simp: insn_targets_def Let_def target_ok_def split: if_splits)

lemma tv_straight_total:
  assumes "unat (dst_reg (insns ! i)) < 11" "unat (src_reg (insns ! i)) < 11"
  shows "tv_alu insns i pre \<noteq> TvPanic" "tv_ldx insns i pre \<noteq> TvPanic" "tv_st insns i pre \<noteq> TvPanic"
    "tv_stx insns i pre \<noteq> TvPanic" "tv_ld insns i pre \<noteq> TvPanic"
  using assms by (simp_all add: tv_alu_def tv_ldx_def tv_st_def tv_stx_def tv_ld_def Let_def)

lemma tv_straight_targets:
  assumes "tv_alu insns i pre = TvPush ps \<or> tv_ldx insns i pre = TvPush ps \<or> tv_st insns i pre = TvPush ps
    \<or> tv_stx insns i pre = TvPush ps \<or> tv_ld insns i pre = TvPush ps"
  shows "\<forall>p \<in> set ps. fst p < length insns"
  using assms
  by (elim disjE) (auto simp: tv_alu_def tv_ldx_def tv_st_def tv_stx_def tv_ld_def Let_def split: if_splits)

lemma tv_jmp_total:
  assumes "unat (dst_reg (insns ! i)) < 11" "unat (src_reg (insns ! i)) < 11"
    and fall: "op_of (insns ! i) \<noteq> BPF_JA \<Longrightarrow> op_of (insns ! i) \<noteq> BPF_EXIT \<Longrightarrow> i + 1 < length insns"
  shows "tv_jmp insns i pre \<noteq> TvPanic"
    and "tv_jmp insns i pre = TvPush ps \<Longrightarrow> \<forall>p \<in> set ps. fst p < length insns"
proof -
  have refine: "\<exists>st. refine_cond pre (insns ! i) a b = Some st" for a b
    using assms(1,2) by (simp add: refine_cond_def Let_def)
  obtain s1 s2 where r: "refine_cond pre (insns ! i) True (cls_of (insns ! i) = BPF_JMP32) = Some s1"
      "refine_cond pre (insns ! i) False (cls_of (insns ! i) = BPF_JMP32) = Some s2"
    using refine by blast
  show "tv_jmp insns i pre \<noteq> TvPanic"
    by (simp add: tv_jmp_def Let_def r)
  show "tv_jmp insns i pre = TvPush ps \<Longrightarrow> \<forall>p \<in> set ps. fst p < length insns"
    using fall by (auto simp: tv_jmp_def Let_def r split: if_splits)
qed

lemma tv_insn_total:
  assumes "i < length insns" "insn_ok insns i"
    and "insn_targets insns i = Some ts" "\<forall>t \<in> set ts. target_ok insns t"
  shows "tv_insn insns i pre \<noteq> TvPanic"
    and "tv_insn insns i pre = TvPush ps \<Longrightarrow> \<forall>p \<in> set ps. fst p < length insns"
proof -
  note regs = insn_okD [OF assms(2)]
  have fall: "i + 1 < length insns" if "is_jmp (insns ! i)"
      "op_of (insns ! i) \<noteq> BPF_JA" "op_of (insns ! i) \<noteq> BPF_EXIT"
    using cond_jump_falls_in [OF assms(3,4)] that by simp
  have jmp: "tv_jmp insns i pre \<noteq> TvPanic" "tv_jmp insns i pre = TvPush ps \<Longrightarrow> \<forall>p \<in> set ps. fst p < length insns"
    if "is_jmp (insns ! i)"
    using tv_jmp_total [OF regs fall [OF that]] by blast+
  show "tv_insn insns i pre \<noteq> TvPanic"
    using assms(1) tv_straight_total [OF regs] jmp(1)
    by (simp add: tv_insn_def Let_def is_jmp_def)
  assume "tv_insn insns i pre = TvPush ps"
  then consider "is_jmp (insns ! i)" "tv_jmp insns i pre = TvPush ps"
    | "tv_alu insns i pre = TvPush ps \<or> tv_ldx insns i pre = TvPush ps \<or> tv_st insns i pre = TvPush ps
    \<or> tv_stx insns i pre = TvPush ps \<or> tv_ld insns i pre = TvPush ps"
    by (simp add: tv_insn_def Let_def is_jmp_def split: if_splits)
  then show "\<forall>p \<in> set ps. fst p < length insns"
    by cases (use jmp(2) tv_straight_targets in blast)+
qed

lemma push_merged_worklist: "set (snd (push_merged (sm, wl) p)) \<subseteq> insert (fst p) (set wl)"
  by (auto simp: push_merged_def Let_def split: prod.splits option.splits if_splits)

lemma push_all_worklist: "set (snd (foldl push_merged s ps)) \<subseteq> fst ` set ps \<union> set (snd s)"
proof (induction ps arbitrary: s)
  case (Cons p ps)
  have "set (snd (push_merged s p)) \<subseteq> insert (fst p) (set (snd s))"
    using push_merged_worklist [of "fst s" "snd s" p] by simp
  then show ?case using Cons.IH [of "push_merged s p"] by auto
qed simp

lemma tnum_walk_total:
  assumes "set wl \<subseteq> {..<length insns}"
    and "\<forall>i < length insns. insn_ok insns i"
    and "\<forall>i < length insns. \<exists>ts. insn_targets insns i = Some ts \<and> (\<forall>t \<in> set ts. target_ok insns t)"
  shows "tnum_walk insns budget sm wl \<noteq> Paniced"
  using assms
proof (induction insns budget sm wl rule: tnum_walk.induct)
  case (3 insns budget sm cur wl)
  show ?case
  proof (cases "sm cur")
    case None
    then show ?thesis using 3 by simp
  next
    case (Some pre)
    have cur: "cur < length insns" using 3(3) by simp
    obtain ts where ts: "insn_targets insns cur = Some ts" "\<forall>t \<in> set ts. target_ok insns t"
      using 3(5) cur by blast
    note total = tv_insn_total [OF cur _ ts]
    show ?thesis
    proof (cases "tv_insn insns cur pre")
      case (TvPush ps)
      obtain sm' wl' where f: "foldl push_merged (sm, wl) ps = (sm', wl')" by force
      have "set wl' \<subseteq> {..<length insns}"
        using push_all_worklist [of "(sm, wl)" ps] f total(2) [OF _ TvPush] 3(3,4) cur by auto
      then show ?thesis using 3(2) [OF Some TvPush] 3(4,5) f Some TvPush by simp
    qed (use total(1) 3(4) cur Some in auto)
  qed
qed simp_all

text \<open>
  C30. The data-flow check never panics on a program the structural check accepted: every
  register index is below eleven and every queued instruction index is inside the program, so
  that registering a handler always comes to a verdict.
\<close>

theorem verified_never_panics:
  assumes "verify insns"
  shows "tnum_verify insns \<noteq> None"
proof -
  have v: "insns \<noteq> []" "\<forall>i < length insns. insn_ok insns i"
    "\<forall>i < length insns. \<exists>ts. insn_targets insns i = Some ts \<and> (\<forall>t \<in> set ts. target_ok insns t)"
    using assms unfolding verify_iff by blast+
  have "tnum_run insns \<noteq> Paniced"
    unfolding tnum_run_def by (rule tnum_walk_total) (use v in auto)
  then show ?thesis
    by (cases "tnum_run insns") (auto simp: tnum_verify_def split: option.splits)
qed

theorem verified_never_panics_witness: "tnum_verify store_prog \<noteq> None"
  by (rule verified_never_panics [OF store_verify])

section \<open>Programs that pass registration and misbehave\<close>

definition encode_insn :: "ebpf_insn \<Rightarrow> bytes" where
  "encode_insn i = [icode i, dst_reg i, src_reg i, 0] @ to_ne_bytes 2 (ioff i) @ [0, 0]
     @ to_ne_bytes 4 (iimm i)"

lemma length_encode_insn [simp]: "length (encode_insn i) = INSN_SIZE"
  by (simp add: encode_insn_def)

lemma decode_encode_insn: "decode_insn (encode_insn i) = i"
proof -
  have "from_ne_bytes (to_ne_bytes 2 (ioff i)) = ioff i" "from_ne_bytes (to_ne_bytes 4 (iimm i)) = iimm i"
    by (rule from_to_ne_bytes [of _ 0]; simp add: take_bit_word_eq_self)+
  then show ?thesis by (cases i) (simp add: decode_insn_def encode_insn_def insn_new_def)
qed

lemma slice_encode:
  "i < length is \<Longrightarrow> take INSN_SIZE (drop (INSN_SIZE * i) (concat (map encode_insn is))) = encode_insn (is ! i)"
proof (induction "is" arbitrary: i)
  case (Cons x xs)
  then show ?case by (cases i) (simp_all add: algebra_simps)
qed simp

lemma decode_encode_insns: "decode_insns (concat (map encode_insn is)) (length is) = is"
  by (rule nth_equalityI) (simp_all add: decode_insns_def slice_encode decode_encode_insn)

lemma length_encode_insns: "length (concat (map encode_insn is)) = INSN_SIZE * length is"
  by (induction "is") simp_all

definition handler_of :: "u64 \<Rightarrow> u64 \<Rightarrow> ebpf_insn list \<Rightarrow> hook_point \<Rightarrow> u32 \<Rightarrow> u64 option \<Rightarrow> ash_handler" where
  "handler_of ident pid is hook n e = \<lparr>ah_id = ident, ah_pid = pid,
     ah_bytecode = concat (map encode_insn is), ah_hook = hook, ah_context_mask = 0,
     ah_max_insns = n, ah_expiry = e\<rparr>"

lemma register_encoded:
  assumes "verify is" "tnum_verify is = Some True" "is_hook_compatible is hook"
    and "is \<noteq> []" "length is \<le> ASH_MAX_INSNS"
  shows "\<exists>mgr va. ash_register manager_new pid (concat (map encode_insn is)) hook n e = Some (Inr 1, mgr)
    \<and> get_verified mgr 1 = Some va \<and> va_insns va = is \<and> va_jited va = []"
proof -
  have "concat (map encode_insn is) \<noteq> []"
    using length_encode_insns [of "is"] assms(4) by (metis length_0_conv mult_is_0 numeral_neq_zero)
  then show ?thesis
    using assms
    by (simp add: ash_register_def manager_new_def Let_def verify_handler_def length_encode_insns
        decode_encode_insns get_verified_def)
qed

lemma store_step:
  "vm_pc st = 0 \<Longrightarrow> vm_regs st = rs \<Longrightarrow> vm_step store_prog st = Step (st\<lparr>vm_regs := set_r rs 0 0, vm_pc := 1\<rparr>)"
  "vm_pc st = 1 \<Longrightarrow> reg_r (vm_regs st) 10 = 0 \<Longrightarrow> vm_step store_prog st = OutOfBounds"
  by (simp_all add: vm_step_def store_prog_simps prog_eval vm_alu_def alu_result_def
      vm_stx_def size_bytes_def in_stack_def)

lemma store_exec:
  assumes "length rs = 11" "reg_r rs 10 = 0"
  shows "exec_raw store_prog rs s h = Some OutOfBounds"
proof -
  let ?st = "\<lparr>vm_pc = 0, vm_regs = rs, vm_stack = s, vm_host = h\<rparr>"
  have 1: "vm_step store_prog ?st = Step (?st\<lparr>vm_regs := set_r rs 0 0, vm_pc := 1\<rparr>)"
    by (rule store_step) simp_all
  have 2: "vm_step store_prog (?st\<lparr>vm_regs := set_r rs 0 0, vm_pc := 1\<rparr>) = OutOfBounds"
    by (rule store_step) (simp_all add: reg_r_set_r assms)
  show ?thesis
    unfolding exec_raw_def
    by (subst exec_loop.simps, simp add: 1 store_prog_simps, subst exec_loop.simps,
        simp add: 2 [simplified] store_prog_simps)
qed

lemma loop_step:
  "vm_pc st = 0 \<Longrightarrow> vm_regs st = rs \<Longrightarrow> vm_step loop_prog st = Step (st\<lparr>vm_regs := set_r rs 0 0, vm_pc := 1\<rparr>)"
  "vm_pc st = 1 \<Longrightarrow> vm_step loop_prog st = Step st"
  by (simp_all add: vm_step_def loop_prog_simps prog_eval vm_alu_def alu_result_def
      vm_jmp_def jump_taken_def)

lemma loop_diverges:
  assumes "exec_loop insns st = Some r"
  shows "\<not> (insns = loop_prog \<and> vm_pc st = 1)"
proof (rule exec_loop.raw_induct [of "\<lambda>insns st r. \<not> (insns = loop_prog \<and> vm_pc st = 1)", OF _ assms])
  fix f :: "ebpf_insn list \<Rightarrow> vm_state \<Rightarrow> vm_next option" and insns st r
  assume "\<And>insns st r. f insns st = Some r \<Longrightarrow> \<not> (insns = loop_prog \<and> vm_pc st = 1)"
    and "(if unat (vm_pc st) < length insns then
       if is_Step (vm_step insns st) then f insns (next_state (vm_step insns st))
       else if vm_step insns st = Spin then None else Some (vm_step insns st)
     else Some (Ret (reg_r (vm_regs st) 0) st)) = Some r"
  then show "\<not> (insns = loop_prog \<and> vm_pc st = 1)"
    using loop_step(2) [of st] by (auto simp: loop_prog_simps)
qed

lemma loop_exec: "exec_raw loop_prog rs s h = None"
proof -
  let ?st = "\<lparr>vm_pc = 0, vm_regs = rs, vm_stack = s, vm_host = h\<rparr>"
  have 1: "vm_step loop_prog ?st = Step (?st\<lparr>vm_regs := set_r rs 0 0, vm_pc := 1\<rparr>)"
    by (rule loop_step) simp_all
  have "exec_loop loop_prog (?st\<lparr>vm_regs := set_r rs 0 0, vm_pc := 1\<rparr>) = None"
    using loop_diverges [of loop_prog "?st\<lparr>vm_regs := set_r rs 0 0, vm_pc := 1\<rparr>"]
    by (cases "exec_loop loop_prog (?st\<lparr>vm_regs := set_r rs 0 0, vm_pc := 1\<rparr>)") auto
  then show ?thesis
    unfolding exec_raw_def by (subst exec_loop.simps) (simp add: 1 loop_prog_simps)
qed

lemma compatible_demo:
  "is_hook_compatible store_prog hook" "is_hook_compatible loop_prog hook"
  by (simp_all add: is_hook_compatible_def store_prog_def loop_prog_def insn_new_def)

lemma entry_regs:
  "length (set_r (set_r (set_r regs_new 1 a) 2 b) 3 c) = 11"
  "reg_r (set_r (set_r (set_r regs_new 1 a) 2 b) 3 c) 10 = 0"
  by (simp_all add: regs_new_def set_r_def reg_r_def)

text \<open>
  C31. A verified handler can write outside its memory. The program that stores through
  the frame pointer, at offset -8 from register 10, is accepted at registration for every process
  and hook point, because the verifier assumes register 10 to hold 512. The interpreter starts with
  0 in that register, the address \<open>-8\<close> passes its wrapping bounds check, and the store goes to the
  eight bytes below the stack array, whatever the context, the payload and the host state are.
\<close>

theorem ash_handler_escapes:
  "\<exists>bytecode. \<exists>mgr va.
     ash_register manager_new pid bytecode hook n e = Some (Inr 1, mgr) \<and> get_verified mgr 1 = Some va
     \<and> execute_handler jit va ctx payload payload_len h = Some Wild"
proof -
  obtain mgr va where r: "ash_register manager_new pid (concat (map encode_insn store_prog)) hook n e = Some (Inr 1, mgr)"
      "get_verified mgr 1 = Some va" "va_insns va = store_prog" "va_jited va = []"
    using register_encoded [OF store_verify store_tnum compatible_demo(1), where hook = hook and pid = pid and n = n and e = e]
    by (auto simp: store_prog_simps)
  then have "execute_handler jit va ctx payload payload_len h = Some Wild"
    by (simp add: execute_handler_def interpret_handler_def Let_def store_exec [OF entry_regs, unfolded One_nat_def])
  with r show ?thesis by blast
qed

text \<open>
  C32. A verified handler can run forever. The program with an unconditional jump of offset 0 is
  accepted at registration, because the verifier takes the target to be the next instruction. The
  interpreter adds the offset to the jump's own index, so the run never ends and the hook that
  triggered it never returns; the handler's cycle limit is recorded and never consulted.
\<close>

theorem ash_handler_hangs:
  "\<exists>bytecode. \<exists>mgr va.
     ash_register manager_new pid bytecode hook n e = Some (Inr 1, mgr) \<and> get_verified mgr 1 = Some va
     \<and> execute_handler jit va ctx payload payload_len h = None"
proof -
  obtain mgr va where r: "ash_register manager_new pid (concat (map encode_insn loop_prog)) hook n e = Some (Inr 1, mgr)"
      "get_verified mgr 1 = Some va" "va_insns va = loop_prog" "va_jited va = []"
    using register_encoded [OF loop_verify loop_tnum compatible_demo(2), where hook = hook and pid = pid and n = n and e = e]
    by (auto simp: loop_prog_simps)
  then have "execute_handler jit va ctx payload payload_len h = None"
    by (simp add: execute_handler_def interpret_handler_def Let_def loop_exec)
  with r show ?thesis by blast
qed

section \<open>The registry\<close>

definition mgr_inv :: "ash_manager \<Rightarrow> bool" where
  "mgr_inv mgr \<longleftrightarrow> bm_wf (am_handlers mgr) \<and> bm_wf (am_verified mgr)
    \<and> (\<forall>k h. map_of (am_handlers mgr) k = Some h \<longrightarrow> k < am_next_id mgr \<and> ah_id h = k
        \<and> (\<exists>v. map_of (am_verified mgr) k = Some v \<and> verify_handler h = Some (Inr v)))
    \<and> (\<forall>k. map_of (am_handlers mgr) k = None \<longrightarrow> map_of (am_verified mgr) k = None)"

lemma mgr_inv_new: "mgr_inv manager_new"
  by (simp add: mgr_inv_def manager_new_def)

lemma mgr_inv_remove: "mgr_inv mgr \<Longrightarrow> mgr_inv (remove_handler k mgr)"
  by (auto simp: mgr_inv_def remove_handler_def bm_remove_wf map_of_bm_remove split: if_splits)

lemma less_next:
  fixes i :: u64
  assumes "i \<noteq> - 1"
  shows "i < i + 1"
proof -
  have "unat i \<noteq> unat (- 1 :: u64)" using assms by (simp only: word_unat_eq_iff) simp
  then have "unat i + unat (1 :: u64) < 2 ^ LENGTH(64)"
    using unat_less_exp [of i] by (simp add: unsigned_minus_1_eq_mask mask_eq_exp_minus_1)
  then show ?thesis by (simp add: word_less_nat_alt unat_add_exact)
qed

lemma mgr_inv_register:
  assumes "mgr_inv mgr" "am_next_id mgr \<noteq> - 1"
    "ash_register mgr pid bytecode hook n e = Some (r, mgr')"
  shows "mgr_inv mgr' \<and> (case r of
      Inl _ \<Rightarrow> am_handlers mgr' = am_handlers mgr \<and> am_verified mgr' = am_verified mgr
    | Inr ident \<Rightarrow> map_of (am_handlers mgr) ident = None
        \<and> (\<exists>h v. map_of (am_handlers mgr') = (map_of (am_handlers mgr))(ident \<mapsto> h)
            \<and> ah_pid h = pid \<and> ah_bytecode h = bytecode \<and> ah_hook h = hook
            \<and> get_verified mgr' ident = Some v \<and> verify_handler h = Some (Inr v)))"
proof -
  define i where "i = am_next_id mgr"
  have lt: "i < i + 1" using assms(2) unfolding i_def by (rule less_next)
  have fresh: "map_of (am_handlers mgr) i = None"
    using assms(1) by (cases "map_of (am_handlers mgr) i") (auto simp: mgr_inv_def i_def)
  have up: "k < i + 1" if "map_of (am_handlers mgr) k = Some h" for k h
    using assms(1) that lt by (auto simp: mgr_inv_def i_def intro: less_trans)
  show ?thesis
    using assms(1,3) lt fresh up unfolding ash_register_def Let_def i_def [symmetric]
    by (auto simp: mgr_inv_def bm_insert_wf map_of_bm_insert get_verified_def i_def
        split: if_splits option.splits sum.splits)
qed

lemma handlers_remove_all:
  "am_handlers (foldl (\<lambda>m k. remove_handler k m) mgr ks) = filter (\<lambda>(k, _). k \<notin> set ks) (am_handlers mgr)"
  by (induction ks arbitrary: mgr)
    (auto simp: remove_handler_def bm_remove_def case_prod_beta intro!: filter_cong)

lemma mgr_inv_remove_all: "mgr_inv mgr \<Longrightarrow> mgr_inv (foldl (\<lambda>m k. remove_handler k m) mgr ks)"
  by (induction ks arbitrary: mgr) (simp_all add: mgr_inv_remove)

lemma handlers_unregister_all:
  assumes "mgr_inv mgr"
  shows "am_handlers (unregister_all mgr pid) = filter (\<lambda>(_, h). ah_pid h \<noteq> pid) (am_handlers mgr)"
proof -
  have "distinct (map fst (am_handlers mgr))"
    using assms by (simp add: mgr_inv_def bm_wf_distinct)
  then have "k \<notin> fst ` set (filter (\<lambda>(_, h). ah_pid h = pid) (am_handlers mgr)) \<longleftrightarrow> ah_pid h \<noteq> pid"
    if "(k, h) \<in> set (am_handlers mgr)" for k h
    using that by (auto simp: image_iff dest: eq_key_imp_eq_value)
  then show ?thesis
    unfolding unregister_all_def handlers_remove_all by (intro filter_cong) auto
qed

text \<open>The states of the manager that registrations, removals and executions reach; fewer than
  \<open>2 ^ 64 - 1\<close> registrations keep the ids distinct.\<close>

inductive ash_reach :: "ash_manager \<Rightarrow> bool" where
  reach_new: "ash_reach manager_new"
| reach_register: "ash_reach mgr \<Longrightarrow> am_next_id mgr \<noteq> - 1 \<Longrightarrow>
    ash_register mgr pid bytecode hook n e = Some (r, mgr') \<Longrightarrow> ash_reach mgr'"
| reach_unregister: "ash_reach mgr \<Longrightarrow> ash_reach (snd (ash_unregister mgr ident pid))"
| reach_unregister_all: "ash_reach mgr \<Longrightarrow> ash_reach (unregister_all mgr pid)"
| reach_record: "ash_reach mgr \<Longrightarrow> ash_reach (record_execution mgr res cycles)"

lemma ash_reach_inv: "ash_reach mgr \<Longrightarrow> mgr_inv mgr"
proof (induction rule: ash_reach.induct)
  case reach_new
  then show ?case by (rule mgr_inv_new)
next
  case (reach_register mgr pid bytecode hook n e r mgr')
  then show ?case using mgr_inv_register by blast
next
  case (reach_unregister mgr ident pid)
  then show ?case
    by (auto simp: ash_unregister_def mgr_inv_remove split: option.split)
next
  case (reach_unregister_all mgr pid)
  then show ?case unfolding unregister_all_def by (intro mgr_inv_remove_all)
next
  case (reach_record mgr res cycles)
  then show ?case
    by (auto simp: record_execution_def Let_def mgr_inv_def split: ash_result.split)
qed

lemma verify_handler_Inr:
  assumes "verify_handler h = Some (Inr v)"
  shows "verify (va_insns v) \<and> tnum_verify (va_insns v) = Some True
    \<and> is_hook_compatible (va_insns v) (ah_hook h) \<and> va_jited v = [] \<and> length (va_insns v) \<le> ASH_MAX_INSNS"
  using assms
  by (auto simp: verify_handler_def Let_def decode_insns_def split: if_splits option.splits)

text \<open>
  C5. The registry runs only verified handlers and respects ownership. In every state the
  manager reaches, each program a hook can look up passed both checks and the hook's memory check,
  belongs to a registered handler, and has at most 512 instructions; a process removes a handler
  exactly when it owns it, and then only that one; when a process ends, exactly its handlers go.
\<close>

theorem ash_registry_sound:
  assumes "ash_reach mgr"
  shows "(\<forall>ident va. get_verified mgr ident = Some va \<longrightarrow>
        verify (va_insns va) \<and> tnum_verify (va_insns va) = Some True \<and> length (va_insns va) \<le> 512
        \<and> (\<exists>h. map_of (am_handlers mgr) ident = Some h \<and> is_hook_compatible (va_insns va) (ah_hook h)))
    \<and> (\<forall>ident pid. case ash_unregister mgr ident pid of
          (Inr _, mgr') \<Rightarrow> (\<exists>h. map_of (am_handlers mgr) ident = Some h \<and> ah_pid h = pid)
             \<and> map_of (am_handlers mgr') = (map_of (am_handlers mgr))(ident := None)
        | (Inl _, mgr') \<Rightarrow> (\<nexists>h. map_of (am_handlers mgr) ident = Some h \<and> ah_pid h = pid) \<and> mgr' = mgr)
    \<and> (\<forall>pid. am_handlers (unregister_all mgr pid)
          = filter (\<lambda>(_, h). ah_pid h \<noteq> pid) (am_handlers mgr))"
proof (intro conjI allI impI)
  note inv = ash_reach_inv [OF assms]
  fix ident va assume va: "get_verified mgr ident = Some va"
  then obtain h where "map_of (am_handlers mgr) ident = Some h" "verify_handler h = Some (Inr va)"
    using inv unfolding mgr_inv_def get_verified_def by (metis not_Some_eq option.inject)
  then show "verify (va_insns va)" "tnum_verify (va_insns va) = Some True" "length (va_insns va) \<le> 512"
    "\<exists>h. map_of (am_handlers mgr) ident = Some h \<and> is_hook_compatible (va_insns va) (ah_hook h)"
    using verify_handler_Inr by blast+
next
  fix ident pid
  show "case ash_unregister mgr ident pid of
      (Inr _, mgr') \<Rightarrow> (\<exists>h. map_of (am_handlers mgr) ident = Some h \<and> ah_pid h = pid)
         \<and> map_of (am_handlers mgr') = (map_of (am_handlers mgr))(ident := None)
    | (Inl _, mgr') \<Rightarrow> (\<nexists>h. map_of (am_handlers mgr) ident = Some h \<and> ah_pid h = pid) \<and> mgr' = mgr"
    by (auto simp: ash_unregister_def remove_handler_def map_of_bm_remove split: option.split)
next
  fix pid
  show "am_handlers (unregister_all mgr pid) = filter (\<lambda>(_, h). ah_pid h \<noteq> pid) (am_handlers mgr)"
    by (rule handlers_unregister_all [OF ash_reach_inv [OF assms]])
qed

theorem ash_registry_sound_witness:
  "\<exists>mgr va. ash_reach mgr \<and> get_verified mgr 1 = Some va \<and> verify (va_insns va)"
proof -
  obtain mgr va where r: "ash_register manager_new 7 (concat (map encode_insn store_prog))
      (SyscallEntry 3) 3 None = Some (Inr 1, mgr)" "get_verified mgr 1 = Some va"
    using register_encoded [OF store_verify store_tnum compatible_demo(1),
        where hook = "SyscallEntry 3" and pid = 7 and n = 3 and e = None]
    by (auto simp: store_prog_simps)
  have "ash_reach mgr"
    by (rule reach_register [OF reach_new _ r(1)]) (simp add: manager_new_def)
  then show ?thesis using ash_registry_sound [of mgr] r(2) by blast
qed

end
