(* ===== verification/Bpf.thy ===== *)
theory Bpf
  imports EbpfVerifier Errno
begin

text \<open>
  The \<^verbatim>\<open>bpf\<close> system call, \<^verbatim>\<open>kernel/src/ebpf/mod.rs\<close>: creating maps and loading programs. The
  attribute record is read through the caller's pointer without validation, so that what the
  memory holds there (\<open>attr_at\<close>, \<open>insns_at\<close>) is an argument.
\<close>

unbundle bit_operations_syntax

record bpf_attr =
  attr_map_type :: u32
  attr_key_size :: u32
  attr_value_size :: u32
  attr_max_entries :: u32
  attr_insns :: u64
  attr_insn_cnt :: u32

record bpf_state =
  bpf_maps :: map_registry
  bpf_programs :: "(u64 \<times> ebpf_insn list) list"

abbreviation BPF_MAP_CREATE :: u32 where "BPF_MAP_CREATE \<equiv> 0"
abbreviation BPF_PROG_LOAD :: u32 where "BPF_PROG_LOAD \<equiv> 5"

definition new_map :: "bpf_attr \<Rightarrow> bpf_map option" where
  "new_map a =
    (if attr_map_type a = 1
     then Some (HashTable (ht_new (attr_key_size a) (attr_value_size a) (attr_max_entries a)))
     else if attr_map_type a = 2 then Some (ArrayMap (am_new (attr_value_size a) (attr_max_entries a)))
     else if attr_map_type a = 3 then Some (PerfEventArray (ucast (attr_max_entries a)))
     else if attr_map_type a = 4 then Some (RingBuf (rb_new (ucast (attr_max_entries a))))
     else None)"

definition bpf_map_create :: "bpf_attr \<Rightarrow> bpf_state \<Rightarrow> u64 \<times> bpf_state" where
  "bpf_map_create a st =
    (case new_map a of
       None \<Rightarrow> (errno_u64 EINVAL, st)
     | Some m \<Rightarrow> let (mid, reg) = register_map (bpf_maps st) m in (mid, st\<lparr>bpf_maps := reg\<rparr>))"

definition bpf_prog_load :: "(u64 \<Rightarrow> nat \<Rightarrow> ebpf_insn list) \<Rightarrow> bpf_attr \<Rightarrow> bpf_state \<Rightarrow> u64 \<times> bpf_state" where
  "bpf_prog_load insns_at a st =
    (if attr_insn_cnt a = 0 \<or> attr_insns a = 0 then (errno_u64 EINVAL, st)
     else
       let insns = insns_at (attr_insns a) (unat (attr_insn_cnt a))
       in if \<not> verify insns then (errno_u64 EINVAL, st)
          else let pid = of_nat (length (bpf_programs st))
               in (pid, st\<lparr>bpf_programs := bpf_programs st @ [(pid, insns)]\<rparr>))"

definition sys_bpf ::
  "(u64 \<Rightarrow> bpf_attr) \<Rightarrow> (u64 \<Rightarrow> nat \<Rightarrow> ebpf_insn list) \<Rightarrow> u32 \<Rightarrow> bool \<Rightarrow> u32 \<Rightarrow> u64 \<Rightarrow> bpf_state
     \<Rightarrow> u64 \<times> bpf_state" where
  "sys_bpf attr_at insns_at euid cap_sys_admin cmd arg1 st =
    (if euid \<noteq> 0 \<and> \<not> cap_sys_admin then (errno_u64 EPERM, st)
     else if cmd = BPF_MAP_CREATE then bpf_map_create (attr_at arg1) st
     else if cmd = BPF_PROG_LOAD then bpf_prog_load insns_at (attr_at arg1) st
     else (errno_u64 ENOSYS, st))"

section \<open>What the registries hold\<close>

definition bpf_inv :: "bpf_state \<Rightarrow> bool" where
  "bpf_inv st \<longleftrightarrow> map fst (bpf_maps st) = map (\<lambda>i. of_nat i + 1) [0..<length (bpf_maps st)]
    \<and> map fst (bpf_programs st) = map of_nat [0..<length (bpf_programs st)]
    \<and> list_all (verify \<circ> snd) (bpf_programs st)"

lemma sys_bpf_inv:
  assumes "bpf_inv st" "sys_bpf attr_at insns_at euid cap cmd arg1 st = (r, st')"
  shows "bpf_inv st'"
  using assms
  by (auto simp: sys_bpf_def bpf_map_create_def bpf_prog_load_def register_map_def bpf_inv_def Let_def
      split: if_splits option.splits)

lemma sys_bpf_denied:
  assumes "euid \<noteq> 0" "\<not> cap"
  shows "sys_bpf attr_at insns_at euid cap cmd arg1 st = (errno_u64 EPERM, st)"
  using assms by (simp add: sys_bpf_def)

end
