(* ===== verification/Seccomp.thy ===== *)
theory Seccomp
  imports Errno UserAccess
begin

text \<open>
  System-call filtering: the state and the classic-BPF interpreter of
  \<^verbatim>\<open>crates/syscalls/src/seccomp.rs\<close>, the system call and the dispatch hook of
  \<^verbatim>\<open>kernel/src/syscalls/seccomp.rs\<close> (x86-64). The interpreter's loop is \<open>filter_loop\<close>, whose program
  counter only grows; an index panic is \<open>None\<close>. The console lines are left out.
\<close>

unbundle bit_operations_syntax

section \<open>State\<close>

datatype seccomp_mode = Disabled | Strict | Filter

record bpf_instr =
  bcode :: u16
  bjt :: u8
  bjf :: u8
  bk :: u32

record seccomp_state =
  sc_mode :: seccomp_mode
  sc_filter :: "bpf_instr list"
  sc_default :: u64

abbreviation SECCOMP_RET_KILL_PROCESS :: u64 where "SECCOMP_RET_KILL_PROCESS \<equiv> 0x00000000"
abbreviation SECCOMP_RET_TRAP :: u64 where "SECCOMP_RET_TRAP \<equiv> 0x00020000"
abbreviation SECCOMP_RET_ERRNO :: u64 where "SECCOMP_RET_ERRNO \<equiv> 0x00030000"
abbreviation SECCOMP_RET_TRACE :: u64 where "SECCOMP_RET_TRACE \<equiv> 0x7FF00000"
abbreviation SECCOMP_RET_LOG :: u64 where "SECCOMP_RET_LOG \<equiv> 0x7FFC0000"
abbreviation SECCOMP_RET_ALLOW :: u64 where "SECCOMP_RET_ALLOW \<equiv> 0x7FFF0000"
abbreviation SECCOMP_RET_ACTION :: u64 where "SECCOMP_RET_ACTION \<equiv> 0xFFFF0000"

definition seccomp_default :: seccomp_state where
  "seccomp_default = \<lparr>sc_mode = Disabled, sc_filter = [], sc_default = SECCOMP_RET_KILL_PROCESS\<rparr>"

definition check_strict :: "u64 \<Rightarrow> bool" where
  "check_strict nr \<longleftrightarrow> nr = 0 \<or> nr = 1 \<or> nr = 3 \<or> nr = 15 \<or> nr = 60 \<or> nr = 231"

definition build_seccomp_data :: "u64 \<Rightarrow> u64 list \<Rightarrow> u8 list" where
  "build_seccomp_data nr args =
    to_ne_bytes 4 (ucast nr :: u32) @ to_ne_bytes 4 (0xC000003E :: u32) @ to_ne_bytes 8 (0 :: u64)
      @ concat (map (to_ne_bytes 8) args)"

section \<open>The interpreter\<close>

record filter_regs =
  fr_acc :: u64
  fr_x :: u64
  fr_mem :: "u64 list"
  fr_pc :: nat

datatype filter_next = Halt u64 | IndexPanic | Go filter_regs

text \<open>A load from the data buffer: the bound is tested on the wrapping sum, the bytes are then
  indexed.\<close>

definition data_load :: "u8 list \<Rightarrow> u16 \<Rightarrow> usize \<Rightarrow> u64 \<Rightarrow> (u64 + u64) option" where
  "data_load dat sz offset dflt =
    (let at = (\<lambda>n. if unat offset + n \<le> length dat
                   then Some (Inr (from_ne_bytes (take n (drop (unat offset) dat)))) else None)
     in if sz = 0x00 then (if unat (offset + 4) > length dat then Some (Inl dflt) else at 4)
        else if sz = 0x08 then (if unat (offset + 2) > length dat then Some (Inl dflt) else at 2)
        else if sz = 0x10 then (if unat offset \<ge> length dat then Some (Inl dflt) else at 1)
        else Some (Inl dflt))"

definition filter_load :: "u8 list \<Rightarrow> u64 \<Rightarrow> bpf_instr \<Rightarrow> filter_regs \<Rightarrow> filter_next" where
  "filter_load dat dflt insn r =
    (let sz = bcode insn AND 0x18; source = bcode insn AND 0xE0;
         v = (if source = 0x20 then data_load dat sz (ucast (bk insn)) dflt
              else if source = 0x40 then data_load dat sz (fr_x r + ucast (bk insn)) dflt
              else if source = 0x60 then
                Some (if unat (bk insn) \<ge> length (fr_mem r) then Inl dflt
                      else Inr (fr_mem r ! unat (bk insn)))
              else Some (Inl dflt))
     in case v of
          None \<Rightarrow> IndexPanic
        | Some (Inl a) \<Rightarrow> Halt a
        | Some (Inr w) \<Rightarrow>
            Go ((if bcode insn AND 0x07 = 0x00 then r\<lparr>fr_acc := w\<rparr> else r\<lparr>fr_x := w\<rparr>)
                  \<lparr>fr_pc := fr_pc r + 1\<rparr>))"

definition filter_store :: "bpf_instr \<Rightarrow> filter_regs \<Rightarrow> filter_next" where
  "filter_store insn r =
    Go (r\<lparr>fr_mem := (fr_mem r)[unat (bk insn) := (if bcode insn AND 0x07 = 0x02 then fr_acc r else fr_x r)],
          fr_pc := fr_pc r + 1\<rparr>)"

definition filter_operand :: "bpf_instr \<Rightarrow> filter_regs \<Rightarrow> u64" where
  "filter_operand insn r = (if bcode insn AND 0x08 = 0x00 then ucast (bk insn) else fr_x r)"

definition shift_amount :: "u64 \<Rightarrow> nat" where
  "shift_amount n = unat (ucast n :: u32) mod 64"

definition filter_alu :: "u64 \<Rightarrow> bpf_instr \<Rightarrow> filter_regs \<Rightarrow> filter_next" where
  "filter_alu dflt insn r =
    (let op = bcode insn AND 0xF0; operand = filter_operand insn r; acc = fr_acc r;
         go = (\<lambda>v. Go (r\<lparr>fr_acc := v, fr_pc := fr_pc r + 1\<rparr>))
     in if op = 0x00 then go (acc + operand)
        else if op = 0x10 then go (acc - operand)
        else if op = 0x20 then go (acc * operand)
        else if op = 0x30 then (if operand = 0 then Halt dflt else go (acc div operand))
        else if op = 0x90 then (if operand = 0 then Halt dflt else go (acc mod operand))
        else if op = 0x40 then go (acc OR operand)
        else if op = 0x50 then go (acc AND operand)
        else if op = 0xA0 then go (acc XOR operand)
        else if op = 0x60 then go (push_bit (shift_amount operand) acc)
        else if op = 0x70 then go (drop_bit (shift_amount operand) acc)
        else if op = 0x80 then go (- acc)
        else Halt dflt)"

definition filter_taken :: "u16 \<Rightarrow> u64 \<Rightarrow> u64 \<Rightarrow> bool" where
  "filter_taken op acc operand =
    (if op = 0x10 then acc = operand
     else if op = 0x50 then acc \<noteq> operand
     else if op = 0x20 then acc > operand
     else if op = 0x30 then acc \<ge> operand
     else if op = 0xA0 then acc < operand
     else if op = 0xB0 then acc \<le> operand
     else if op = 0x40 then acc AND operand \<noteq> 0
     else if op = 0x00 then True
     else False)"

definition filter_jmp :: "bpf_instr \<Rightarrow> filter_regs \<Rightarrow> filter_next" where
  "filter_jmp insn r =
    Go (r\<lparr>fr_pc := fr_pc r + (1 +
      unat (if filter_taken (bcode insn AND 0xF0) (fr_acc r) (filter_operand insn r)
            then bjt insn else bjf insn))\<rparr>)"

definition filter_ret :: "u64 \<Rightarrow> bpf_instr \<Rightarrow> filter_regs \<Rightarrow> filter_next" where
  "filter_ret dflt insn r =
    (let retval = (if bcode insn AND 0x08 = 0x08 then fr_x r else ucast (bk insn))
     in if retval AND SECCOMP_RET_ACTION \<noteq> 0 then Halt retval else Halt dflt)"

definition filter_step :: "u8 list \<Rightarrow> u64 \<Rightarrow> bpf_instr \<Rightarrow> filter_regs \<Rightarrow> filter_next" where
  "filter_step dat dflt insn r =
    (let cls = bcode insn AND 0x07
     in if cls = 0x00 \<or> cls = 0x01 then filter_load dat dflt insn r
        else if cls = 0x02 \<or> cls = 0x03 then filter_store insn r
        else if cls = 0x04 then filter_alu dflt insn r
        else if cls = 0x05 then filter_jmp insn r
        else if cls = 0x06 then filter_ret dflt insn r
        else Go (r\<lparr>fr_pc := fr_pc r + 1\<rparr>))"

lemma filter_step_pc: "filter_step dat dflt insn r = Go r' \<Longrightarrow> fr_pc r < fr_pc r'"
  by (auto simp: filter_step_def filter_load_def filter_store_def filter_alu_def filter_jmp_def
      filter_ret_def Let_def split: if_splits option.splits sum.splits)

function filter_loop :: "u8 list \<Rightarrow> u64 \<Rightarrow> bpf_instr list \<Rightarrow> filter_regs \<Rightarrow> u64 option" where
  "filter_loop dat dflt insns r =
    (if fr_pc r \<ge> length insns then Some dflt
     else case filter_step dat dflt (insns ! fr_pc r) r of
            Halt a \<Rightarrow> Some a
          | IndexPanic \<Rightarrow> None
          | Go r' \<Rightarrow> if fr_pc r' > length insns + 10000 then Some dflt
                     else filter_loop dat dflt insns r')"
  by pat_completeness auto
termination
  by (relation "measure (\<lambda>(dat, dflt, insns, r). length insns - fr_pc r)")
    (auto dest: filter_step_pc)

declare filter_loop.simps [simp del]

definition check_filter :: "seccomp_state \<Rightarrow> u64 \<Rightarrow> u64 list \<Rightarrow> u64 option" where
  "check_filter s nr args =
    (if sc_filter s = [] then Some (sc_default s)
     else filter_loop (build_seccomp_data nr args) (sc_default s) (sc_filter s)
       \<lparr>fr_acc = 0, fr_x = 0, fr_mem = replicate 16 0, fr_pc = 0\<rparr>)"

section \<open>The system call and the hook\<close>

record sec_proc =
  sp_seccomp :: seccomp_state
  sp_sigsys :: bool

definition decode_instr :: "u8 list \<Rightarrow> bpf_instr" where
  "decode_instr bs = \<lparr>bcode = from_ne_bytes (take 2 bs), bjt = bs ! 2, bjf = bs ! 3,
     bk = from_ne_bytes (take 4 (drop 4 bs))\<rparr>"

definition decode_filter :: "u8 list \<Rightarrow> nat \<Rightarrow> bpf_instr list" where
  "decode_filter buf n = map (\<lambda>i. decode_instr (take 8 (drop (8 * i) buf))) [0..<n]"

definition set_filter :: "umem \<Rightarrow> sec_proc \<Rightarrow> u64 \<Rightarrow> u64 \<times> sec_proc" where
  "set_filter m p user_insns =
    (if user_insns = 0 then (errno_u64 EINVAL, p)
     else case copy_from_user m user_insns 16 of
            None \<Rightarrow> (errno_u64 EFAULT, p)
          | Some hdr \<Rightarrow>
              let len = unat (from_ne_bytes (take 2 hdr) :: u16);
                  insns_ptr = from_ne_bytes (take 8 (drop 8 hdr)) :: u64
              in if len = 0 \<or> len > 4096 then (errno_u64 EINVAL, p)
                 else case copy_from_user m insns_ptr (len * 8) of
                        None \<Rightarrow> (errno_u64 EFAULT, p)
                      | Some buf \<Rightarrow>
                          (0, p\<lparr>sp_seccomp := (sp_seccomp p)\<lparr>sc_mode := Filter,
                                  sc_filter := decode_filter buf len\<rparr>\<rparr>))"

definition sys_seccomp :: "umem \<Rightarrow> sec_proc option \<Rightarrow> u32 \<Rightarrow> u32 \<Rightarrow> u64 \<Rightarrow> u64 \<times> sec_proc option" where
  "sys_seccomp m proc op flags user_insns =
    (case proc of
       None \<Rightarrow> (errno_u64 ESRCH, None)
     | Some p \<Rightarrow>
         if sc_mode (sp_seccomp p) \<noteq> Disabled then (errno_u64 EINVAL, Some p)
         else if op = 1 then (0, Some (p\<lparr>sp_seccomp := (sp_seccomp p)\<lparr>sc_mode := Strict\<rparr>\<rparr>))
         else if op = 2 then apsnd Some (set_filter m p user_insns)
         else if op = 3 then
           (if (ucast flags :: u64) \<in> {SECCOMP_RET_KILL_PROCESS, SECCOMP_RET_TRAP, SECCOMP_RET_ERRNO,
                 SECCOMP_RET_TRACE, SECCOMP_RET_LOG, SECCOMP_RET_ALLOW}
            then (0, Some p) else (errno_u64 EOPNOTSUPP, Some p))
         else if op = 4 then (errno_u64 ENOSYS, Some p)
         else (errno_u64 EINVAL, Some p))"

datatype sec_verdict = Allow | Deny u64 | ExitProcess nat | KernelPanic

definition check_syscall :: "sec_proc option \<Rightarrow> u64 \<Rightarrow> u64 list \<Rightarrow> sec_verdict \<times> sec_proc option" where
  "check_syscall proc nr args =
    (case proc of
       None \<Rightarrow> (Allow, None)
     | Some p \<Rightarrow>
         if sc_mode (sp_seccomp p) = Disabled then (Allow, Some p)
         else if sc_mode (sp_seccomp p) = Strict then
           (if check_strict nr then Allow else Deny (errno_u64 EPERM), Some p)
         else case check_filter (sp_seccomp p) nr args of
                None \<Rightarrow> (KernelPanic, Some p)
              | Some action \<Rightarrow>
                  let a = action AND SECCOMP_RET_ACTION
                  in if a = SECCOMP_RET_ALLOW then (Allow, Some p)
                     else if a = SECCOMP_RET_KILL_PROCESS then (ExitProcess (128 + 31), Some p)
                     else if a = SECCOMP_RET_TRAP then (Deny (errno_u64 EPERM), Some (p\<lparr>sp_sigsys := True\<rparr>))
                     else if a = SECCOMP_RET_ERRNO then
                       (let requested = action AND 0xFFFF
                        in (Deny (if requested = 0 then errno_u64 EPERM else - requested), Some p))
                     else if a = SECCOMP_RET_LOG then (Allow, Some p)
                     else (Deny (errno_u64 EPERM), Some p))"

section \<open>What a filter can do\<close>

definition is_indirect :: "bpf_instr \<Rightarrow> bool" where
  "is_indirect i \<longleftrightarrow> (bcode i AND 0x07 = 0x00 \<or> bcode i AND 0x07 = 0x01) \<and> bcode i AND 0xE0 = 0x40"

definition is_ret :: "bpf_instr \<Rightarrow> bool" where
  "is_ret i \<longleftrightarrow> bcode i AND 0x07 = 0x06"

lemma length_seccomp_data: "length args = 6 \<Longrightarrow> length (build_seccomp_data nr args) = 64"
  by (simp add: build_seccomp_data_def length_concat comp_def sum_list_triv)

lemma data_load_total:
  assumes "unat offset < 2 ^ 32"
  shows "data_load dat sz offset dflt \<noteq> None"
proof -
  have "unat (offset + n) = unat offset + unat n" if "unat n \<le> 4" for n
    using assms that by (intro unat_add_exact) simp
  then show ?thesis by (auto simp: data_load_def Let_def)
qed

lemma data_load_default: "data_load dat sz offset dflt = Some (Inl a) \<Longrightarrow> a = dflt"
  by (auto simp: data_load_def Let_def split: if_splits)

lemma filter_step_total: "\<not> is_indirect insn \<Longrightarrow> filter_step dat dflt insn r \<noteq> IndexPanic"
proof -
  assume "\<not> is_indirect insn"
  moreover have "unat (ucast (bk insn) :: u64) < 2 ^ 32"
    using unat_less_exp [of "bk insn"] by (simp add: unsigned_ucast_eq take_bit_nat_eq_self)
  then obtain v where "data_load dat (bcode insn AND 0x18) (ucast (bk insn)) dflt = Some v"
    using data_load_total by blast
  ultimately show ?thesis
    by (auto simp: filter_step_def filter_load_def filter_store_def filter_alu_def filter_jmp_def
        filter_ret_def is_indirect_def Let_def split: if_splits option.splits sum.splits)
qed

lemma filter_step_halt:
  "filter_step dat dflt insn r = Halt a \<Longrightarrow> a = dflt \<or> is_ret insn \<and> a AND SECCOMP_RET_ACTION \<noteq> 0"
  by (auto simp: filter_step_def filter_load_def filter_store_def filter_alu_def filter_jmp_def
      filter_ret_def is_ret_def Let_def split: if_splits option.splits sum.splits
      dest: data_load_default)

lemma filter_loop_total:
  assumes "list_all (\<lambda>i. \<not> is_indirect i) insns"
  shows "\<exists>a. filter_loop dat dflt insns r = Some a"
  using assms
proof (induction dat dflt insns r rule: filter_loop.induct)
  case (1 dat dflt insns r)
  show ?case
  proof (cases "fr_pc r < length insns")
    case True
    then have "filter_step dat dflt (insns ! fr_pc r) r \<noteq> IndexPanic"
      using 1(2) by (intro filter_step_total) (simp add: list_all_length)
    then show ?thesis
      using 1 True by (cases "filter_step dat dflt (insns ! fr_pc r) r") (auto simp: filter_loop.simps [of dat dflt insns r])
  qed (simp add: filter_loop.simps)
qed

lemma filter_loop_ret:
  assumes "filter_loop dat dflt insns r = Some a" "a \<noteq> dflt"
  shows "a AND SECCOMP_RET_ACTION \<noteq> 0 \<and> (\<exists>i \<in> set insns. is_ret i)"
  using assms
proof (induction dat dflt insns r rule: filter_loop.induct)
  case (1 dat dflt insns r)
  then have pc: "fr_pc r < length insns"
    by (auto simp: filter_loop.simps [of dat dflt insns r] split: if_splits)
  show ?case
  proof (cases "filter_step dat dflt (insns ! fr_pc r) r")
    case (Halt b)
    then show ?thesis using 1(2,3) pc filter_step_halt [OF Halt]
      by (auto simp: filter_loop.simps [of dat dflt insns r])
  next
    case IndexPanic
    then show ?thesis using 1(2) pc by (simp add: filter_loop.simps [of dat dflt insns r])
  next
    case (Go r')
    then show ?thesis using 1 pc
      by (auto simp: filter_loop.simps [of dat dflt insns r] split: if_splits)
  qed
qed


definition demo_filter :: sec_proc where
  "demo_filter = \<lparr>sp_seccomp = \<lparr>sc_mode = Filter, sc_filter =
     [\<lparr>bcode = 0x20, bjt = 0, bjf = 0, bk = 0\<rparr>, \<lparr>bcode = 0x15, bjt = 0, bjf = 1, bk = 1\<rparr>,
      \<lparr>bcode = 0x06, bjt = 0, bjf = 0, bk = 0x7FFF0000\<rparr>, \<lparr>bcode = 0x06, bjt = 0, bjf = 0, bk = 0\<rparr>],
     sc_default = 0\<rparr>, sp_sigsys = False\<rparr>"


definition panic_filter :: "bpf_instr list" where
  "panic_filter =
    [\<lparr>bcode = 0x14, bjt = 0, bjf = 0, bk = 1\<rparr>, \<lparr>bcode = 0x02, bjt = 0, bjf = 0, bk = 0\<rparr>,
     \<lparr>bcode = 0x61, bjt = 0, bjf = 0, bk = 0\<rparr>, \<lparr>bcode = 0x40, bjt = 0, bjf = 0, bk = 0\<rparr>,
     \<lparr>bcode = 0x06, bjt = 0, bjf = 0, bk = 0x7FFF0000\<rparr>]"

definition encode_instr :: "bpf_instr \<Rightarrow> u8 list" where
  "encode_instr i = to_ne_bytes 2 (bcode i) @ [bjt i, bjf i] @ to_ne_bytes 4 (bk i)"

lemma decode_encode_instr: "decode_instr (encode_instr i) = i"
proof -
  have "from_ne_bytes (to_ne_bytes 2 (bcode i)) = bcode i" "from_ne_bytes (to_ne_bytes 4 (bk i)) = bk i"
    by (rule from_to_ne_bytes [of _ 0]; simp add: take_bit_word_eq_self)+
  then show ?thesis by (cases i) (simp add: decode_instr_def encode_instr_def nth_append)
qed

lemma decode_encode_filter: "decode_filter (concat (map encode_instr is)) (length is) = is"
proof -
  have "i < length is \<Longrightarrow> take 8 (drop (8 * i) (concat (map encode_instr is))) = encode_instr (is ! i)" for i
  proof (induction "is" arbitrary: i)
    case (Cons x xs)
    have "length (encode_instr x) = 8" by (simp add: encode_instr_def)
    with Cons show ?case by (cases i) (simp_all add: algebra_simps)
  qed simp
  then show ?thesis
    by (intro nth_equalityI) (simp_all add: decode_filter_def decode_encode_instr)
qed

lemma length_panic_filter: "length panic_filter = 5"
  by (simp add: panic_filter_def)

lemma panic_filter_loop:
  assumes "length dat = 64"
  shows "filter_loop dat dflt panic_filter \<lparr>fr_acc = 0, fr_x = 0, fr_mem = replicate 16 0, fr_pc = 0\<rparr> = None"
proof -
  have *: "replicate 16 0 = (0 :: u64) # replicate 15 0" by (simp add: numeral_eq_Suc)
  show ?thesis
    unfolding *
    by (simp add: filter_loop.simps panic_filter_def filter_step_def filter_load_def filter_store_def
        filter_alu_def filter_operand_def data_load_def assms Let_def unsigned_minus_1_eq_mask
        mask_eq_exp_minus_1)
qed

definition panic_mem :: umem where
  "panic_mem = \<lparr>ubytes = (\<lambda>a. Some
      (if a < 0x2000 then (to_ne_bytes 8 (5 :: u64) @ to_ne_bytes 8 (0x2000 :: u64)) ! unat (a - 0x1000)
       else concat (map encode_instr panic_filter) ! unat (a - 0x2000))),
     uwritable = (\<lambda>_. True)\<rparr>"

lemma panic_mem_header:
  "copy_from_user panic_mem 0x1000 16 = Some (to_ne_bytes 8 (5 :: u64) @ to_ne_bytes 8 (0x2000 :: u64))"
proof -
  let ?h = "to_ne_bytes 8 (5 :: u64) @ to_ne_bytes 8 (0x2000 :: u64)"
  have "user_load_bytes panic_mem 0x1000 16 = Some (map ((!) ?h) [0..<16])"
  proof (rule user_load_bytes_map)
    fix i :: nat assume "i < 16"
    then have "unat (0x1000 + of_nat i :: u64) = 0x1000 + i" "unat (of_nat i :: u64) = i"
      by (simp_all add: unat_word_ariths unat_of_nat)
    with \<open>i < 16\<close> show "ubytes panic_mem (0x1000 + of_nat i) = Some (?h ! i)"
      by (simp add: panic_mem_def word_less_nat_alt)
  qed
  also have "map ((!) ?h) [0..<16] = ?h" using map_nth [of ?h] by simp
  finally show ?thesis by (simp add: copy_from_user_def validate_ptr_iff)
qed

lemma panic_mem_filter:
  "copy_from_user panic_mem 0x2000 40 = Some (concat (map encode_instr panic_filter))"
proof -
  let ?b = "concat (map encode_instr panic_filter)"
  have len: "length ?b = 40" by (simp add: panic_filter_def encode_instr_def)
  have "user_load_bytes panic_mem 0x2000 40 = Some (map ((!) ?b) [0..<40])"
  proof (rule user_load_bytes_map)
    fix i :: nat assume "i < 40"
    then have "unat (0x2000 + of_nat i :: u64) = 0x2000 + i" "unat (of_nat i :: u64) = i"
      by (simp_all add: unat_word_ariths unat_of_nat)
    with \<open>i < 40\<close> show "ubytes panic_mem (0x2000 + of_nat i) = Some (?b ! i)"
      by (simp add: panic_mem_def word_less_nat_alt)
  qed
  also have "map ((!) ?b) [0..<40] = ?b" using map_nth [of ?b] len by simp
  finally show ?thesis by (simp add: copy_from_user_def validate_ptr_iff)
qed

text \<open>
  C34. A filter can panic the kernel. An indirect load adds the index register, tests the bound
  on a sum that wraps, and then indexes the data buffer: there is an installed filter of five
  instructions on which every system call of the process ends in an index panic.
\<close>

theorem seccomp_filter_panics:
  "\<exists>m ptr p. sys_seccomp m (Some \<lparr>sp_seccomp = seccomp_default, sp_sigsys = False\<rparr>) 2 0 ptr = (0, Some p)
     \<and> (\<forall>nr a b c d e f. fst (check_syscall (Some p) nr [a, b, c, d, e, f]) = KernelPanic)"
proof -
  let ?p = "\<lparr>sp_seccomp = \<lparr>sc_mode = Filter, sc_filter = panic_filter, sc_default = 0\<rparr>, sp_sigsys = False\<rparr>"
  have "decode_filter (concat (map encode_instr panic_filter)) 5 = panic_filter"
    using decode_encode_filter [of panic_filter] length_panic_filter by simp
  moreover have "from_ne_bytes (take 2 (to_ne_bytes 8 (5 :: u64) @ to_ne_bytes 8 (0x2000 :: u64))) = (5 :: u16)"
    "from_ne_bytes (take 8 (drop 8 (to_ne_bytes 8 (5 :: u64) @ to_ne_bytes 8 (0x2000 :: u64)))) = (0x2000 :: u64)"
    by (simp_all add: to_ne_bytes_def upt_conv_Cons)
  ultimately have "sys_seccomp panic_mem (Some \<lparr>sp_seccomp = seccomp_default, sp_sigsys = False\<rparr>) 2 0 0x1000 = (0, Some ?p)"
    by (simp add: sys_seccomp_def set_filter_def panic_mem_header panic_mem_filter seccomp_default_def Let_def)
  moreover have "fst (check_syscall (Some ?p) nr [a, b, c, d, e, f]) = KernelPanic" for nr a b c d e f
  proof -
    have "check_filter (sp_seccomp ?p) nr [a, b, c, d, e, f] = None"
      using panic_filter_loop [of "build_seccomp_data nr [a, b, c, d, e, f]"]
      by (simp add: check_filter_def length_seccomp_data panic_filter_def)
    then show ?thesis by (simp add: check_syscall_def)
  qed
  ultimately show ?thesis by blast
qed

end
