(* ===== verification/Landlock.thy ===== *)
theory Landlock
  imports Errno UserAccess
begin

text \<open>
  Path sandboxing: rulesets and their checks in \<^verbatim>\<open>crates/syscalls/src/landlock.rs\<close>, the three
  system calls and the hook of \<^verbatim>\<open>kernel/src/syscalls/landlock.rs\<close>. Paths are byte strings. Of the
  process the model keeps what the calls use: the descriptor table (only its length and the
  name and kind of file nodes), the paths of directory descriptors, the rulesets by descriptor
  and the enforced ones. The console lines are left out.
\<close>

unbundle bit_operations_syntax

type_synonym path = "u8 list"

section \<open>Rulesets\<close>

record path_rule =
  path_prefix :: path
  allowed_access :: u64
  handled_access :: u64

record ruleset =
  rules :: "path_rule list"
  handled_access_fs :: u64
  rs_locked :: bool

definition starts_with :: "path \<Rightarrow> path \<Rightarrow> bool" where
  "starts_with p pre \<longleftrightarrow> length pre \<le> length p \<and> take (length pre) p = pre"

definition trim_slashes :: "path \<Rightarrow> path" where
  "trim_slashes p = rev (dropWhile (\<lambda>c. c = 47) (rev p))"

definition rule_matches :: "path \<Rightarrow> path_rule \<Rightarrow> bool" where
  "rule_matches p r \<longleftrightarrow> starts_with p (path_prefix r) \<or> p = trim_slashes (path_prefix r)"

fun best_rule :: "path \<Rightarrow> path_rule list \<Rightarrow> path_rule option \<Rightarrow> nat \<Rightarrow> path_rule option" where
  "best_rule p [] best best_len = best"
| "best_rule p (r # rs) best best_len =
    (if rule_matches p r \<and> length (path_prefix r) > best_len
     then best_rule p rs (Some r) (length (path_prefix r))
     else best_rule p rs best best_len)"

definition ruleset_check_access :: "ruleset \<Rightarrow> path \<Rightarrow> u64 \<Rightarrow> bool" where
  "ruleset_check_access s p access =
    (let requested = access AND handled_access_fs s
     in if requested = 0 then True
        else case best_rule p (rules s) None 0 of
               Some r \<Rightarrow> requested AND allowed_access r = requested
             | None \<Rightarrow> requested = 0)"

definition add_rule :: "ruleset \<Rightarrow> path \<Rightarrow> u64 \<Rightarrow> unit result \<times> ruleset" where
  "add_rule s p acc =
    (if rs_locked s then (Inl EPERM, s)
     else (Inr (), s\<lparr>rules := rules s @ [\<lparr>path_prefix = p, allowed_access = acc,
             handled_access = handled_access_fs s\<rparr>]\<rparr>))"

definition lock_ruleset :: "ruleset \<Rightarrow> ruleset" where
  "lock_ruleset s = s\<lparr>rs_locked := True\<rparr>"

record landlock_state =
  rulesets :: "ruleset list"
  ll_active :: bool

definition landlock_check_access :: "landlock_state \<Rightarrow> path \<Rightarrow> u64 \<Rightarrow> bool" where
  "landlock_check_access s p access =
    (if \<not> ll_active s \<or> rulesets s = [] then True
     else list_all (\<lambda>r. ruleset_check_access r p access) (rulesets s))"

section \<open>System calls\<close>

datatype fd_entry = NoFile | FileNode path bool | OtherFile

record ll_proc =
  fd_table :: "fd_entry list"
  dir_fds :: "u64 \<Rightarrow> path option"
  landlock_fds :: "u64 \<Rightarrow> ruleset option"
  landlock :: landlock_state

abbreviation SUPPORTED_FS_ACCESS :: u64 where "SUPPORTED_FS_ACCESS \<equiv> 0x1FFF"
abbreviation LANDLOCK_ABI_VERSION :: u64 where "LANDLOCK_ABI_VERSION \<equiv> 2"
abbreviation LANDLOCK_RULE_PATH_BENEATH :: u32 where "LANDLOCK_RULE_PATH_BENEATH \<equiv> 1"

text \<open>A shorter attribute record is zero-extended to sixteen bytes.\<close>

definition sys_landlock_create_ruleset ::
  "umem \<Rightarrow> ll_proc option \<Rightarrow> u64 \<Rightarrow> usize \<Rightarrow> u32 \<Rightarrow> u64 \<times> ll_proc option" where
  "sys_landlock_create_ruleset m proc user_attr sz flags =
    (if flags AND NOT 1 \<noteq> 0 then (errno_u64 EINVAL, proc)
     else if flags AND 1 \<noteq> 0 then (LANDLOCK_ABI_VERSION, proc)
     else if sz < 8 then (errno_u64 EINVAL, proc)
     else
       let read_size = unat (min sz 16)
       in case copy_from_user m user_attr read_size of
            None \<Rightarrow> (errno_u64 EFAULT, proc)
          | Some bs \<Rightarrow>
              let handled = from_ne_bytes (take 8 bs)
              in if handled AND NOT SUPPORTED_FS_ACCESS \<noteq> 0 then (errno_u64 EOPNOTSUPP, proc)
                 else case proc of
                        None \<Rightarrow> (errno_u64 ESRCH, None)
                      | Some p \<Rightarrow>
                          let fd_num = of_nat (length (fd_table p));
                              rs = \<lparr>rules = [], handled_access_fs = handled, rs_locked = False\<rparr>
                          in (fd_num, Some (p\<lparr>landlock_fds := (landlock_fds p)(fd_num \<mapsto> rs),
                                landlock := (landlock p)\<lparr>ll_active := True\<rparr>\<rparr>)))"

definition resolve_parent :: "ll_proc \<Rightarrow> i32 \<Rightarrow> path option" where
  "resolve_parent p parent_fd =
    (let fd = scast parent_fd :: u64
     in case dir_fds p fd of
          Some d \<Rightarrow> Some d
        | None \<Rightarrow>
            if unat fd < length (fd_table p) then
              (case fd_table p ! unat fd of
                 FileNode name is_dir \<Rightarrow> Some (if is_dir then 47 # name else [47])
               | _ \<Rightarrow> None)
            else None)"

definition sys_landlock_add_rule ::
  "umem \<Rightarrow> ll_proc option \<Rightarrow> u64 \<Rightarrow> u32 \<Rightarrow> u64 \<Rightarrow> u64 \<times> ll_proc option" where
  "sys_landlock_add_rule m proc ruleset_fd rule_type user_attr =
    (if rule_type \<noteq> LANDLOCK_RULE_PATH_BENEATH then (errno_u64 EINVAL, proc)
     else if user_attr = 0 then (errno_u64 EFAULT, proc)
     else case copy_from_user m user_attr 16 of
            None \<Rightarrow> (errno_u64 EFAULT, proc)
          | Some bs \<Rightarrow>
              let acc = from_ne_bytes (take 8 bs);
                  parent_fd = from_ne_bytes (take 4 (drop 8 bs))
              in if acc AND NOT SUPPORTED_FS_ACCESS \<noteq> 0 then (errno_u64 EOPNOTSUPP, proc)
                 else case proc of
                        None \<Rightarrow> (errno_u64 ESRCH, None)
                      | Some p \<Rightarrow>
                          (case resolve_parent p parent_fd of
                             None \<Rightarrow> (errno_u64 EBADF, Some p)
                           | Some path \<Rightarrow>
                               (case landlock_fds p ruleset_fd of
                                  None \<Rightarrow> (errno_u64 EBADF, Some p)
                                | Some rs \<Rightarrow>
                                    (0, Some (p\<lparr>landlock_fds :=
                                       (landlock_fds p)(ruleset_fd \<mapsto> snd (add_rule rs path acc))\<rparr>)))))"

definition sys_landlock_restrict_self ::
  "ll_proc option \<Rightarrow> u64 \<Rightarrow> u32 \<Rightarrow> u64 \<times> ll_proc option" where
  "sys_landlock_restrict_self proc ruleset_fd flags =
    (if flags \<noteq> 0 then (errno_u64 EINVAL, proc)
     else case proc of
            None \<Rightarrow> (errno_u64 ESRCH, None)
          | Some p \<Rightarrow>
              (case landlock_fds p ruleset_fd of
                 None \<Rightarrow> (errno_u64 EBADF, Some p)
               | Some rs \<Rightarrow>
                   let rs' = lock_ruleset rs
                   in (0, Some (p\<lparr>landlock_fds := (landlock_fds p)(ruleset_fd \<mapsto> rs'),
                         landlock := \<lparr>rulesets = rulesets (landlock p) @ [rs'], ll_active = True\<rparr>\<rparr>))))"

definition check_fs_access :: "ll_proc option \<Rightarrow> path \<Rightarrow> u64 \<Rightarrow> bool" where
  "check_fs_access proc p access =
    (case proc of None \<Rightarrow> True | Some q \<Rightarrow> landlock_check_access (landlock q) p access)"

section \<open>The rule that decides\<close>

lemma best_rule_Some:
  assumes "best_rule p rs best n = Some r" "best \<noteq> Some r"
  shows "r \<in> set rs \<and> rule_matches p r"
  using assms
proof (induction p rs best n rule: best_rule.induct)
  case (2 p r' rs best n)
  then show ?case by (cases "r = r'") (auto split: if_splits)
qed simp

lemma best_rule_longest:
  assumes "best_rule p rs best n = Some r"
    and "\<And>b. best = Some b \<Longrightarrow> n \<le> length (path_prefix b)" and "best = None \<Longrightarrow> n = 0"
  shows "n \<le> length (path_prefix r)
    \<and> (\<forall>r' \<in> set rs. rule_matches p r' \<longrightarrow> length (path_prefix r') \<le> length (path_prefix r))"
  using assms
proof (induction p rs best n rule: best_rule.induct)
  case (1 p best n)
  then show ?case by simp
next
  case (2 p r' rs best n)
  show ?case
  proof (cases "rule_matches p r' \<and> n < length (path_prefix r')")
    case True
    then show ?thesis using 2(1) [OF True] 2(3) by auto
  next
    case False
    then have "n \<le> length (path_prefix r)
        \<and> (\<forall>q \<in> set rs. rule_matches p q \<longrightarrow> length (path_prefix q) \<le> length (path_prefix r))"
      using 2(2) [OF False] 2(3-5) by auto
    then show ?thesis using False by auto
  qed
qed

definition granted_by :: "ruleset \<Rightarrow> path \<Rightarrow> u64 \<Rightarrow> bool" where
  "granted_by s p access \<longleftrightarrow>
    (\<exists>r \<in> set (rules s). rule_matches p r
       \<and> (access AND handled_access_fs s) AND allowed_access r = access AND handled_access_fs s
       \<and> (\<forall>r' \<in> set (rules s). rule_matches p r' \<longrightarrow> length (path_prefix r') \<le> length (path_prefix r)))"

lemma ruleset_check_granted:
  assumes "ruleset_check_access s p access"
  shows "access AND handled_access_fs s = 0 \<or> granted_by s p access"
proof (cases "access AND handled_access_fs s = 0")
  case False
  then obtain r where r: "best_rule p (rules s) None 0 = Some r"
      "(access AND handled_access_fs s) AND allowed_access r = access AND handled_access_fs s"
    using assms by (auto simp: ruleset_check_access_def Let_def split: option.splits)
  have "r \<in> set (rules s) \<and> rule_matches p r" using best_rule_Some [OF r(1)] by simp
  moreover have "\<forall>r' \<in> set (rules s). rule_matches p r' \<longrightarrow> length (path_prefix r') \<le> length (path_prefix r)"
    using best_rule_longest [OF r(1)] by simp
  ultimately show ?thesis using r(2) unfolding granted_by_def by blast
qed simp

section \<open>Calls of a process\<close>

inductive ll_steps :: "ll_proc \<Rightarrow> ll_proc \<Rightarrow> bool" where
  ll_refl: "ll_steps p p"
| ll_create: "ll_steps p q \<Longrightarrow>
    sys_landlock_create_ruleset m (Some q) a n f = (r, Some q') \<Longrightarrow> ll_steps p q'"
| ll_add: "ll_steps p q \<Longrightarrow>
    sys_landlock_add_rule m (Some q) fd t a = (r, Some q') \<Longrightarrow> ll_steps p q'"
| ll_restrict: "ll_steps p q \<Longrightarrow>
    sys_landlock_restrict_self (Some q) fd f = (r, Some q') \<Longrightarrow> ll_steps p q'"

definition ll_wf :: "ll_proc \<Rightarrow> bool" where
  "ll_wf p \<longleftrightarrow> rulesets (landlock p) = [] \<or> ll_active (landlock p)"

lemma create_landlock:
  "sys_landlock_create_ruleset m (Some q) a n f = (r, Some q') \<Longrightarrow>
    rulesets (landlock q') = rulesets (landlock q) \<and> (ll_active (landlock q) \<longrightarrow> ll_active (landlock q'))"
  by (auto simp: sys_landlock_create_ruleset_def Let_def split: if_splits option.splits)

lemma add_landlock:
  "sys_landlock_add_rule m (Some q) fd t a = (r, Some q') \<Longrightarrow> landlock q' = landlock q"
  by (auto simp: sys_landlock_add_rule_def Let_def split: if_splits option.splits)

lemma restrict_landlock:
  "sys_landlock_restrict_self (Some q) fd f = (r, Some q') \<Longrightarrow>
    landlock q' = landlock q \<or> (ll_active (landlock q')
      \<and> (\<exists>rs. rulesets (landlock q') = rulesets (landlock q) @ [rs]))"
  by (auto simp: sys_landlock_restrict_self_def Let_def split: if_splits option.splits)

lemma ll_steps_grow:
  assumes "ll_steps p q" "ll_wf p"
  shows "ll_wf q \<and> (\<exists>more. rulesets (landlock q) = rulesets (landlock p) @ more)"
  using assms
proof (induction rule: ll_steps.induct)
  case (ll_refl p)
  then show ?case by simp
next
  case (ll_create p q m a n f r q')
  then show ?case using create_landlock [OF ll_create(2)] by (auto simp: ll_wf_def)
next
  case (ll_add p q m fd t a r q')
  then show ?case using add_landlock [OF ll_add(2)] by (auto simp: ll_wf_def)
next
  case (ll_restrict p q fd f r q')
  then show ?case using restrict_landlock [OF ll_restrict(2)] by (auto simp: ll_wf_def)
qed

lemma check_active:
  "ll_wf q \<Longrightarrow> check_fs_access (Some q) p access \<longleftrightarrow> list_all (\<lambda>r. ruleset_check_access r p access) (rulesets (landlock q))"
  by (auto simp: check_fs_access_def landlock_check_access_def ll_wf_def)

text \<open>
  C35. A sandboxed process never gains access. Whatever landlock calls a process makes, an access
  that is permitted afterwards was permitted before; and under every enforced ruleset that
  handles it, it is granted by a rule that matches the path, allows all the requested rights and
  has the longest prefix of the matching rules.
\<close>

theorem landlock_never_grants:
  assumes "ll_wf p" "ll_steps p q" "check_fs_access (Some q) path access"
  shows "check_fs_access (Some p) path access
    \<and> (\<forall>s \<in> set (rulesets (landlock q)). access AND handled_access_fs s = 0 \<or> granted_by s path access)"
proof -
  obtain more where q: "ll_wf q" "rulesets (landlock q) = rulesets (landlock p) @ more"
    using ll_steps_grow [OF assms(2,1)] by blast
  then have "list_all (\<lambda>r. ruleset_check_access r path access) (rulesets (landlock q))"
    using assms(3) by (simp add: check_active)
  then show ?thesis
    using q(2) assms(1) ruleset_check_granted by (auto simp: check_active list_all_iff)
qed

definition demo_ll :: ll_proc where
  "demo_ll = \<lparr>fd_table = [NoFile], dir_fds = (\<lambda>_. None), landlock_fds = [1 \<mapsto>
     \<lparr>rules = [\<lparr>path_prefix = [47, 97], allowed_access = 4, handled_access = 6\<rparr>],
      handled_access_fs = 6, rs_locked = False\<rparr>],
     landlock = \<lparr>rulesets = [], ll_active = False\<rparr>\<rparr>"

theorem landlock_never_grants_witness:
  "\<exists>q. ll_steps demo_ll q \<and> check_fs_access (Some q) [47, 97] 4 \<and> \<not> check_fs_access (Some q) [47, 98] 4
     \<and> check_fs_access (Some demo_ll) [47, 97] 4"
proof -
  obtain r q where q: "sys_landlock_restrict_self (Some demo_ll) 1 0 = (r, Some q)"
    by (simp add: sys_landlock_restrict_self_def demo_ll_def Let_def)
  then have s: "ll_steps demo_ll q" by (rule ll_restrict [OF ll_refl])
  have c: "check_fs_access (Some q) [47, 97] 4" "\<not> check_fs_access (Some q) [47, 98] 4"
    using q by (auto simp: sys_landlock_restrict_self_def demo_ll_def Let_def lock_ruleset_def
        check_fs_access_def landlock_check_access_def ruleset_check_access_def rule_matches_def
        starts_with_def trim_slashes_def)
  then show ?thesis
    using landlock_never_grants [OF _ s c(1)] s by (auto simp: ll_wf_def demo_ll_def)
qed

text \<open>
  C36. A rule for a directory also covers its siblings. The prefix test compares bytes, not path
  components: a rule for a non-empty path grants its rights on every path that merely extends
  the last name, such as a directory whose name starts with the permitted one.
\<close>

theorem landlock_sibling_escape:
  assumes "pre \<noteq> []"
  shows "ruleset_check_access
     (snd (add_rule \<lparr>rules = [], handled_access_fs = SUPPORTED_FS_ACCESS, rs_locked = False\<rparr> pre access))
     (pre @ ext) access"
  using assms
  by (simp add: ruleset_check_access_def add_rule_def rule_matches_def starts_with_def Let_def ac_simps)

theorem landlock_sibling_escape_witness:
  "ruleset_check_access
     (snd (add_rule \<lparr>rules = [], handled_access_fs = SUPPORTED_FS_ACCESS, rs_locked = False\<rparr> [47, 97] 4))
     [47, 97, 98] 4"
  using landlock_sibling_escape [of "[47, 97]" 4 "[98]"] by simp

end
