(* ===== verification/Ipc.thy ===== *)
theory Ipc
  imports Errno MessageQueue SortedMap
begin

text \<open>
  The IPC crate, \<^verbatim>\<open>crates/ipc/src/lib.rs\<close>: endpoints and ports with bounded message queues.
  The table maps an endpoint number to an \<^verbatim>\<open>Arc\<close>; the objects live in an explicit store
  (\<open>arcs\<close>, addressed by index), because a sender keeps its clone of the \<^verbatim>\<open>Arc\<close> while it
  spins and the endpoint may be closed meanwhile. Every critical section between two lock
  operations is one function on the state; a blocking call takes a schedule that says which
  sections of other threads run before each of its attempts, so a lemma for every schedule
  covers every interleaving. Reading the process number is the argument \<open>pid\<close>.
\<close>

unbundle bit_operations_syntax

type_synonym endpoint_id = "64 word"

record ipc_header =
  msg_type :: "32 word"
  msg_flags :: "32 word"
  payload_len :: "64 word"
  sender_pid :: "64 word"
  msg_seq :: "64 word"

record ipc_message =
  msg_header :: ipc_header
  msg_payload :: "8 word list"
  zerocopy_region :: "64 word option"

record ipc_endpoint =
  ep_id :: endpoint_id
  ep_name :: "8 word list"
  ep_owner :: "64 word"
  ep_queue :: "ipc_message list"
  max_queue_depth :: "64 word"
  required_caps :: "64 word"
  ep_clients :: "endpoint_id list"

record ipc_region =
  region_id :: "64 word"
  region_phys :: "64 word"
  region_size :: "64 word"
  region_refs :: "32 word"
  region_owner :: "64 word"

record ipc_state =
  endpoints :: "(endpoint_id, nat) btree_map"
  arcs :: "ipc_endpoint list"
  regions :: "(64 word, ipc_region) btree_map"
  next_endpoint_id :: endpoint_id
  next_region_id :: "64 word"

definition IPC_STATE :: ipc_state where
  "IPC_STATE = \<lparr>endpoints = [], arcs = [], regions = [], next_endpoint_id = 1, next_region_id = 1\<rparr>"

definition IPC_NOWAIT :: "32 word" where "IPC_NOWAIT = 1"
definition IPC_ZERO_COPY :: "32 word" where "IPC_ZERO_COPY = 4"

definition new_endpoint :: "endpoint_id \<Rightarrow> 8 word list \<Rightarrow> 64 word \<Rightarrow> 64 word \<Rightarrow> ipc_endpoint" where
  "new_endpoint i nm owner depth =
    \<lparr>ep_id = i, ep_name = nm, ep_owner = owner, ep_queue = [], max_queue_depth = depth,
     required_caps = 0, ep_clients = []\<rparr>"

definition ipc_create_endpoint ::
  "8 word list \<Rightarrow> 64 word \<Rightarrow> 64 word \<Rightarrow> ipc_state \<Rightarrow> endpoint_id result \<times> ipc_state" where
  "ipc_create_endpoint nm owner depth s =
    (let i = next_endpoint_id s in
     (Inr i, s\<lparr>next_endpoint_id := i + 1,
               arcs := arcs s @ [new_endpoint i nm owner depth],
               endpoints := bm_insert i (length (arcs s)) (endpoints s)\<rparr>))"

definition data_message :: "64 word \<Rightarrow> 32 word \<Rightarrow> 8 word list \<Rightarrow> 32 word \<Rightarrow> ipc_endpoint \<Rightarrow> ipc_message" where
  "data_message pid t p f ep =
    \<lparr>msg_header = \<lparr>msg_type = t, msg_flags = f, payload_len = of_nat (length p),
                   sender_pid = pid, msg_seq = of_nat (length (ep_queue ep))\<rparr>,
     msg_payload = p, zerocopy_region = None\<rparr>"

definition ep_enq :: "ipc_endpoint \<Rightarrow> ipc_message \<Rightarrow> ipc_endpoint option" where
  "ep_enq ep m =
    (if length (ep_queue ep) < unat (max_queue_depth ep)
     then Some (ep\<lparr>ep_queue := ep_queue ep @ [m]\<rparr>) else None)"

definition ep_deq :: "ipc_endpoint \<Rightarrow> (ipc_message \<times> ipc_endpoint) option" where
  "ep_deq ep =
    (case ep_queue ep of [] \<Rightarrow> None | m # q \<Rightarrow> Some (m, ep\<lparr>ep_queue := q\<rparr>))"

definition set_arc :: "nat \<Rightarrow> ipc_endpoint \<Rightarrow> ipc_state \<Rightarrow> ipc_state" where
  "set_arc a ep s = s\<lparr>arcs := (arcs s)[a := ep]\<rparr>"

text \<open>One attempt of a sender and of a receiver, with the endpoint locked.\<close>

definition send_try ::
  "64 word \<Rightarrow> nat \<Rightarrow> 32 word \<Rightarrow> 8 word list \<Rightarrow> 32 word \<Rightarrow> ipc_state \<Rightarrow> ipc_state option" where
  "send_try pid a t p f s =
    map_option (\<lambda>ep. set_arc a ep s) (ep_enq (arcs s ! a) (data_message pid t p f (arcs s ! a)))"

definition recv_try :: "nat \<Rightarrow> ipc_state \<Rightarrow> (ipc_message \<times> ipc_state) option" where
  "recv_try a s = map_option (\<lambda>(m, ep). (m, set_arc a ep s)) (ep_deq (arcs s ! a))"

definition ipc_create_region :: "64 word \<Rightarrow> 64 word \<Rightarrow> 64 word result" where
  "ipc_create_region sz owner = Inl ENOSYS"

definition zerocopy_message ::
  "64 word \<Rightarrow> 32 word \<Rightarrow> 64 word \<Rightarrow> 64 word \<Rightarrow> ipc_endpoint \<Rightarrow> ipc_message" where
  "zerocopy_message pid t rid len ep =
    \<lparr>msg_header = \<lparr>msg_type = t, msg_flags = IPC_ZERO_COPY, payload_len = len,
                   sender_pid = pid, msg_seq = of_nat (length (ep_queue ep))\<rparr>,
     msg_payload = [], zerocopy_region = Some rid\<rparr>"

definition ipc_send_zerocopy ::
  "64 word \<Rightarrow> endpoint_id \<Rightarrow> 32 word \<Rightarrow> 64 word \<Rightarrow> 64 word \<Rightarrow> 64 word \<Rightarrow> ipc_state
     \<Rightarrow> unit result \<times> ipc_state" where
  "ipc_send_zerocopy pid i t rid off len s =
    (case map_of (endpoints s) i of
       None \<Rightarrow> (Inl ENOENT, s)
     | Some a \<Rightarrow>
       (case map_of (regions s) rid of
          None \<Rightarrow> (Inl ENOENT, s)
        | Some r \<Rightarrow>
          (case ep_enq (arcs s ! a) (zerocopy_message pid t rid len (arcs s ! a)) of
             None \<Rightarrow> (Inl EAGAIN, s)
           | Some ep \<Rightarrow> (Inr (), set_arc a ep s))))"

definition ipc_close_endpoint :: "endpoint_id \<Rightarrow> ipc_state \<Rightarrow> unit result \<times> ipc_state" where
  "ipc_close_endpoint i s =
    (case map_of (endpoints s) i of
       None \<Rightarrow> (Inl ENOENT, s)
     | Some a \<Rightarrow> (Inr (), s\<lparr>endpoints := bm_remove i (endpoints s)\<rparr>))"

definition ipc_destroy_region :: "64 word \<Rightarrow> ipc_state \<Rightarrow> unit result \<times> ipc_state" where
  "ipc_destroy_region rid s =
    (case map_of (regions s) rid of
       None \<Rightarrow> (Inl ENOENT, s)
     | Some r \<Rightarrow> (Inr (), s\<lparr>regions := bm_remove rid (regions s)\<rparr>))"

text \<open>A server port is wrapped in an endpoint; the port object itself is dropped.\<close>

definition port_create_server ::
  "8 word list \<Rightarrow> 64 word \<Rightarrow> 64 word \<Rightarrow> ipc_state \<Rightarrow> endpoint_id result \<times> ipc_state" where
  "port_create_server nm owner depth s =
    (let i = next_endpoint_id s in
     (Inr i, s\<lparr>next_endpoint_id := i + 1,
               arcs := arcs s @ [new_endpoint i nm owner depth],
               endpoints := bm_insert i (length (arcs s)) (endpoints s)\<rparr>))"

definition find_named :: "8 word list \<Rightarrow> ipc_state \<Rightarrow> (endpoint_id \<times> nat) option" where
  "find_named nm s = find (\<lambda>(i, a). ep_name (arcs s ! a) = nm) (endpoints s)"

definition link_client :: "8 word list \<Rightarrow> 64 word \<Rightarrow> ipc_state \<Rightarrow> endpoint_id \<times> ipc_state" where
  "link_client nm pid s =
    (let i = next_endpoint_id s;
         s' = s\<lparr>next_endpoint_id := i + 1,
                arcs := arcs s @ [new_endpoint i nm pid 256],
                endpoints := bm_insert i (length (arcs s)) (endpoints s)\<rparr>;
         server = (case find_named nm s' of None \<Rightarrow> 0 | Some (j, b) \<Rightarrow> j)
     in (i, case map_of (endpoints s') server of
              None \<Rightarrow> s'
            | Some b \<Rightarrow> set_arc b ((arcs s' ! b)\<lparr>ep_clients := ep_clients (arcs s' ! b) @ [i]\<rparr>) s'))"

text \<open>The critical sections of the crate, and running a sequence of them.\<close>

datatype ipc_section =
    Create_endpoint "8 word list" "64 word" "64 word"
  | Create_server "8 word list" "64 word" "64 word"
  | Put "64 word" nat "32 word" "8 word list" "32 word"
  | Take nat
  | Zerocopy "64 word" endpoint_id "32 word" "64 word" "64 word" "64 word"
  | Close_endpoint endpoint_id
  | Destroy_region "64 word"
  | Link_client "8 word list" "64 word"

fun run_section :: "ipc_section \<Rightarrow> ipc_state \<Rightarrow> ipc_state" where
  "run_section (Create_endpoint nm owner depth) s = snd (ipc_create_endpoint nm owner depth s)"
| "run_section (Create_server nm owner depth) s = snd (port_create_server nm owner depth s)"
| "run_section (Put pid a t p f) s =
     (if a < length (arcs s) then case_option s id (send_try pid a t p f s) else s)"
| "run_section (Take a) s =
     (if a < length (arcs s) then case_option s snd (recv_try a s) else s)"
| "run_section (Zerocopy pid i t rid off len) s = snd (ipc_send_zerocopy pid i t rid off len s)"
| "run_section (Close_endpoint i) s = snd (ipc_close_endpoint i s)"
| "run_section (Destroy_region rid) s = snd (ipc_destroy_region rid s)"
| "run_section (Link_client nm pid) s = snd (link_client nm pid s)"

definition run_sections :: "ipc_section list \<Rightarrow> ipc_state \<Rightarrow> ipc_state" where
  "run_sections = fold run_section"

type_synonym ipc_schedule = "nat \<Rightarrow> ipc_section list"

definition spin_done :: "32 word \<Rightarrow> nat \<Rightarrow> bool" where
  "spin_done f attempts \<longleftrightarrow> f AND IPC_NOWAIT \<noteq> 0 \<or> 4096 \<le> attempts"

function ipc_send_loop ::
  "ipc_schedule \<Rightarrow> 64 word \<Rightarrow> nat \<Rightarrow> 32 word \<Rightarrow> 8 word list \<Rightarrow> 32 word \<Rightarrow> nat \<Rightarrow> ipc_state
     \<Rightarrow> unit result \<times> ipc_state" where
  "ipc_send_loop sch pid a t p f attempts s =
    (let s1 = run_sections (sch attempts) s in
     case send_try pid a t p f s1 of
       Some s2 \<Rightarrow> (Inr (), s2)
     | None \<Rightarrow>
       (if spin_done f attempts then (Inl EAGAIN, s1)
        else ipc_send_loop sch pid a t p f (attempts + 1) s1))"
  by pat_completeness auto
termination
  by (relation "measure (\<lambda>(sch, pid, a, t, p, f, attempts, s). 4096 - attempts)")
    (auto simp: spin_done_def)

definition ipc_send ::
  "ipc_schedule \<Rightarrow> 64 word \<Rightarrow> endpoint_id \<Rightarrow> 32 word \<Rightarrow> 8 word list \<Rightarrow> 32 word \<Rightarrow> ipc_state
     \<Rightarrow> unit result \<times> ipc_state" where
  "ipc_send sch pid i t p f s =
    (case map_of (endpoints s) i of
       None \<Rightarrow> (Inl ENOENT, s)
     | Some a \<Rightarrow> ipc_send_loop sch pid a t p f 0 s)"

text \<open>A receiver's buffer is a byte list; the call returns it with its first bytes replaced.\<close>

definition fill_buf :: "8 word list \<Rightarrow> 8 word list \<Rightarrow> 8 word list" where
  "fill_buf buf p = (let n = min (length buf) (length p) in take n p @ drop n buf)"

function ipc_recv_loop ::
  "ipc_schedule \<Rightarrow> nat \<Rightarrow> 8 word list \<Rightarrow> 32 word \<Rightarrow> nat \<Rightarrow> ipc_state
     \<Rightarrow> (nat \<times> 32 word) result \<times> 8 word list \<times> ipc_state" where
  "ipc_recv_loop sch a buf f attempts s =
    (let s1 = run_sections (sch attempts) s in
     case recv_try a s1 of
       Some (m, s2) \<Rightarrow>
         (Inr (min (length buf) (length (msg_payload m)), msg_type (msg_header m)),
          fill_buf buf (msg_payload m), s2)
     | None \<Rightarrow>
       (if spin_done f attempts then (Inl EAGAIN, buf, s1)
        else ipc_recv_loop sch a buf f (attempts + 1) s1))"
  by pat_completeness auto
termination
  by (relation "measure (\<lambda>(sch, a, buf, f, attempts, s). 4096 - attempts)")
    (auto simp: spin_done_def)

definition ipc_recv ::
  "ipc_schedule \<Rightarrow> endpoint_id \<Rightarrow> 8 word list \<Rightarrow> 32 word \<Rightarrow> ipc_state
     \<Rightarrow> (nat \<times> 32 word) result \<times> 8 word list \<times> ipc_state" where
  "ipc_recv sch i buf f s =
    (case map_of (endpoints s) i of
       None \<Rightarrow> (Inl ENOENT, buf, s)
     | Some a \<Rightarrow> ipc_recv_loop sch a buf f 0 s)"

text \<open>Connecting looks the server up, drops the lock (the schedule runs) and looks it up again.\<close>

definition port_connect ::
  "ipc_section list \<Rightarrow> 8 word list \<Rightarrow> 64 word \<Rightarrow> ipc_state \<Rightarrow> endpoint_id result \<times> ipc_state" where
  "port_connect others nm pid s =
    (case find_named nm s of
       None \<Rightarrow> (Inl ENOENT, s)
     | Some server \<Rightarrow>
       (let (i, s') = link_client nm pid (run_sections others s) in (Inr i, s')))"

definition port_send ::
  "ipc_schedule \<Rightarrow> 64 word \<Rightarrow> endpoint_id \<Rightarrow> 32 word \<Rightarrow> 8 word list \<Rightarrow> 32 word \<Rightarrow> ipc_state
     \<Rightarrow> unit result \<times> ipc_state" where
  "port_send sch pid i t p f s =
    (case map_of (endpoints s) i of
       None \<Rightarrow> (Inl ENOENT, s)
     | Some a \<Rightarrow> ipc_send_loop sch pid a t p f 0 s)"

definition port_recv ::
  "ipc_schedule \<Rightarrow> endpoint_id \<Rightarrow> 8 word list \<Rightarrow> 32 word \<Rightarrow> ipc_state
     \<Rightarrow> (nat \<times> 32 word) result \<times> 8 word list \<times> ipc_state" where
  "port_recv sch i buf f s =
    (case map_of (endpoints s) i of
       None \<Rightarrow> (Inl ENOENT, buf, s)
     | Some a \<Rightarrow> ipc_recv_loop sch a buf f 0 s)"

text \<open>
  The queue of one endpoint object is an instance of the bounded message queue (with a
  constant key: first in, first out).
\<close>

definition ep_wf :: "ipc_endpoint \<Rightarrow> bool" where
  "ep_wf ep \<longleftrightarrow> length (ep_queue ep) \<le> unat (max_queue_depth ep)"

lemma takeWhile_True: "takeWhile (\<lambda>x. True) xs = xs" and dropWhile_True: "dropWhile (\<lambda>x. True) xs = []"
  by (induction xs) auto

lemma insert_desc_fifo: "insert_desc (\<lambda>_. 0) m xs = xs @ [m]"
  by (simp add: insert_desc_def takeWhile_True dropWhile_True)

lemma ep_enq_Some_iff:
  "ep_enq ep m = Some ep' \<longleftrightarrow>
   length (ep_queue ep) < unat (max_queue_depth ep) \<and> ep' = ep\<lparr>ep_queue := ep_queue ep @ [m]\<rparr>"
  by (auto simp: ep_enq_def)

lemma ep_deq_Some_iff:
  "ep_deq ep = Some (m, ep') \<longleftrightarrow> (\<exists>q. ep_queue ep = m # q \<and> ep' = ep\<lparr>ep_queue := q\<rparr>)"
  by (auto simp: ep_deq_def split: list.splits)

interpretation ipcq: message_queue ep_wf ep_queue "\<lambda>ep. unat (max_queue_depth ep)" "\<lambda>_. 0" ep_enq ep_deq
proof
  fix ep assume "ep_wf ep"
  show "desc (\<lambda>_. 0) (ep_queue ep)" by (induction "ep_queue ep" arbitrary: ep) (auto simp: desc_def sorted_wrt_iff_nth_less)
qed (auto simp: ep_wf_def ep_enq_Some_iff ep_deq_Some_iff insert_desc_fifo ep_deq_def split: list.splits)

text \<open>What a section does to one object, as operations on its queue.\<close>

fun section_ops :: "nat \<Rightarrow> ipc_section \<Rightarrow> ipc_state \<Rightarrow> ipc_message queue_op list" where
  "section_ops a (Put pid b t p f) s = (if b = a then [Enq (data_message pid t p f (arcs s ! a))] else [])"
| "section_ops a (Take b) s = (if b = a then [Deq] else [])"
| "section_ops a (Zerocopy pid i t rid off len) s =
     (if map_of (endpoints s) i = Some a \<and> map_of (regions s) rid \<noteq> None
      then [Enq (zerocopy_message pid t rid len (arcs s ! a))] else [])"
| "section_ops a _ s = []"

fun sections_ops :: "nat \<Rightarrow> ipc_section list \<Rightarrow> ipc_state \<Rightarrow> ipc_message queue_op list" where
  "sections_ops a [] s = []"
| "sections_ops a (x # xs) s = section_ops a x s @ sections_ops a xs (run_section x s)"

text \<open>The state invariant.\<close>

definition ipc_ok :: "ipc_state \<Rightarrow> bool" where
  "ipc_ok s \<longleftrightarrow>
     bm_wf (endpoints s) \<and> (\<forall>a \<in> snd ` set (endpoints s). a < length (arcs s)) \<and>
     (\<forall>ep \<in> set (arcs s). ep_wf ep) \<and> regions s = []"

lemma ipc_ok_init: "ipc_ok IPC_STATE"
  by (simp add: ipc_ok_def IPC_STATE_def)

lemma vals_bm_insert: "snd ` set (bm_insert k v m) \<subseteq> insert v (snd ` set m)"
  by (induction k v m rule: bm_insert.induct) auto

lemma ipc_ok_set_arc:
  "ipc_ok s \<Longrightarrow> ep_wf ep \<Longrightarrow> ipc_ok (set_arc a ep s)"
  by (auto simp: ipc_ok_def set_arc_def dest: set_update_subset_insert [THEN subsetD])

lemma ipc_ok_insert:
  assumes "ipc_ok s"
  shows "ipc_ok (s\<lparr>next_endpoint_id := j, arcs := arcs s @ [new_endpoint i nm owner depth],
                  endpoints := bm_insert i (length (arcs s)) (endpoints s)\<rparr>)"
proof -
  have "\<forall>a \<in> snd ` set (bm_insert i (length (arcs s)) (endpoints s)). a < Suc (length (arcs s))"
    using vals_bm_insert [of i "length (arcs s)" "endpoints s"] assms
    unfolding ipc_ok_def less_Suc_eq by blast
  then show ?thesis using assms
    by (simp add: ipc_ok_def bm_insert_wf new_endpoint_def ep_wf_def)
qed

lemma ipc_ok_arc: "ipc_ok s \<Longrightarrow> a < length (arcs s) \<Longrightarrow> ep_wf (arcs s ! a)"
  by (simp add: ipc_ok_def)

lemma ipc_ok_addr: "ipc_ok s \<Longrightarrow> map_of (endpoints s) i = Some a \<Longrightarrow> a < length (arcs s)"
  by (force simp: ipc_ok_def dest: map_of_SomeD)

lemma ep_wf_enq: "ep_wf ep \<Longrightarrow> ep_enq ep m = Some ep' \<Longrightarrow> ep_wf ep'"
  by (rule ipcq.enq_inv)

lemma ipc_ok_link: "ipc_ok s \<Longrightarrow> ipc_ok (snd (link_client nm pid s))"
proof -
  assume ok: "ipc_ok s"
  define s' where "s' = s\<lparr>next_endpoint_id := next_endpoint_id s + 1,
    arcs := arcs s @ [new_endpoint (next_endpoint_id s) nm pid 256],
    endpoints := bm_insert (next_endpoint_id s) (length (arcs s)) (endpoints s)\<rparr>"
  have ok': "ipc_ok s'" unfolding s'_def by (rule ipc_ok_insert [OF ok])
  have "ep_wf ((arcs s' ! b)\<lparr>ep_clients := cs\<rparr>)" if "map_of (endpoints s') j = Some b" for b j cs
    using ipc_ok_arc [OF ok' ipc_ok_addr [OF ok' that]] by (simp add: ep_wf_def)
  then show "ipc_ok (snd (link_client nm pid s))"
    unfolding link_client_def Let_def s'_def [symmetric] snd_conv
    by (auto intro: ok' ipc_ok_set_arc split: option.split)
qed

lemma run_section_ok: "ipc_ok s \<Longrightarrow> ipc_ok (run_section x s)"
proof (cases x)
  case (Put pid a t p f)
  assume "ipc_ok s"
  with Put show ?thesis
    by (auto simp: send_try_def intro: ipc_ok_set_arc ep_wf_enq dest: ipc_ok_arc split: option.split)
next
  case (Take a)
  assume "ipc_ok s"
  with Take show ?thesis
    by (auto simp: recv_try_def intro!: ipc_ok_set_arc dest: ipc_ok_arc ipcq.deq_inv split: option.split)
next
  case (Zerocopy pid i t rid off len)
  assume "ipc_ok s"
  with Zerocopy show ?thesis
    by (auto simp: ipc_send_zerocopy_def ipc_ok_def split: option.split)
next
  case (Close_endpoint i)
  assume "ipc_ok s"
  with Close_endpoint show ?thesis
    by (auto simp: ipc_close_endpoint_def ipc_ok_def bm_remove_wf split: option.split)
      (auto simp: bm_remove_def)
next
  case (Destroy_region rid)
  assume "ipc_ok s"
  with Destroy_region show ?thesis
    by (auto simp: ipc_destroy_region_def ipc_ok_def split: option.split)
qed (simp_all add: ipc_ok_link ipc_create_endpoint_def port_create_server_def Let_def ipc_ok_insert)

lemma run_sections_Nil [simp]: "run_sections [] s = s"
  and run_sections_Cons [simp]: "run_sections (x # xs) s = run_sections xs (run_section x s)"
  and run_sections_append [simp]: "run_sections (xs @ ys) s = run_sections ys (run_sections xs s)"
  by (simp_all add: run_sections_def)

lemma run_sections_ok: "ipc_ok s \<Longrightarrow> ipc_ok (run_sections xs s)"
  by (induction xs arbitrary: s) (simp_all add: run_section_ok)

text \<open>The objects of the store are never freed or moved by a section.\<close>

lemma length_set_arc [simp]: "length (arcs (set_arc a ep s)) = length (arcs s)"
  by (simp add: set_arc_def)

lemma run_section_arcs: "length (arcs s) \<le> length (arcs (run_section x s))"
  by (cases x) (auto simp: ipc_create_endpoint_def port_create_server_def Let_def send_try_def
      recv_try_def ipc_send_zerocopy_def ipc_close_endpoint_def ipc_destroy_region_def
      link_client_def split: option.split)

lemma run_sections_arcs: "length (arcs s) \<le> length (arcs (run_sections xs s))"
proof (induction xs arbitrary: s)
  case (Cons x xs)
  show ?case using run_section_arcs [of s x] Cons [of "run_section x s"] by simp
qed simp

text \<open>Connecting a client changes the client list of an object, which no queue operation reads.\<close>

definition ep_core :: "ipc_endpoint \<Rightarrow> ipc_endpoint" where
  "ep_core ep = ep\<lparr>ep_clients := []\<rparr>"

lemma ep_core_simps [simp]:
  "ep_queue (ep_core ep) = ep_queue ep" "max_queue_depth (ep_core ep) = max_queue_depth ep"
  "ep_core (ep\<lparr>ep_clients := cs\<rparr>) = ep_core ep"
  by (simp_all add: ep_core_def)

lemma ep_enq_core: "ep_enq (ep_core ep) m = map_option ep_core (ep_enq ep m)"
  by (simp add: ep_enq_def ep_core_def)

lemma ep_deq_core: "ep_deq (ep_core ep) = map_option (map_prod id ep_core) (ep_deq ep)"
  by (simp add: ep_deq_def ep_core_def split: list.split)

lemma run_ops_core:
  "run_ops ep_enq ep_deq (ep_core ep) ops =
     map_prod id (map_prod id ep_core) (run_ops ep_enq ep_deq ep ops)"
proof (induction ops arbitrary: ep)
  case (Cons op ops)
  show ?case
    by (cases op) (auto simp: Cons ep_enq_core ep_deq_core split: option.split prod.split)
qed simp

lemma run_ops_append:
  "run_ops enq deq q (xs @ ys) =
     (let (acc, del, r) = run_ops enq deq q xs; (acc', del', r') = run_ops enq deq r ys
      in (acc @ acc', del @ del', r'))"
  by (induction enq deq q xs rule: run_ops.induct) (auto split: option.split prod.split)

lemma arcs_set_arc: "a < length (arcs s) \<Longrightarrow> arcs (set_arc b ep s) ! a = (if a = b then ep else arcs s ! a)"
  by (simp add: set_arc_def nth_list_update)

lemma link_client_core:
  assumes "a < length (arcs s)"
  shows "ep_core (arcs (snd (link_client nm pid s)) ! a) = ep_core (arcs s ! a)"
  using assms by (auto simp: link_client_def Let_def arcs_set_arc nth_append split: option.split)

text \<open>A section acts on an object as its operations act on the queue of the object.\<close>

lemma section_refines:
  assumes a: "a < length (arcs s)" and ok: "ipc_ok s"
  shows "ep_core (snd (snd (run_ops ep_enq ep_deq (arcs s ! a) (section_ops a x s)))) =
         ep_core (arcs (run_section x s) ! a)"
proof (cases x)
  case (Put pid b t p f)
  with a show ?thesis by (auto simp: send_try_def arcs_set_arc split: option.split)
next
  case (Take b)
  with a show ?thesis by (auto simp: recv_try_def arcs_set_arc split: option.split prod.split)
next
  case (Zerocopy pid i t rid off len)
  with a ok show ?thesis by (auto simp: ipc_ok_def ipc_send_zerocopy_def split: option.split)
qed (use a in \<open>simp_all add: ipc_create_endpoint_def port_create_server_def Let_def nth_append
      ipc_close_endpoint_def ipc_destroy_region_def link_client_core split: option.split\<close>)

lemma sections_refine:
  assumes "a < length (arcs s)" and "ipc_ok s"
  shows "ep_core (snd (snd (run_ops ep_enq ep_deq (arcs s ! a) (sections_ops a xs s)))) =
         ep_core (arcs (run_sections xs s) ! a)"
  using assms
proof (induction xs arbitrary: s)
  case (Cons x xs)
  obtain acc del r where r: "run_ops ep_enq ep_deq (arcs s ! a) (section_ops a x s) = (acc, del, r)"
    by (metis prod_cases3)
  let ?s = "run_section x s" and ?ops = "sections_ops a xs (run_section x s)"
  have core: "ep_core r = ep_core (arcs ?s ! a)"
    using section_refines [OF Cons.prems, of x] r by simp
  have "ep_core (snd (snd (run_ops ep_enq ep_deq r ?ops))) =
        snd (snd (run_ops ep_enq ep_deq (ep_core r) ?ops))"
    unfolding run_ops_core by (simp add: map_prod_def split: prod.split)
  also have "\<dots> = ep_core (snd (snd (run_ops ep_enq ep_deq (arcs ?s ! a) ?ops)))"
    unfolding core run_ops_core by (simp add: map_prod_def split: prod.split)
  also have "\<dots> = ep_core (arcs (run_sections (x # xs) s) ! a)"
    using Cons.IH [of ?s] Cons.prems run_section_ok run_section_arcs [of s x] by simp
  finally show ?case
    by (cases "run_ops ep_enq ep_deq r ?ops") (simp add: run_ops_append r)
qed simp

declare ipc_send_loop.simps [simp del] ipc_recv_loop.simps [simp del]

text \<open>
  The loops that spin with the lock dropped. Every such loop ends at one attempt, at which
  it either does its work in one section or gives up.
\<close>

definition at_attempt :: "ipc_schedule \<Rightarrow> nat \<Rightarrow> ipc_state \<Rightarrow> nat \<Rightarrow> ipc_state" where
  "at_attempt sch n s k = run_sections (concat (map sch [n..<Suc k])) s"

lemma at_attempt_first [simp]: "at_attempt sch n s n = run_sections (sch n) s"
  by (simp add: at_attempt_def)

lemma at_attempt_Suc: "n < k \<Longrightarrow> at_attempt sch (Suc n) (run_sections (sch n) s) k = at_attempt sch n s k"
  by (simp add: at_attempt_def upt_conv_Cons [of n k])

locale spin_loop =
  fixes sch :: ipc_schedule and f :: "32 word"
    and attempt :: "ipc_state \<Rightarrow> 'r option" and giveup :: "ipc_state \<Rightarrow> 'r"
    and loop :: "nat \<Rightarrow> ipc_state \<Rightarrow> 'r"
  assumes loop_unfold:
    "loop n s = (let s1 = run_sections (sch n) s in
       case attempt s1 of Some r \<Rightarrow> r | None \<Rightarrow> if spin_done f n then giveup s1 else loop (n + 1) s1)"
begin

lemma spin_point:
  "n \<le> 4096 \<Longrightarrow> \<exists>k. n \<le> k \<and> k \<le> 4096 \<and>
     (\<forall>j. n \<le> j \<and> j < k \<longrightarrow> attempt (at_attempt sch n s j) = None) \<and>
     loop n s = (case attempt (at_attempt sch n s k) of Some r \<Rightarrow> r | None \<Rightarrow> giveup (at_attempt sch n s k)) \<and>
     (attempt (at_attempt sch n s k) = None \<longrightarrow> spin_done f k) \<and>
     (f AND IPC_NOWAIT \<noteq> 0 \<longrightarrow> k = n)"
proof (induction "4096 - n" arbitrary: n s)
  case 0
  then have "n = 4096" by simp
  then show ?case
    by (intro exI [of _ n]) (auto simp: loop_unfold [of 4096] spin_done_def Let_def split: option.split)
next
  case (Suc d)
  let ?s = "run_sections (sch n) s"
  show ?case
  proof (cases "attempt ?s = None \<and> \<not> spin_done f n")
    case False
    then show ?thesis using Suc.prems
      by (intro exI [of _ n]) (auto simp: loop_unfold [of n] Let_def split: option.split)
  next
    case True
    from Suc.hyps(2) have "d = 4096 - Suc n" and le: "Suc n \<le> 4096" by auto
    define P where "P k \<longleftrightarrow> Suc n \<le> k \<and> k \<le> 4096 \<and>
       (\<forall>j. Suc n \<le> j \<and> j < k \<longrightarrow> attempt (at_attempt sch (Suc n) ?s j) = None) \<and>
       loop (Suc n) ?s = (case attempt (at_attempt sch (Suc n) ?s k) of
          Some r \<Rightarrow> r | None \<Rightarrow> giveup (at_attempt sch (Suc n) ?s k)) \<and>
       (attempt (at_attempt sch (Suc n) ?s k) = None \<longrightarrow> spin_done f k)" for k
    have "\<exists>k. P k"
      unfolding P_def
      by (rule ex_forward [OF Suc.hyps(1) [OF \<open>d = 4096 - Suc n\<close> le, of ?s]])
        (elim conjE, intro conjI)
    then obtain k where "P k" ..
    then have k: "Suc n \<le> k" "k \<le> 4096" by (simp_all add: P_def)
    then have "n < k" by simp
    note eq = at_attempt_Suc [OF this, of sch s]
    from \<open>P k\<close> have none: "Suc n \<le> j \<Longrightarrow> j < k \<Longrightarrow> attempt (at_attempt sch n s j) = None"
      and res: "loop (Suc n) ?s = (case attempt (at_attempt sch n s k) of
          Some r \<Rightarrow> r | None \<Rightarrow> giveup (at_attempt sch n s k))"
      and fin: "attempt (at_attempt sch n s k) = None \<Longrightarrow> spin_done f k" for j
      using at_attempt_Suc [of n j sch s] unfolding P_def eq by auto
    have "attempt (at_attempt sch n s j) = None" if "n \<le> j" "j < k" for j
      using that none [of j] True by (cases "j = n") auto
    moreover have "loop n s = loop (Suc n) ?s"
      using True by (simp add: loop_unfold [of n] Let_def)
    ultimately show ?thesis using k res fin True
      by (intro exI [of _ k]) (auto simp: spin_done_def)
  qed
qed

end

interpretation ipc_sender: spin_loop sch f
    "\<lambda>s. map_option (Pair (Inr ())) (send_try pid a t p f s)" "Pair (Inl EAGAIN)"
    "ipc_send_loop sch pid a t p f" for sch pid a t p f
  by unfold_locales (subst ipc_send_loop.simps, simp add: Let_def split: option.split)

definition received :: "8 word list \<Rightarrow> ipc_message \<times> ipc_state \<Rightarrow> (nat \<times> 32 word) result \<times> 8 word list \<times> ipc_state" where
  "received buf = (\<lambda>(m, s).
     (Inr (min (length buf) (length (msg_payload m)), msg_type (msg_header m)),
      fill_buf buf (msg_payload m), s))"

interpretation ipc_receiver: spin_loop sch f
    "\<lambda>s. map_option (received buf) (recv_try a s)" "\<lambda>s. (Inl EAGAIN, buf, s)"
    "ipc_recv_loop sch a buf f" for sch a buf f
  by unfold_locales (subst ipc_recv_loop.simps, auto simp: Let_def received_def split: option.split)

lemma recv_try_None: "recv_try a s = None \<longleftrightarrow> ep_queue (arcs s ! a) = []"
  by (simp add: recv_try_def ep_deq_def split: list.split)

lemma recv_try_Cons:
  "ep_queue (arcs s ! a) = m # q \<Longrightarrow>
   recv_try a s = Some (m, set_arc a ((arcs s ! a)\<lparr>ep_queue := q\<rparr>) s)"
  by (simp add: recv_try_def ep_deq_def)

text \<open>
  C37: Whatever sections of however many threads run in whatever order, the object of an
  endpoint is the bounded first-in-first-out queue fed with the operations on it: what was
  queued and what was accepted is, in order, what was delivered and what is still queued,
  nothing is lost, duplicated or reordered, and the depth is never exceeded. In every
  reachable state no zero-copy region exists, so every zero-copy send fails with ENOENT.
\<close>

theorem ipc_endpoint_fifo:
  fixes s :: ipc_state and a :: nat and xs :: "ipc_section list"
  assumes "ipc_ok s" and "a < length (arcs s)"
    and "run_ops ep_enq ep_deq (arcs s ! a) (sections_ops a xs s) = (acc, del, r)"
  shows "ep_queue (arcs s ! a) @ acc = del @ ep_queue (arcs (run_sections xs s) ! a)
    \<and> length (ep_queue (arcs (run_sections xs s) ! a)) \<le> unat (max_queue_depth (arcs s ! a))
    \<and> ipc_ok (run_sections xs s)
    \<and> fst (ipc_send_zerocopy pid i t rid off len (run_sections xs s)) = Inl ENOENT"
proof (intro conjI)
  have wf: "ep_wf (arcs s ! a)" using assms(1,2) by (rule ipc_ok_arc)
  have "ep_core r = ep_core (arcs (run_sections xs s) ! a)"
    using sections_refine [OF assms(2,1), of xs] assms(3) by simp
  then have q: "ep_queue (arcs (run_sections xs s) ! a) = ep_queue r"
    by (metis ep_core_simps(1))
  show "ep_queue (arcs s ! a) @ acc = del @ ep_queue (arcs (run_sections xs s) ! a)"
    using ipcq.run_fifo_per_key [OF wf assms(3), of 0] by (simp add: q)
  show "length (ep_queue (arcs (run_sections xs s) ! a)) \<le> unat (max_queue_depth (arcs s ! a))"
    using ipcq.run_bounded [OF wf assms(3)] by (simp add: q)
  show ok: "ipc_ok (run_sections xs s)" using assms(1) by (rule run_sections_ok)
  then show "fst (ipc_send_zerocopy pid i t rid off len (run_sections xs s)) = Inl ENOENT"
    by (simp add: ipc_ok_def ipc_send_zerocopy_def split: option.split)
qed

definition demo_ipc :: ipc_state where
  "demo_ipc = snd (ipc_create_endpoint [112] 1 2 IPC_STATE)"

lemma demo_ipc_arcs:
  "demo_ipc = \<lparr>endpoints = [(1, 0)], arcs = [new_endpoint 1 [112] 1 2], regions = [],
     next_endpoint_id = 2, next_region_id = 1\<rparr>"
  by (simp add: demo_ipc_def ipc_create_endpoint_def IPC_STATE_def Let_def)

lemma demo_ipc_ok: "ipc_ok demo_ipc"
  using ipc_ok_insert [OF ipc_ok_init] by (simp add: demo_ipc_def ipc_create_endpoint_def Let_def)

definition demo_secs :: "ipc_section list" where
  "demo_secs = [Put 7 0 5 [1] 0, Take 0, Put 7 0 6 [2] 0]"

lemma demo_secs_ops:
  "sections_ops 0 demo_secs demo_ipc =
     [Enq (data_message 7 5 [1] 0 (new_endpoint 1 [112] 1 2)), Deq,
      Enq (data_message 7 6 [2] 0 (new_endpoint 1 [112] 1 2))]"
  by (simp add: demo_secs_def demo_ipc_arcs send_try_def recv_try_def set_arc_def new_endpoint_def
      ep_enq_def ep_deq_def data_message_def)

lemma demo_secs_run:
  "run_ops ep_enq ep_deq (arcs demo_ipc ! 0) (sections_ops 0 demo_secs demo_ipc) =
     ([data_message 7 5 [1] 0 (new_endpoint 1 [112] 1 2), data_message 7 6 [2] 0 (new_endpoint 1 [112] 1 2)],
      [data_message 7 5 [1] 0 (new_endpoint 1 [112] 1 2)],
      (new_endpoint 1 [112] 1 2)\<lparr>ep_queue := [data_message 7 6 [2] 0 (new_endpoint 1 [112] 1 2)]\<rparr>)"
  unfolding demo_secs_ops by (simp add: demo_ipc_arcs new_endpoint_def ep_enq_def ep_deq_def)

theorem ipc_endpoint_fifo_witness:
  "ep_queue (arcs (run_sections demo_secs demo_ipc) ! 0) =
     [data_message 7 6 [2] 0 (new_endpoint 1 [112] 1 2)]"
  using ipc_endpoint_fifo [OF demo_ipc_ok _ demo_secs_run]
  by (simp add: demo_ipc_arcs new_endpoint_def)

text \<open>
  C38: A blocking send or receive always returns, after at most 4097 attempts (one, with
  the no-wait flag), whatever the other threads do between its attempts. It takes effect in one
  section at one attempt: before it every attempt found the queue full (empty), at it a
  send has put exactly its message behind the queue and a receive has taken exactly the
  first message and returned its type and the bytes that fit the buffer. EAGAIN means that the
  last attempt failed as well and that the no-wait flag is set or all attempts are used, and
  then the caller has changed nothing.
\<close>

theorem ipc_calls_linearizable:
  fixes s :: ipc_state and sch :: ipc_schedule
  defines "at_k \<equiv> at_attempt sch 0 s"
  assumes "map_of (endpoints s) i = Some a"
  shows "(\<exists>k\<le>4096. (\<forall>j<k. send_try pid a t p f (at_k j) = None) \<and>
      (f AND IPC_NOWAIT \<noteq> 0 \<longrightarrow> k = 0) \<and>
      (case send_try pid a t p f (at_k k) of
         Some s' \<Rightarrow> ipc_send sch pid i t p f s = (Inr (), s') \<and> port_send sch pid i t p f s = (Inr (), s')
       | None \<Rightarrow> ipc_send sch pid i t p f s = (Inl EAGAIN, at_k k) \<and>
                 port_send sch pid i t p f s = (Inl EAGAIN, at_k k) \<and>
                 (f AND IPC_NOWAIT \<noteq> 0 \<or> k = 4096)))
    \<and> (\<exists>k\<le>4096. (\<forall>j<k. ep_queue (arcs (at_k j) ! a) = []) \<and>
      (f AND IPC_NOWAIT \<noteq> 0 \<longrightarrow> k = 0) \<and>
      (case ep_queue (arcs (at_k k) ! a) of
         m # q \<Rightarrow> ipc_recv sch i buf f s =
           (Inr (min (length buf) (length (msg_payload m)), msg_type (msg_header m)),
            fill_buf buf (msg_payload m),
            set_arc a ((arcs (at_k k) ! a)\<lparr>ep_queue := q\<rparr>) (at_k k)) \<and>
           port_recv sch i buf f s = ipc_recv sch i buf f s
       | [] \<Rightarrow> ipc_recv sch i buf f s = (Inl EAGAIN, buf, at_k k) \<and>
               port_recv sch i buf f s = (Inl EAGAIN, buf, at_k k) \<and>
               (f AND IPC_NOWAIT \<noteq> 0 \<or> k = 4096)))"
    (is "?send \<and> ?receive")
proof
  show ?send unfolding at_k_def
    by (rule ex_forward [OF ipc_sender.spin_point [of 0 pid a t p f sch s, OF le0]])
      (auto simp: ipc_send_def port_send_def assms(2) spin_done_def split: option.split)
  show ?receive unfolding at_k_def
    by (rule ex_forward [OF ipc_receiver.spin_point [of 0 buf a sch s f, OF le0]])
      (auto simp: ipc_recv_def port_recv_def assms(2) spin_done_def recv_try_None recv_try_Cons
        recv_try_None [THEN iffD2] received_def split: list.split)
qed

theorem ipc_calls_linearizable_witness:
  "fst (ipc_send (\<lambda>_. []) 7 1 5 [1] 1 demo_ipc) = Inr ()"
  using ipc_calls_linearizable [of demo_ipc 1 0 7 5 "[1]" 1 "\<lambda>_. []"]
  by (auto simp: at_attempt_def demo_ipc_arcs new_endpoint_def send_try_def ep_enq_def IPC_NOWAIT_def)

end
