(* ===== verification/PrimeRoots.thy ===== *)
theory PrimeRoots
  imports Prelude
begin

text \<open>
  The constants of SHA-256 as FIPS 180-4 (sections 4.2.2 and 5.3.3) describes them: the first
  32 bits of the fractional parts of the cube roots of the first 64 primes and of the square roots of
  the first eight. The 32 bits are the integer part of the root scaled by \<open>2 ^ 32\<close>, as a word.
\<close>

definition is_prime :: "nat \<Rightarrow> bool" where
  "is_prime n \<longleftrightarrow> 2 \<le> n \<and> (\<forall>d. d dvd n \<longrightarrow> d = 1 \<or> d = n)"

definition first_primes :: "nat \<Rightarrow> nat list" where
  "first_primes n = take n (filter is_prime [2..<312])"

definition sqrt_bits :: "nat \<Rightarrow> u32" where
  "sqrt_bits p = of_nat (GREATEST x. x ^ 2 \<le> p * 2 ^ 64)"

definition cbrt_bits :: "nat \<Rightarrow> u32" where
  "cbrt_bits p = of_nat (GREATEST x. x ^ 3 \<le> p * 2 ^ 96)"

lemma greatest_root:
  fixes n :: nat
  assumes "x ^ k \<le> n" "n < Suc x ^ k"
  shows "(GREATEST x. x ^ k \<le> n) = x"
proof (rule Greatest_equality)
  show "x ^ k \<le> n" by fact
  fix y assume "y ^ k \<le> n"
  then have "y ^ k < Suc x ^ k" using assms(2) by (rule le_less_trans)
  then have "y < Suc x" by (rule power_less_imp_less_base) simp
  then show "y \<le> x" by simp
qed

definition root_ok :: "nat \<Rightarrow> nat \<Rightarrow> nat \<Rightarrow> nat \<Rightarrow> bool" where
  "root_ok k q p w \<longleftrightarrow> (q * 2 ^ 32 + w) ^ k \<le> p * 2 ^ (32 * k) \<and> p * 2 ^ (32 * k) < Suc (q * 2 ^ 32 + w) ^ k"

lemma prime_iff:
  assumes n: "2 \<le> n" "n < 324"
  shows "is_prime n \<longleftrightarrow> (\<forall>d. 2 \<le> d \<and> d < 18 \<and> d < n \<longrightarrow> n mod d \<noteq> 0)"
proof
  assume p: "is_prime n"
  show "\<forall>d. 2 \<le> d \<and> d < 18 \<and> d < n \<longrightarrow> n mod d \<noteq> 0"
  proof (intro allI impI notI)
    fix d assume d: "2 \<le> d \<and> d < 18 \<and> d < n" "n mod d = 0"
    then have "d dvd n" by (simp add: dvd_eq_mod_eq_0)
    with p have "d = 1 \<or> d = n" unfolding is_prime_def by blast
    with d(1) show False by linarith
  qed
next
  assume all: "\<forall>d. 2 \<le> d \<and> d < 18 \<and> d < n \<longrightarrow> n mod d \<noteq> 0"
  show "is_prime n" unfolding is_prime_def
  proof (intro conjI allI impI n(1))
    fix a assume "a dvd n"
    then obtain b where b: "n = a * b" by (rule dvdE)
    show "a = 1 \<or> a = n"
    proof (rule ccontr)
      assume "\<not> (a = 1 \<or> a = n)"
      moreover have "a \<noteq> 0" "b \<noteq> 0" using n(1) b by (metis mult_is_0 not_numeral_le_zero)+
      ultimately have ab: "2 \<le> a" "2 \<le> b" using b by (cases b; cases "b = 1"; simp)+
      define d where "d = min a b"
      have d: "2 \<le> d" and dvd: "d dvd n" using ab by (simp_all add: d_def b min_def)
      have sq: "d * d \<le> n" unfolding b d_def by (rule mult_le_mono) simp_all
      have "d < 18"
      proof (rule ccontr)
        assume "\<not> d < 18"
        then have "18 * 18 \<le> d * d" by (intro mult_le_mono) simp_all
        then show False using sq n(2) by linarith
      qed
      moreover have "d < d * d" using d by (cases d) simp_all
      then have "d < n" using sq by linarith
      ultimately have "n mod d \<noteq> 0" using all d by blast
      then show False using dvd by (simp add: dvd_eq_mod_eq_0)
    qed
  qed
qed

definition small_test :: "nat \<Rightarrow> bool" where
  "small_test n \<longleftrightarrow> list_all (\<lambda>d. d < n \<longrightarrow> n mod d \<noteq> 0) [2, 3, 5, 7, 11, 13, 17]"

lemma small_factor:
  assumes "2 \<le> d" "d < (18 :: nat)"
  shows "\<exists>r \<in> {2, 3, 5, 7, 11, 13, 17}. r dvd d"
proof -
  have "list_all (\<lambda>d. list_ex (\<lambda>r. d mod r = 0) [2, 3, 5, 7, 11, 13, 17]) [2..<18::nat]" by simp
  then show ?thesis using assms by (auto simp only: list_all_iff list_ex_iff set_upt atLeastLessThan_iff
        dvd_eq_mod_eq_0 list.set Ball_def)
qed

lemma prime_filter: "filter is_prime [2..<312] = filter small_test [2..<312]"
proof (rule filter_cong [OF refl])
  fix x assume "x \<in> set [2..<312]"
  then have x: "2 \<le> x" "x < 312" unfolding set_upt atLeastLessThan_iff by blast+
  have "small_test x \<longleftrightarrow> (\<forall>d. 2 \<le> d \<and> d < 18 \<and> d < x \<longrightarrow> x mod d \<noteq> 0)"
  proof
    assume t: "small_test x"
    show "\<forall>d. 2 \<le> d \<and> d < 18 \<and> d < x \<longrightarrow> x mod d \<noteq> 0"
    proof (intro allI impI notI)
      fix d assume d: "2 \<le> d \<and> d < 18 \<and> d < x" "x mod d = 0"
      then obtain r where r: "r \<in> {2, 3, 5, 7, 11, 13, 17}" "r dvd d" using small_factor by blast
      have "d dvd x" using d(2) by (simp only: dvd_eq_mod_eq_0)
      with r(2) have "r dvd x" by (rule dvd_trans)
      moreover have "r \<le> d" using dvd_imp_le [OF r(2)] d(1) by linarith
      then have "r < x" using d(1) by linarith
      ultimately show False using t r(1) by (simp only: small_test_def list_all_iff list.set dvd_eq_mod_eq_0)
    qed
  next
    assume all: "\<forall>d. 2 \<le> d \<and> d < 18 \<and> d < x \<longrightarrow> x mod d \<noteq> 0"
    have "\<forall>d \<in> set [2, 3, 5, 7, 11, 13, 17 :: nat]. 2 \<le> d \<and> d < 18" by simp
    then show "small_test x" using all unfolding small_test_def list_all_iff by blast
  qed
  then show "is_prime x = small_test x" using prime_iff [of x] x by simp
qed

definition p64 :: "nat list" where
  "p64 = [2, 3, 5, 7, 11, 13, 17, 19, 23, 29, 31, 37, 41, 43, 47, 53,
     59, 61, 67, 71, 73, 79, 83, 89, 97, 101, 103, 107, 109, 113, 127, 131,
     137, 139, 149, 151, 157, 163, 167, 173, 179, 181, 191, 193, 197, 199, 211, 223,
     227, 229, 233, 239, 241, 251, 257, 263, 269, 271, 277, 281, 283, 293, 307, 311]"

lemma p64_eq: "filter small_test [2..<312] = p64"
  unfolding p64_def by (simp add: small_test_def)

lemma root_ok_greatest:
  "root_ok k q p (unat w) \<Longrightarrow> (of_nat (GREATEST x. x ^ k \<le> p * 2 ^ (32 * k)) :: u32) = w"
proof -
  assume "root_ok k q p (unat w)"
  then have "(GREATEST x. x ^ k \<le> p * 2 ^ (32 * k)) = q * 2 ^ 32 + unat w"
    unfolding root_ok_def by (intro greatest_root) blast+
  moreover have "(2 :: u32) ^ 32 = 0" by simp
  ultimately show ?thesis by (simp only: of_nat_add of_nat_mult of_nat_power of_nat_numeral mult_zero_right add_0) simp
qed

lemma first_primes_64: "first_primes 64 = p64"
  unfolding first_primes_def prime_filter p64_eq by (simp add: p64_def)

lemma first_primes_8: "first_primes 8 = take 8 p64"
  unfolding first_primes_def prime_filter p64_eq ..

text \<open>The integer parts of the roots, for the primes in question.\<close>

definition cbrt_floor :: "nat \<Rightarrow> nat" where
  "cbrt_floor p = (if p < 8 then 1 else if p < 27 then 2 else if p < 64 then 3 else if p < 125 then 4 else if p < 216 then 5 else 6)"
definition sqrt_floor :: "nat \<Rightarrow> nat" where
  "sqrt_floor p = (if p < 4 then 1 else if p < 9 then 2 else if p < 16 then 3 else 4)"

lemma cbrt_bits_eq: "root_ok 3 q p (unat w) \<Longrightarrow> cbrt_bits p = w"
  using root_ok_greatest [of 3 q p w] by (simp add: cbrt_bits_def)

lemma sqrt_bits_eq: "root_ok 2 q p (unat w) \<Longrightarrow> sqrt_bits p = w"
  using root_ok_greatest [of 2 q p w] by (simp add: sqrt_bits_def)

end
