(* ===== verification/Sha256.thy ===== *)
theory Sha256
  imports PrimeRoots
begin

text \<open>
  The hash functions of \<^verbatim>\<open>crates/crypto/src/sha256.rs\<close> (SHA-256, HMAC, PBKDF2) and the
  entropy pool of \<^verbatim>\<open>entropy.rs\<close>. The code works on fixed arrays that it overwrites block by
  block; the model keeps the arrays (lists updated by index) and the loops (\<open>fold\<close> over the
  index range). A failed assertion is \<open>None\<close>. The second half states the functions the way
  the standards do (FIPS 180-4, RFC 2104, RFC 2898), on the whole padded message and with
  recursive sequences, and proves that the code computes them. The processor's time stamp and
  random number instructions are arguments of the entropy pool.
\<close>

unbundle bit_operations_syntax

definition BLOCK_SIZE :: nat where "BLOCK_SIZE = 64"
definition DIGEST_SIZE :: nat where "DIGEST_SIZE = 32"
definition IPAD :: u8 where "IPAD = 0x36"
definition OPAD :: u8 where "OPAD = 0x5c"

definition H0 :: "u32 list" where
  "H0 = [0x6a09e667, 0xbb67ae85, 0x3c6ef372, 0xa54ff53a, 0x510e527f, 0x9b05688c, 0x1f83d9ab, 0x5be0cd19]"

definition K :: "u32 list" where
  "K = concat
   [[0x428a2f98, 0x71374491, 0xb5c0fbcf, 0xe9b5dba5, 0x3956c25b, 0x59f111f1, 0x923f82a4, 0xab1c5ed5],
    [0xd807aa98, 0x12835b01, 0x243185be, 0x550c7dc3, 0x72be5d74, 0x80deb1fe, 0x9bdc06a7, 0xc19bf174],
    [0xe49b69c1, 0xefbe4786, 0x0fc19dc6, 0x240ca1cc, 0x2de92c6f, 0x4a7484aa, 0x5cb0a9dc, 0x76f988da],
    [0x983e5152, 0xa831c66d, 0xb00327c8, 0xbf597fc7, 0xc6e00bf3, 0xd5a79147, 0x06ca6351, 0x14292967],
    [0x27b70a85, 0x2e1b2138, 0x4d2c6dfc, 0x53380d13, 0x650a7354, 0x766a0abb, 0x81c2c92e, 0x92722c85],
    [0xa2bfe8a1, 0xa81a664b, 0xc24b8b70, 0xc76c51a3, 0xd192e819, 0xd6990624, 0xf40e3585, 0x106aa070],
    [0x19a4c116, 0x1e376c08, 0x2748774c, 0x34b0bcb5, 0x391c0cb3, 0x4ed8aa4a, 0x5b9cca4f, 0x682e6ff3],
    [0x748f82ee, 0x78a5636f, 0x84c87814, 0x8cc70208, 0x90befffa, 0xa4506ceb, 0xbef9a3f7, 0xc67178f2]]"

definition rotr :: "u32 \<Rightarrow> nat \<Rightarrow> u32" where
  "rotr x n = word_rotr n x"

definition from_be_bytes :: "u8 list \<Rightarrow> 'a::len word" where
  "from_be_bytes bs = from_ne_bytes (rev bs)"

definition to_be_bytes :: "nat \<Rightarrow> 'a::len word \<Rightarrow> u8 list" where
  "to_be_bytes n w = rev (to_ne_bytes n w)"

definition copy_into :: "'a list \<Rightarrow> nat \<Rightarrow> 'a list \<Rightarrow> 'a list" where
  "copy_into dst i src = take i dst @ src @ drop (i + length src) dst"

text \<open>The message schedule and the rounds of one block.\<close>

definition load_step :: "u8 list \<Rightarrow> nat \<Rightarrow> u32 list \<Rightarrow> u32 list" where
  "load_step block t w = w[t := from_be_bytes [block ! (t * 4), block ! (t * 4 + 1),
     block ! (t * 4 + 2), block ! (t * 4 + 3)]]"

definition extend_step :: "nat \<Rightarrow> u32 list \<Rightarrow> u32 list" where
  "extend_step t w =
    (let s0 = rotr (w ! (t - 15)) 7 XOR rotr (w ! (t - 15)) 18 XOR drop_bit 3 (w ! (t - 15));
         s1 = rotr (w ! (t - 2)) 17 XOR rotr (w ! (t - 2)) 19 XOR drop_bit 10 (w ! (t - 2))
     in w[t := w ! (t - 16) + s0 + w ! (t - 7) + s1])"

definition schedule :: "u8 list \<Rightarrow> u32 list" where
  "schedule block = fold extend_step [16..<64] (fold (load_step block) [0..<16] (replicate 64 0))"

type_synonym work = "u32 \<times> u32 \<times> u32 \<times> u32 \<times> u32 \<times> u32 \<times> u32 \<times> u32"

definition round_step :: "u32 list \<Rightarrow> nat \<Rightarrow> work \<Rightarrow> work" where
  "round_step w t = (\<lambda>(a, b, c, d, e, f, g, hh).
    let s1 = rotr e 6 XOR rotr e 11 XOR rotr e 25;
        ch = (e AND f) XOR (NOT e AND g);
        temp1 = hh + s1 + ch + K ! t + w ! t;
        s0 = rotr a 2 XOR rotr a 13 XOR rotr a 22;
        maj = (a AND b) XOR (a AND c) XOR (b AND c);
        temp2 = s0 + maj
    in (temp1 + temp2, a, b, c, d + temp1, e, f, g))"

definition sha256_block :: "u8 list \<Rightarrow> u32 list \<Rightarrow> u32 list" where
  "sha256_block block h =
    (let w = schedule block;
         (a, b, c, d, e, f, g, hh) = fold (round_step w) [0..<64]
           (h ! 0, h ! 1, h ! 2, h ! 3, h ! 4, h ! 5, h ! 6, h ! 7)
     in h[0 := h ! 0 + a, 1 := h ! 1 + b, 2 := h ! 2 + c, 3 := h ! 3 + d,
          4 := h ! 4 + e, 5 := h ! 5 + f, 6 := h ! 6 + g, 7 := h ! 7 + hh])"

definition sha256 :: "u8 list \<Rightarrow> u8 list \<Rightarrow> u8 list option" where
  "sha256 dat out =
    (if length out < DIGEST_SIZE then None
     else
       let data_len_bits = of_nat (length dat) * 8 :: u64;
           complete_blocks = length dat div BLOCK_SIZE;
           h = fold (\<lambda>i. sha256_block (take BLOCK_SIZE (drop (i * BLOCK_SIZE) dat))) [0..<complete_blocks] H0;
           remaining = length dat mod BLOCK_SIZE;
           block = copy_into (replicate BLOCK_SIZE 0) 0 (drop (complete_blocks * BLOCK_SIZE) dat);
           block = block[remaining := 0x80];
           (h, block) = (if remaining + 1 + 8 > BLOCK_SIZE
                         then (sha256_block block h, replicate BLOCK_SIZE 0) else (h, block));
           block = copy_into block (BLOCK_SIZE - 8) (to_be_bytes 8 data_len_bits);
           h = sha256_block block h
       in Some (fold (\<lambda>i out. copy_into out (i * 4) (to_be_bytes 4 (h ! i))) [0..<8] out))"

definition hmac_sha256 :: "u8 list \<Rightarrow> u8 list \<Rightarrow> u8 list \<Rightarrow> u8 list option" where
  "hmac_sha256 key msg out =
    (if length out < DIGEST_SIZE then None
     else
       case (if length key > BLOCK_SIZE
             then map_option (copy_into (replicate BLOCK_SIZE 0) 0) (sha256 key (replicate DIGEST_SIZE 0))
             else Some (copy_into (replicate BLOCK_SIZE 0) 0 key)) of
         None \<Rightarrow> None
       | Some k \<Rightarrow>
         let ipad = map (\<lambda>i. k ! i XOR IPAD) [0..<BLOCK_SIZE];
             opad = map (\<lambda>i. k ! i XOR OPAD) [0..<BLOCK_SIZE]
         in (case sha256 (ipad @ msg) (replicate DIGEST_SIZE 0) of
               None \<Rightarrow> None
             | Some inner_hash \<Rightarrow> sha256 (opad @ inner_hash) out))"

text \<open>
  One iteration of the inner loop of \<^verbatim>\<open>pbkdf2\<close> replaces the running value \<open>u\<close> and folds it
  into the bytes \<open>off..<fin\<close> of the output.
\<close>

definition pbkdf2_iter :: "u8 list \<Rightarrow> nat \<Rightarrow> nat \<Rightarrow> u8 list \<times> u8 list \<Rightarrow> (u8 list \<times> u8 list) option" where
  "pbkdf2_iter password off fin = (\<lambda>(u, out).
    case hmac_sha256 password u (replicate DIGEST_SIZE 0) of
      None \<Rightarrow> None
    | Some u' \<Rightarrow> Some (u', fold (\<lambda>j out. out[j := out ! j XOR u' ! (j - off)]) [off..<fin] out))"

fun iterate_opt :: "nat \<Rightarrow> ('a \<Rightarrow> 'a option) \<Rightarrow> 'a \<Rightarrow> 'a option" where
  "iterate_opt 0 f x = Some x"
| "iterate_opt (Suc n) f x = (case f x of None \<Rightarrow> None | Some y \<Rightarrow> iterate_opt n f y)"

definition pbkdf2_block ::
  "u8 list \<Rightarrow> u8 list \<Rightarrow> u32 \<Rightarrow> nat \<Rightarrow> u8 list \<times> u8 list \<Rightarrow> (u8 list \<times> u8 list) option" where
  "pbkdf2_block password salt iterations block = (\<lambda>(u, out).
    case hmac_sha256 password (salt @ to_be_bytes 4 (of_nat block :: u32)) u of
      None \<Rightarrow> None
    | Some u \<Rightarrow>
      let block_off = (block - 1) * DIGEST_SIZE;
          fin = min (block_off + DIGEST_SIZE) (length out);
          out = copy_into out block_off (take (fin - block_off) u)
      in iterate_opt (unat iterations - 1) (pbkdf2_iter password block_off fin) (u, out))"

fun pbkdf2_blocks ::
  "u8 list \<Rightarrow> u8 list \<Rightarrow> u32 \<Rightarrow> nat list \<Rightarrow> u8 list \<times> u8 list \<Rightarrow> (u8 list \<times> u8 list) option" where
  "pbkdf2_blocks password salt iterations [] s = Some s"
| "pbkdf2_blocks password salt iterations (b # bs) s =
    (case pbkdf2_block password salt iterations b s of
       None \<Rightarrow> None | Some s' \<Rightarrow> pbkdf2_blocks password salt iterations bs s')"

definition pbkdf2 :: "u8 list \<Rightarrow> u8 list \<Rightarrow> u32 \<Rightarrow> u8 list \<Rightarrow> u8 list option" where
  "pbkdf2 password salt iterations out =
    (if iterations < 1 then None
     else
       let block_count = (length out + DIGEST_SIZE - 1) div DIGEST_SIZE
       in map_option snd (pbkdf2_blocks password salt iterations [1..<Suc block_count]
            (replicate DIGEST_SIZE 0, out)))"

text \<open>The entropy pool: \<open>rdrand\<close> is \<open>None\<close> when the processor lacks the instruction or it failed.\<close>

definition add_entropy :: "u64 \<Rightarrow> u64 \<Rightarrow> u64" where
  "add_entropy pool val = (pool * 0x9E3779B97F4A7C15 + val) XOR drop_bit 13 val"

definition get_u64 :: "u64 \<Rightarrow> u64 option \<Rightarrow> u64 \<Rightarrow> (u64 \<times> u64) option" where
  "get_u64 tsc rdrand pool =
    (let pool = add_entropy pool tsc;
         pool = (case rdrand of None \<Rightarrow> pool | Some v \<Rightarrow> add_entropy pool v)
     in case sha256 (to_ne_bytes 8 pool @ to_ne_bytes 8 tsc) (replicate 32 0) of
          None \<Rightarrow> None
        | Some output \<Rightarrow>
          let result = fold (\<lambda>byte r. push_bit 8 r OR ucast byte) (take 8 output) 0
          in Some (result, add_entropy pool result))"

section \<open>The functions of the standards\<close>

definition ROTR :: "nat \<Rightarrow> u32 \<Rightarrow> u32" where
  "ROTR n x = drop_bit n x OR push_bit (32 - n) x"

definition Ch :: "u32 \<Rightarrow> u32 \<Rightarrow> u32 \<Rightarrow> u32" where
  "Ch x y z = (x AND y) XOR (NOT x AND z)"

definition Maj :: "u32 \<Rightarrow> u32 \<Rightarrow> u32 \<Rightarrow> u32" where
  "Maj x y z = (x AND y) XOR (x AND z) XOR (y AND z)"

definition Sigma0 :: "u32 \<Rightarrow> u32" where "Sigma0 x = ROTR 2 x XOR ROTR 13 x XOR ROTR 22 x"
definition Sigma1 :: "u32 \<Rightarrow> u32" where "Sigma1 x = ROTR 6 x XOR ROTR 11 x XOR ROTR 25 x"
definition sigma0 :: "u32 \<Rightarrow> u32" where "sigma0 x = ROTR 7 x XOR ROTR 18 x XOR drop_bit 3 x"
definition sigma1 :: "u32 \<Rightarrow> u32" where "sigma1 x = ROTR 17 x XOR ROTR 19 x XOR drop_bit 10 x"

text \<open>
  The constants, from the roots of the primes. That the tables of the code hold these numbers is
  a lemma below.
\<close>

definition fips_K :: "nat \<Rightarrow> u32" where
  "fips_K t = map cbrt_bits (first_primes 64) ! t"

definition fips_H0 :: "u32 list" where
  "fips_H0 = map sqrt_bits (first_primes 8)"

text \<open>The schedule of a block of sixteen words is a recursive sequence.\<close>

fun fips_W :: "(nat \<Rightarrow> u32) \<Rightarrow> nat \<Rightarrow> u32" where
  "fips_W M t =
    (if t < 16 then M t
     else sigma1 (fips_W M (t - 2)) + fips_W M (t - 7) + sigma0 (fips_W M (t - 15)) + fips_W M (t - 16))"

declare fips_W.simps [simp del]

primrec fips_vars :: "(nat \<Rightarrow> u32) \<Rightarrow> work \<Rightarrow> nat \<Rightarrow> work" where
  "fips_vars M v 0 = v"
| "fips_vars M v (Suc t) =
    (case fips_vars M v t of (a, b, c, d, e, f, g, h) \<Rightarrow>
       let T1 = h + Sigma1 e + Ch e f g + fips_K t + fips_W M t; T2 = Sigma0 a + Maj a b c
       in (T1 + T2, a, b, c, d + T1, e, f, g))"

definition fips_compress :: "u32 list \<Rightarrow> u8 list \<Rightarrow> u32 list" where
  "fips_compress H block =
    (case fips_vars (\<lambda>t. from_be_bytes (take 4 (drop (4 * t) block)))
        (H ! 0, H ! 1, H ! 2, H ! 3, H ! 4, H ! 5, H ! 6, H ! 7) 64 of
      (a, b, c, d, e, f, g, h) \<Rightarrow> map2 (+) [a, b, c, d, e, f, g, h] H)"

text \<open>
  Padding: a one bit, the least number of zero bits that makes the length congruent to 448
  modulo 512, and the length of the message in bits as a 64-bit number.
\<close>

definition zero_bytes :: "nat \<Rightarrow> nat" where
  "zero_bytes len = (LEAST k. (len + 1 + k) mod 64 = 56)"

definition fips_pad :: "u8 list \<Rightarrow> u8 list" where
  "fips_pad m = m @ [0x80] @ replicate (zero_bytes (length m)) 0 @ to_be_bytes 8 (of_nat (8 * length m) :: u64)"

definition chunks :: "'a list \<Rightarrow> 'a list list" where
  "chunks xs = map (\<lambda>i. take 64 (drop (i * 64) xs)) [0..<length xs div 64]"

definition fips_sha256 :: "u8 list \<Rightarrow> u8 list" where
  "fips_sha256 m = concat (map (to_be_bytes 4) (foldl fips_compress fips_H0 (chunks (fips_pad m))))"

definition rfc_key :: "u8 list \<Rightarrow> u8 list" where
  "rfc_key k = (let k' = (if 64 < length k then fips_sha256 k else k) in k' @ replicate (64 - length k') 0)"

definition rfc_hmac :: "u8 list \<Rightarrow> u8 list \<Rightarrow> u8 list" where
  "rfc_hmac k text =
    fips_sha256 (map (\<lambda>b. b XOR 0x5c) (rfc_key k) @
      fips_sha256 (map (\<lambda>b. b XOR 0x36) (rfc_key k) @ text))"

primrec rfc_U :: "u8 list \<Rightarrow> u8 list \<Rightarrow> nat \<Rightarrow> nat \<Rightarrow> u8 list" where
  "rfc_U P S i 0 = rfc_hmac P (S @ to_be_bytes 4 (of_nat i :: u32))"
| "rfc_U P S i (Suc j) = rfc_hmac P (rfc_U P S i j)"

primrec rfc_F :: "u8 list \<Rightarrow> u8 list \<Rightarrow> nat \<Rightarrow> nat \<Rightarrow> u8 list" where
  "rfc_F P S i 0 = rfc_U P S i 0"
| "rfc_F P S i (Suc c) = map2 (XOR) (rfc_F P S i c) (rfc_U P S i (Suc c))"

definition rfc_pbkdf2 :: "u8 list \<Rightarrow> u8 list \<Rightarrow> nat \<Rightarrow> nat \<Rightarrow> u8 list" where
  "rfc_pbkdf2 P S c len =
    take len (concat (map (\<lambda>i. rfc_F P S i (c - 1)) [1..<Suc ((len + 31) div 32)]))"

section \<open>The constants\<close>

lemma K_check: "list_all2 (\<lambda>p w. root_ok 3 (cbrt_floor p) p (unat w)) p64 K"
  by (simp add: p64_def K_def root_ok_def cbrt_floor_def)

lemma H0_check: "list_all2 (\<lambda>p w. root_ok 2 (sqrt_floor p) p (unat w)) (take 8 p64) H0"
  by (simp add: p64_def H0_def root_ok_def sqrt_floor_def)

lemma list_all2_map: "list_all2 (\<lambda>p w. f p = w) ps ws \<Longrightarrow> map f ps = ws"
  by (induction rule: list_all2_induct) simp_all

lemma K_roots: "map cbrt_bits (first_primes 64) = K"
  unfolding first_primes_64 by (rule list_all2_map, rule list_all2_mono [OF K_check]) (rule cbrt_bits_eq)

lemma H0_roots: "map sqrt_bits (first_primes 8) = H0"
  unfolding first_primes_8 by (rule list_all2_map, rule list_all2_mono [OF H0_check]) (rule sqrt_bits_eq)

section \<open>One block\<close>

lemma rotr_ROTR:
  assumes n: "n < 32"
  shows "rotr x n = ROTR n x"
proof (rule bit_word_eqI)
  fix i assume i: "i < LENGTH(32)"
  show "bit (rotr x n) i = bit (ROTR n x) i"
  proof (cases "i + n < 32")
    case True
    then have "\<not> 32 - n \<le> i" by arith
    with True show ?thesis using i by (simp add: rotr_def ROTR_def bit_word_rotr_iff bit_simps add.commute)
  next
    case False
    then have "(i + n) mod 32 = i - (32 - n)" "\<not> bit x (n + i)" "32 - n \<le> i"
      using i n by (simp_all add: mod_if impossible_bit)
    then show ?thesis using i by (simp add: rotr_def ROTR_def bit_word_rotr_iff bit_simps)
  qed
qed

lemma load_loop:
  assumes "n \<le> 16" "length w = 64"
  shows "length (fold (load_step block) [0..<n] w) = 64
    \<and> (\<forall>t<n. fold (load_step block) [0..<n] w ! t = from_be_bytes [block ! (t * 4), block ! (t * 4 + 1),
     block ! (t * 4 + 2), block ! (t * 4 + 3)])"
  using assms(1)
proof (induction n)
  case (Suc n)
  then show ?case by (auto simp: load_step_def nth_list_update less_Suc_eq)
qed (use assms(2) in simp)

lemma take_four: "4 \<le> length ys \<Longrightarrow> take 4 ys = [ys ! 0, ys ! 1, ys ! 2, ys ! 3]"
  by (auto simp: numeral_eq_Suc Suc_le_length_iff)

lemma be_word:
  assumes "t < 16" "length block = 64"
  shows "[block ! (t * 4), block ! (t * 4 + 1), block ! (t * 4 + 2), block ! (t * 4 + 3)] = take 4 (drop (4 * t) block)"
proof -
  have "4 \<le> length (drop (4 * t) block)" using assms by simp
  from take_four [OF this] show ?thesis using assms by (simp add: mult.commute)
qed

lemma extend_step_W:
  assumes "length w = 64" "n < 48" "\<forall>t<16 + n. w ! t = fips_W M t"
  shows "extend_step (16 + n) w = w[16 + n := fips_W M (16 + n)]"
proof -
  have W: "fips_W M (16 + n) = sigma1 (fips_W M (14 + n)) + fips_W M (9 + n) + sigma0 (fips_W M (1 + n)) + fips_W M n"
    by (subst fips_W.simps) simp
  have "w ! (1 + n) = fips_W M (1 + n)" "w ! (14 + n) = fips_W M (14 + n)" "w ! (9 + n) = fips_W M (9 + n)"
    "w ! n = fips_W M n" using assms(3) by auto
  then have "w ! n + sigma0 (w ! (1 + n)) + w ! (9 + n) + sigma1 (w ! (14 + n)) = fips_W M (16 + n)"
    unfolding W by simp
  moreover have "16 + n - 15 = 1 + n" "16 + n - 2 = 14 + n" "16 + n - 7 = 9 + n" "16 + n - 16 = n" by simp_all
  ultimately show ?thesis
    unfolding extend_step_def Let_def sigma0_def sigma1_def by (simp add: rotr_ROTR)
qed

lemma extend_loop:
  assumes "n \<le> 48" "length w = 64" "\<forall>t<16. w ! t = M t"
  shows "length (fold extend_step [16..<16 + n] w) = 64
    \<and> (\<forall>t<16 + n. fold extend_step [16..<16 + n] w ! t = fips_W M t)"
  using assms(1)
proof (induction n)
  case 0
  then show ?case using assms by (simp add: fips_W.simps)
next
  case (Suc n)
  define v where "v = fold extend_step [16..<16 + n] w"
  have IH: "length v = 64" "\<forall>t<16 + n. v ! t = fips_W M t" using Suc by (auto simp: v_def)
  have "fold extend_step [16..<16 + Suc n] w = v[16 + n := fips_W M (16 + n)]"
    using extend_step_W [OF IH(1) _ IH(2)] Suc.prems
    unfolding add_Suc_right v_def by (subst upt_Suc) simp
  then show ?case using IH Suc.prems by (auto simp: nth_list_update less_Suc_eq)
qed

lemma schedule_W:
  assumes "length block = 64" "t < 64"
  shows "schedule block ! t = fips_W (\<lambda>t. from_be_bytes (take 4 (drop (4 * t) block))) t"
proof -
  note l = load_loop [of 16 "replicate 64 0" block]
  have "\<forall>t<16. fold (load_step block) [0..<16] (replicate 64 0) ! t = from_be_bytes (take 4 (drop (4 * t) block))"
    using l be_word [OF _ assms(1)] by simp
  from extend_loop [OF _ _ this, of 48] show ?thesis
    using l assms(2) by (simp add: schedule_def)
qed

lemma rounds_vars:
  assumes "length block = 64" "n \<le> 64"
  shows "fold (round_step (schedule block)) [0..<n] v =
    fips_vars (\<lambda>t. from_be_bytes (take 4 (drop (4 * t) block))) v n"
  using assms(2)
proof (induction n)
  case (Suc n)
  then show ?case
    by (simp add: round_step_def schedule_W [OF assms(1)] Let_def Sigma0_def Sigma1_def Ch_def Maj_def
        rotr_ROTR fips_K_def K_roots split: prod.split)
qed simp

lemma list_eight: "length h = 8 \<Longrightarrow> \<exists>a b c d e f g i. h = [a, b, c, d, e, f, g, i]"
  by (auto simp: numeral_eq_Suc length_Suc_conv)

lemma update_eight:
  "[a, b, c, d, e, f, g, i][0 := a', 1 := b', 2 := c', 3 := d', 4 := e', 5 := f', 6 := g', 7 := i'] =
   [a', b', c', d', e', f', g', i']"
  by (simp add: numeral_eq_Suc)

lemma block_compress:
  assumes "length block = 64" "length h = 8"
  shows "sha256_block block h = fips_compress h block"
proof -
  from list_eight [OF assms(2)] obtain a b c d e f g i where h: "h = [a, b, c, d, e, f, g, i]" by blast
  show ?thesis
    unfolding sha256_block_def fips_compress_def rounds_vars [OF assms(1) order_refl] h Let_def
      update_eight [of a b c d e f g i]
    by (simp add: add.commute split: prod.split)
qed

lemma length_compress [simp]: "length h = 8 \<Longrightarrow> length (fips_compress h block) = 8"
  by (simp add: fips_compress_def split: prod.split)

lemma blocks_compress:
  assumes "\<forall>b \<in> set bs. length b = 64" "length h = 8"
  shows "fold sha256_block bs h = foldl fips_compress h bs \<and> length (foldl fips_compress h bs) = 8"
  using assms by (induction bs arbitrary: h) (simp_all add: block_compress)

section \<open>Padding\<close>

lemma mod_56: "x mod 64 = 56 \<Longrightarrow> 57 \<le> x \<Longrightarrow> 120 \<le> x" for x :: nat
  using mult_div_mod_eq [of 64 x] by (cases "x div 64") auto

lemma zero_bytes_eq: "zero_bytes len = (if len mod 64 < 56 then 55 - len mod 64 else 119 - len mod 64)"
proof -
  define r where "r = len mod 64"
  then have r: "r < 64" by simp
  have eq: "(len + 1 + k) mod 64 = (r + 1 + k) mod 64" for k
    using mod_add_left_eq [of len 64 "1 + k"] by (simp add: r_def)
  show ?thesis unfolding zero_bytes_def eq r_def [symmetric]
  proof (rule Least_equality)
    show "(r + 1 + (if r < 56 then 55 - r else 119 - r)) mod 64 = 56" using r by simp
  next
    fix y assume "(r + 1 + y) mod 64 = 56"
    then show "(if r < 56 then 55 - r else 119 - r) \<le> y"
      using mod_less_eq_dividend [of "r + 1 + y" 64] mod_56 [of "r + 1 + y"] by auto
  qed
qed

lemma chunks_one [simp]: "length xs = 64 \<Longrightarrow> chunks xs = [xs]"
  by (simp add: chunks_def)

lemma chunks_append:
  assumes "length xs = 64 * q"
  shows "chunks (xs @ ys) = chunks xs @ chunks ys"
proof -
  have idx: "[0..<q + length ys div 64] = [0..<q] @ map (\<lambda>i. i + q) [0..<length ys div 64]"
    unfolding map_add_upt upt_add_eq_append [OF le0] by (simp add: add.commute)
  have "take 64 (drop (i * 64) (xs @ ys)) = take 64 (drop (i * 64) xs)" if "i < q" for i
    using that assms by simp
  moreover have "drop ((i + q) * 64) (xs @ ys) = drop (i * 64) ys" for i
    using assms by (simp add: algebra_simps)
  ultimately show ?thesis
    using assms by (simp add: chunks_def idx)
qed

lemma length_chunks: "\<forall>b \<in> set (chunks xs). length b = 64"
proof -
  have "i * 64 + 64 \<le> length xs" if "i < length xs div 64" for i
    using that by (metis Suc_leI add.commute div_times_less_eq_dividend le_trans mult_Suc mult_le_mono1)
  then show ?thesis by (auto simp: chunks_def)
qed

lemma length_to_be_bytes [simp]: "length (to_be_bytes n w) = n"
  by (simp add: to_be_bytes_def)

lemma chunks_prefix:
  "chunks (take (q * 64) xs) = map (\<lambda>i. take 64 (drop (i * 64) xs)) [0..<q]" if "q * 64 \<le> length xs"
proof -
  have "take 64 (drop (i * 64) (take (q * 64) xs)) = take 64 (drop (i * 64) xs)" if "i < q" for i
  proof -
    have "64 \<le> q * 64 - i * 64" using that by (simp add: diff_mult_distrib [symmetric])
    then show ?thesis by (simp add: drop_take min_def)
  qed
  then show ?thesis using that by (simp add: chunks_def min_def)
qed

text \<open>The blocks the code builds are the blocks of the padded message.\<close>

lemma copy_into_zeros: "length xs \<le> n \<Longrightarrow> copy_into (replicate n x) 0 xs = xs @ replicate (n - length xs) x"
  by (simp add: copy_into_def)

lemma padded_tail:
  fixes tl :: "u8 list" and len :: "u8 list"
  assumes "length tl < 64" "length len = 8"
  shows "chunks (tl @ [0x80] @ replicate (zero_bytes (length tl)) 0 @ len) =
    (let block = (copy_into (replicate 64 0) 0 tl)[length tl := 0x80]
     in if length tl + 1 + 8 > 64 then [block, copy_into (replicate 64 0) 56 len]
        else [copy_into block 56 len])"
proof -
  have block: "(copy_into (replicate 64 0) 0 tl)[length tl := 0x80] = tl @ [0x80] @ replicate (63 - length tl) 0"
  proof -
    have "64 - length tl = Suc (63 - length tl)" using assms(1) by simp
    then show ?thesis using assms(1) by (simp add: copy_into_zeros list_update_append)
  qed
  show ?thesis
  proof (cases "length tl < 56")
    case True
    then have "replicate (63 - length tl) 0 = replicate (55 - length tl) 0 @ replicate 8 (0 :: u8)"
      by (simp add: replicate_add [symmetric])
    moreover from True have "56 - length tl = Suc (55 - length tl)" by simp
    ultimately show ?thesis using True assms unfolding block Let_def
      by (simp add: zero_bytes_eq copy_into_def)
  next
    case False
    then have z: "replicate (119 - length tl) 0 = replicate (63 - length tl) 0 @ replicate 56 (0 :: u8)"
      using assms(1) by (simp add: replicate_add [symmetric])
    have "chunks ((tl @ [0x80] @ replicate (63 - length tl) 0) @ (replicate 56 0 @ len)) =
      [tl @ [0x80] @ replicate (63 - length tl) 0] @ [replicate 56 0 @ len]"
      using assms by (subst chunks_append [of _ 1]) simp_all
    with False assms show ?thesis unfolding block Let_def
      by (simp add: zero_bytes_eq z copy_into_def)
  qed
qed

section \<open>The hash functions\<close>

lemma map_index: "length xs = n \<Longrightarrow> map (\<lambda>i. f (xs ! i)) [0..<n] = map f xs"
  by (auto intro: nth_equalityI)

lemma output_words:
  assumes "\<And>i. length (f i) = 4" "4 * n \<le> length out"
  shows "fold (\<lambda>i out. copy_into out (i * 4) (f i)) [0..<n] out = concat (map f [0..<n]) @ drop (4 * n) out"
  using assms(2)
proof (induction n)
  case (Suc n)
  have "length (concat (map f [0..<n])) = 4 * n"
    by (induction n) (simp_all add: assms(1))
  with Suc assms(1) show ?case by (simp add: copy_into_def ac_simps)
qed simp

lemma pad_split:
  fixes m :: "u8 list"
  defines "q \<equiv> length m div 64"
  shows "chunks (fips_pad m) = chunks (take (q * 64) m) @
    chunks (drop (q * 64) m @ [0x80] @ replicate (zero_bytes (length (drop (q * 64) m))) 0 @
      to_be_bytes 8 (of_nat (8 * length m) :: u64))"
proof -
  have len: "length (take (q * 64) m) = 64 * q" by (simp add: q_def)
  have "length (drop (q * 64) m) = length m mod 64"
    by (simp add: q_def minus_div_mult_eq_mod)
  then have "zero_bytes (length (drop (q * 64) m)) = zero_bytes (length m)"
    by (simp add: zero_bytes_eq)
  then have "fips_pad m = take (q * 64) m @ drop (q * 64) m @ [0x80] @
      replicate (zero_bytes (length (drop (q * 64) m))) 0 @ to_be_bytes 8 (of_nat (8 * length m) :: u64)"
    unfolding fips_pad_def by simp
  then show ?thesis by (simp only: chunks_append [OF len])
qed

lemma length_H0: "length H0 = 8"
  by (simp add: H0_def)

lemma length_hash: "length (foldl fips_compress H0 bs) = 8"
  by (induction bs rule: rev_induct) (simp_all add: length_H0)

lemma sha256_fips:
  "sha256 m out = (if length out < 32 then None else Some (fips_sha256 m @ drop 32 out))"
proof (cases "length out < 32")
  case False
  define q where "q = length m div 64"
  define tl where "tl = drop (q * 64) m"
  define bits where "bits = to_be_bytes 8 (of_nat (length m) * 8 :: u64)"
  define block where "block = (copy_into (replicate 64 0) 0 tl)[length tl := 0x80]"
  define last where "last = (if length tl + 1 + 8 > 64 then [block, copy_into (replicate 64 0) 56 bits]
     else [copy_into block 56 bits])"
  define h where "h = foldl fips_compress H0 (chunks (take (q * 64) m))"
  have tl: "length tl = length m mod 64" by (simp add: tl_def q_def minus_div_mult_eq_mod)
  have bits: "bits = to_be_bytes 8 (of_nat (8 * length m) :: u64)" by (simp add: bits_def mult.commute)
  have last: "chunks (tl @ [0x80] @ replicate (zero_bytes (length tl)) 0 @ bits) = last"
    using padded_tail [of tl bits] tl by (simp add: last_def block_def bits_def Let_def)
  then have pad: "foldl fips_compress H0 (chunks (fips_pad m)) = foldl fips_compress h last"
    using pad_split [of m] by (simp add: h_def tl_def q_def bits)
  have first: "fold (\<lambda>i. sha256_block (take 64 (drop (i * 64) m))) [0..<q] H0 = h"
    using blocks_compress [OF length_chunks [of "take (q * 64) m"] length_H0]
      chunks_prefix [of q m] by (simp add: h_def fold_map o_def q_def)
  have "\<forall>b \<in> set last. length b = 64"
    using length_chunks [of "tl @ [0x80] @ replicate (zero_bytes (length tl)) 0 @ bits"] unfolding last .
  moreover have "length h = 8" unfolding h_def by (rule length_hash)
  ultimately have rest: "fold sha256_block last h = foldl fips_compress h last"
    by (rule blocks_compress [THEN conjunct1])
  define h' where "h' = fold sha256_block last h"
  have h': "foldl fips_compress H0 (chunks (fips_pad m)) = h'"
    unfolding h'_def pad rest ..
  then have "length h' = 8" using length_hash [of "chunks (fips_pad m)"] by simp
  then have out: "map (to_be_bytes 4) h' = map (\<lambda>i. to_be_bytes 4 (h' ! i)) [0..<8]"
    by (rule map_index [symmetric])
  have "sha256 m out = Some (fold (\<lambda>i out. copy_into out (i * 4) (to_be_bytes 4 (h' ! i))) [0..<8] out)"
    using False
    by (simp add: sha256_def DIGEST_SIZE_def BLOCK_SIZE_def Let_def first [unfolded q_def]
        h'_def last_def block_def bits_def tl tl_def [symmetric, unfolded q_def])
  also have "\<dots> = Some (concat (map (\<lambda>i. to_be_bytes 4 (h' ! i)) [0..<8]) @ drop 32 out)"
    using False by (subst output_words) simp_all
  finally show ?thesis using False by (simp only: fips_sha256_def fips_H0_def H0_roots h' out if_False)
qed (simp add: sha256_def DIGEST_SIZE_def)

lemma length_fips_sha256 [simp]: "length (fips_sha256 m) = 32"
proof -
  have "length (concat (map (to_be_bytes 4) h)) = 4 * length h" for h :: "u32 list"
    by (induction h) simp_all
  then show ?thesis by (simp add: fips_sha256_def fips_H0_def H0_roots length_hash)
qed

lemma hmac_key:
  "(if length key > BLOCK_SIZE
      then map_option (copy_into (replicate BLOCK_SIZE 0) 0) (sha256 key (replicate DIGEST_SIZE 0))
      else Some (copy_into (replicate BLOCK_SIZE 0) 0 key)) = Some (rfc_key key)"
  by (simp add: BLOCK_SIZE_def DIGEST_SIZE_def sha256_fips rfc_key_def copy_into_zeros Let_def)

lemma length_rfc_key [simp]: "length (rfc_key k) = 64"
  by (simp add: rfc_key_def Let_def)

lemma hmac_rfc:
  "hmac_sha256 key msg out = (if length out < 32 then None else Some (rfc_hmac key msg @ drop 32 out))"
  unfolding hmac_sha256_def hmac_key
  by (simp add: BLOCK_SIZE_def DIGEST_SIZE_def IPAD_def OPAD_def map_index [of _ 64 "\<lambda>b. b XOR 0x36"]
      map_index [of _ 64 "\<lambda>b. b XOR 0x5c"] sha256_fips rfc_hmac_def Let_def)

section \<open>Key derivation\<close>

lemma length_rfc [simp]:
  "length (rfc_hmac k m) = 32" "length (rfc_U P S i j) = 32" "length (rfc_F P S i c) = 32"
proof -
  show "length (rfc_hmac k m) = 32" for k m by (simp add: rfc_hmac_def)
  then show U: "length (rfc_U P S i j) = 32" for j by (cases j) simp_all
  show "length (rfc_F P S i c) = 32" by (induction c) (simp_all del: rfc_U.simps add: U)
qed

lemma map2_take: "map2 f (take n xs) ys = take n (map2 f xs ys)"
  by (induction xs ys arbitrary: n rule: list_induct2') (auto simp: take_Cons split: nat.split)

lemma zip_take_right: "zip xs (take (length xs) ys) = zip xs ys"
  by (induction xs ys rule: list_induct2') auto

lemma xor_loop:
  assumes "length A = off" "length x = n" "n \<le> length u"
  shows "fold (\<lambda>j out. out[j := out ! j XOR u ! (j - off)]) [off..<off + n] (A @ x @ C) =
    A @ map2 (XOR) x u @ C"
  using assms(2,3)
proof (induction n arbitrary: x C)
  case (Suc n)
  then obtain y b where x: "x = y @ [b]" and y: "length y = n"
    by (metis append_Nil2 length_Suc_conv_rev)
  have split: "map2 (XOR) (y @ [b]) u = map2 (XOR) y u @ [b XOR u ! n]"
  proof -
    have "zip y (take n u) = zip y u" using zip_take_right [of y u] y by simp
    then show ?thesis using Suc.prems y by (simp add: zip_append1 Cons_nth_drop_Suc [symmetric])
  qed
  have len: "length (map2 (XOR) y u) = n" using y Suc.prems by simp
  show ?case
    using Suc.IH [of y "b # C"] y Suc.prems assms(1) len
    by (simp add: x split nth_append list_update_append)
qed simp

lemma iter_rfc:
  assumes "length A = off" "n \<le> 32"
  shows "iterate_opt c (pbkdf2_iter P off (off + n)) (rfc_U P S i j, A @ take n (rfc_F P S i j) @ C) =
    Some (rfc_U P S i (j + c), A @ take n (rfc_F P S i (j + c)) @ C)"
proof (induction c arbitrary: j)
  case (Suc c)
  have "pbkdf2_iter P off (off + n) (rfc_U P S i j, A @ take n (rfc_F P S i j) @ C) =
    Some (rfc_U P S i (Suc j), A @ take n (rfc_F P S i (Suc j)) @ C)"
    using assms by (simp add: pbkdf2_iter_def hmac_rfc DIGEST_SIZE_def xor_loop map2_take)
  with Suc [of "Suc j"] show ?case by (simp del: rfc_U.simps rfc_F.simps)
qed simp

lemma block_rfc:
  assumes "length u = 32" "length A = 32 * b" "C \<noteq> []"
  shows "pbkdf2_block P S it (Suc b) (u, A @ C) =
    Some (rfc_U P S (Suc b) (unat it - 1),
      A @ take (length C) (rfc_F P S (Suc b) (unat it - 1)) @ drop 32 C)"
proof -
  define n where "n = min 32 (length C)"
  have fin: "min (32 * b + 32) (length (A @ C)) = 32 * b + n"
    using assms(2) by (simp add: n_def min_def)
  have copy: "copy_into (A @ C) (32 * b) (take n (rfc_U P S (Suc b) 0)) =
    A @ take n (rfc_F P S (Suc b) 0) @ drop n C"
    using assms(2) by (simp add: copy_into_def n_def del: rfc_U.simps)
  have "pbkdf2_block P S it (Suc b) (u, A @ C) =
    iterate_opt (unat it - 1) (pbkdf2_iter P (32 * b) (32 * b + n))
      (rfc_U P S (Suc b) 0, A @ take n (rfc_F P S (Suc b) 0) @ drop n C)"
    unfolding copy [symmetric] pbkdf2_block_def
    using assms(1) fin by (simp add: hmac_rfc DIGEST_SIZE_def Let_def mult.commute)
  also have "\<dots> = Some (rfc_U P S (Suc b) (unat it - 1),
      A @ take n (rfc_F P S (Suc b) (unat it - 1)) @ drop n C)"
    using iter_rfc [OF assms(2), of n "unat it - 1" P S "Suc b" 0] by (simp add: n_def)
  also have "take n (rfc_F P S (Suc b) (unat it - 1)) = take (length C) (rfc_F P S (Suc b) (unat it - 1))"
    by (simp add: n_def min_def)
  also have "drop n C = drop 32 C" by (simp add: n_def min_def)
  finally show ?thesis .
qed

lemma pbkdf2_blocks_append:
  "pbkdf2_blocks P S it (xs @ ys) s =
    (case pbkdf2_blocks P S it xs s of None \<Rightarrow> None | Some s' \<Rightarrow> pbkdf2_blocks P S it ys s')"
  by (induction xs arbitrary: s) (auto split: option.split)

lemma length_concat_F: "length (concat (map (\<lambda>i. rfc_F P S i c) [1..<Suc b])) = 32 * b"
  by (induction b) simp_all

lemma blocks_rfc:
  assumes "length u = 32" "b \<le> (length out + 31) div 32"
  shows "\<exists>u'. length u' = 32 \<and> pbkdf2_blocks P S it [1..<Suc b] (u, out) =
    Some (u', take (length out) (concat (map (\<lambda>i. rfc_F P S i (unat it - 1)) [1..<Suc b])) @ drop (32 * b) out)"
  using assms(2)
proof (induction b)
  case 0
  then show ?case using assms(1) by simp
next
  case (Suc b)
  define T where "T = concat (map (\<lambda>i. rfc_F P S i (unat it - 1)) [1..<Suc b])"
  define C where "C = drop (32 * b) out"
  have T: "length T = 32 * b" unfolding T_def by (rule length_concat_F)
  have lt: "32 * b < length out" using Suc.prems by simp
  from Suc obtain u' where u': "length u' = 32"
    and run: "pbkdf2_blocks P S it [1..<Suc b] (u, out) = Some (u', take (length out) T @ C)"
    unfolding T_def C_def by auto
  have "take (length out) T = T" using T lt by simp
  moreover have "C \<noteq> []" using lt by (simp add: C_def)
  ultimately have "pbkdf2_blocks P S it [1..<Suc (Suc b)] (u, out) =
    Some (rfc_U P S (Suc b) (unat it - 1),
      T @ take (length C) (rfc_F P S (Suc b) (unat it - 1)) @ drop 32 C)"
    using run block_rfc [OF u' T, of C P S it] by (simp add: pbkdf2_blocks_append)
  moreover have "T @ take (length C) (rfc_F P S (Suc b) (unat it - 1)) @ drop 32 C =
    take (length out) (concat (map (\<lambda>i. rfc_F P S i (unat it - 1)) [1..<Suc (Suc b)])) @ drop (32 * Suc b) out"
    using T lt by (simp add: T_def [symmetric, simplified] C_def ac_simps)
  ultimately show ?case by simp
qed

lemma pbkdf2_rfc:
  "pbkdf2 P S it out = (if it = 0 then None else Some (rfc_pbkdf2 P S (unat it) (length out)))"
proof (cases "it = 0")
  case False
  then have "\<not> it < 1" by (metis word_less_1)
  moreover from blocks_rfc [of "replicate 32 0" "(length out + 31) div 32" out P S it]
  obtain u' where "pbkdf2_blocks P S it [1..<Suc ((length out + 31) div 32)] (replicate 32 0, out) =
    Some (u', rfc_pbkdf2 P S (unat it) (length out) @ drop (32 * ((length out + 31) div 32)) out)"
    by (auto simp: rfc_pbkdf2_def)
  moreover have "length out \<le> 32 * ((length out + 31) div 32)" by simp
  ultimately show ?thesis using False
    by (simp add: pbkdf2_def DIGEST_SIZE_def Let_def add.commute del: upt_Suc)
qed (simp add: pbkdf2_def)

text \<open>
  C39: The hash functions are those of the standards, on every input and every output buffer.
  The digest the code computes block by block, with the last one or two blocks
  padded in place, is the digest of the padded message of FIPS 180-4, with the constants the standard
  derives from the roots of the first primes; HMAC and PBKDF2 are the
  functions of RFC 2104 and RFC 2898; bytes of the output behind the digest are kept, and a failed
  assertion (an output shorter than a digest, no iterations) is the only other outcome.
\<close>

theorem crypto_matches_standards:
  "sha256 m out = (if length out < 32 then None else Some (fips_sha256 m @ drop 32 out))
   \<and> hmac_sha256 key m out = (if length out < 32 then None else Some (rfc_hmac key m @ drop 32 out))
   \<and> pbkdf2 password salt iterations out =
       (if iterations = 0 then None else Some (rfc_pbkdf2 password salt (unat iterations) (length out)))"
  by (simp only: sha256_fips hmac_rfc pbkdf2_rfc)

end
