(* ===== verification/Spec2Isabelle.thy ===== *)
theory Spec2Isabelle
  imports Mqueue Swap Overcommit Ash Bpf Seccomp Landlock Ipc Sha256
begin

text \<open>
  \<^bold>\<open>Verification library for the Vahi kernel.\<close>

  Vahi is an operating system kernel in Rust. This library models the parts of it whose
  behaviour is decided by data structures and control flow, and proves them correct or
  shows where they are not. Paths below are under \<^verbatim>\<open>src/\<close>.

  \<^bold>\<open>Conventions.\<close> A machine integer is a word of its width and its operators wrap, as in
  the release profile of the sources; a struct is a record, an enum a datatype, a
  \<^verbatim>\<open>Result\<close> a sum with the error on the left, a \<^verbatim>\<open>BTreeMap\<close> its sorted association list. A
  panic, an out-of-range index or a memory access outside an object is an outcome of its own. A
  lock makes an operation one step; where the code drops a lock and tries again, what other
  threads do in between is an argument, and the lemmas hold for every such argument. Code
  outside \<^verbatim>\<open>src/\<close> and the hardware are arguments with named hypotheses.

  \<^bold>\<open>Shared theories.\<close>
  \<^item> \<open>Prelude\<close>: integer widths, checked and saturating operations, byte orders, list operations.
  \<^item> \<open>Errno\<close>: \<^verbatim>\<open>crates/types/src/errno.rs\<close>; error returns cannot be confused with results.
  \<^item> \<open>UserAccess\<close>: copying from and to user memory; a copy touches only its range.
  \<^item> \<open>MessageQueue\<close>: the contract (a locale) of a bounded queue, with its client lemmas; POSIX
    message queues and IPC endpoints are its instances.
  \<^item> \<open>FrameAllocator\<close>: the contract of a frame allocator; the buddy allocator is its instance.
  \<^item> \<open>SortedMap\<close>, \<open>Bits\<close>, \<open>PrimeRoots\<close>: sorted maps, bit and carry lemmas, integer roots and primes.

  \<^bold>\<open>Components.\<close>
  \<^item> \<open>MqQueue\<close> and \<open>Mqueue\<close>: \<^verbatim>\<open>kernel/src/ipc/mqueue/\<close>. The queue delivers by priority and in
    order of arrival; the system calls keep the byte accounts of every user exact, deadlines end
    every wait, and unlinking keeps open queues alive.
  \<^item> \<open>Buddy\<close>, \<open>BuddyCorrect\<close>, \<open>FrameInfo\<close>: \<^verbatim>\<open>crates/memory/src/buddy.rs\<close> and \<^verbatim>\<open>frame_info.rs\<close>. The
    intrusive free lists in frame memory represent disjoint aligned blocks; clients never
    receive overlapping blocks, an allocation fails only when no block is left, and reference
    counts are exact until they wrap.
  \<^item> \<open>Overcommit\<close> and \<open>Swap\<close>: the commit limit and the swap slots.
  \<^item> \<open>Tnum\<close>, \<open>EbpfMaps\<close>, \<open>EbpfVm\<close>, \<open>EbpfVerifier\<close>, \<open>Bpf\<close>: \<^verbatim>\<open>kernel/src/ebpf/\<close> and the system call. The
    tracked numbers are sound except for the operations shown, the ring buffer refines a queue, the
    verifier's walk computes exactly its reachability condition and a fixed point of the tracked
    states, and forward programs end.
  \<^item> \<open>Ash\<close>: \<^verbatim>\<open>kernel/src/ash/\<close>, the handlers run on these programs: the registry is sound, and
    accepted handlers can still leave their memory or loop.
  \<^item> \<open>Seccomp\<close> and \<open>Landlock\<close>: \<^verbatim>\<open>crates/syscalls/src/\<close> and \<^verbatim>\<open>kernel/src/syscalls/\<close>. Filtering fails
    closed but for indirect loads, which can panic; no landlock call grants an access, and
    rules match name prefixes across component borders.
  \<^item> \<open>Ipc\<close>: \<^verbatim>\<open>crates/ipc/src/lib.rs\<close>. Under every interleaving an endpoint is a bounded queue, first in,
    first out; every blocking call takes effect in one step and returns.
  \<^item> \<open>Sha256\<close>: \<^verbatim>\<open>crates/crypto/src/\<close>. SHA-256, HMAC and PBKDF2 are the functions of the standards,
    and the constant tables are those the standard derives from prime roots.

  \<^bold>\<open>Bounds and fuel.\<close> The loops of the verifier carry the budget of the code, which is its own
  bound. Interpreters are partial functions: not returning is \<open>None\<close>, and returning is proved where it is
  claimed. The spinning loops of IPC end by the code's limit of 4096 attempts; the other loops recurse on
  a list or on a decreasing measure. Waiting in a message queue recurses over the observed ticks.

  \<^bold>\<open>Not modelled.\<close> Device drivers, interrupt controllers, page tables, boot, firmware tables and
  relocation act on hardware or on raw memory the model has no account of. The just-in-time compiler
  emits machine code. The system call dispatcher, process life cycle, scheduler, file systems, network
  stack, object manager, graphics and the remaining system calls are not covered yet. Console output and
  tests are left out throughout.
\<close>

end
